(* ===== verification/Prelude.thy ===== *)
theory Prelude
  imports Main "HOL-Library.Word" "HOL-Library.Multiset" "HOL-Library.Char_ord" "HOL-Library.List_Lexorder"
begin

text \<open>
  Vocabulary shared by every component: the widths of the Rust integers the code uses, the
  pieces of the Rust standard library the code calls (\<open>Vec::swap_remove\<close>, \<open>slice::binary_search\<close>,
  \<open>str::rsplit_once\<close>, decimal formatting), and the generic list facts the component proofs rest on.
  Two theorem collections carry the automation: \<open>model_defs\<close> holds the definitions a proof may
  always unfold, \<open>rust_std\<close> the laws of the modelled library functions.
\<close>

named_theorems model_defs "definitions that component proofs may always unfold"
named_theorems rust_std "laws of the modelled Rust library functions"

type_synonym u8 = "8 word"
type_synonym u32 = "32 word"
type_synonym u64 = "64 word"

section \<open>Vectors\<close>

text \<open>\<open>Vec::swap_remove\<close> on a valid index: the last element takes the removed one's place.\<close>

definition swap_remove :: "nat \<Rightarrow> 'a list \<Rightarrow> 'a list" where
  "swap_remove i xs = butlast (xs[i := last xs])"

text \<open>\<open>iter().position(|e| e == x)\<close>.\<close>

fun position :: "'a \<Rightarrow> 'a list \<Rightarrow> nat option" where
  "position x [] = None"
| "position x (y # ys) = (if y = x then Some 0 else map_option Suc (position x ys))"

text \<open>The idiom \<open>if let Some(pos) = v.iter().position(..) { v.swap_remove(pos); }\<close>.\<close>

definition remove_one :: "'a \<Rightarrow> 'a list \<Rightarrow> 'a list" where
  "remove_one x xs = (case position x xs of None \<Rightarrow> xs | Some i \<Rightarrow> swap_remove i xs)"

lemma position_None [rust_std]: "position x xs = None \<longleftrightarrow> x \<notin> set xs"
  by (induction xs) auto

lemma position_notin [simp]: "x \<notin> set xs \<Longrightarrow> position x xs = None"
  by (simp add: position_None)

lemma position_Some [rust_std]: "position x xs = Some i \<Longrightarrow> i < length xs \<and> xs ! i = x"
  by (induction xs arbitrary: i) (auto split: if_splits simp: nth_Cons')

lemma mset_swap_remove [rust_std]:
  assumes "i < length xs"
  shows "mset (swap_remove i xs) = mset xs - {#xs ! i#}"
proof -
  have ne: "xs \<noteq> []" using assms by auto
  let ?ys = "xs[i := last xs]"
  have ys: "?ys \<noteq> []" using ne by simp
  have last_ys: "last ?ys = last xs"
    using assms ne by (simp add: last_list_update)
  have "mset ?ys = add_mset (last xs) (mset xs - {#xs ! i#})"
    using assms by (simp add: mset_update)
  moreover have "mset ?ys = add_mset (last xs) (mset (butlast ?ys))"
    by (metis append_butlast_last_id last_ys mset.simps(2) mset_append mset_rev rev_eq_Cons_iff
        rotate1.simps(2) union_mset_add_mset_right ys add_mset_add_single)
  ultimately show ?thesis by (simp add: swap_remove_def)
qed

lemma mset_remove_one [rust_std, simp]: "mset (remove_one x xs) = mset xs - {#x#}"
proof (cases "position x xs")
  case None
  then show ?thesis by (simp add: remove_one_def diff_single_trivial position_None)
next
  case (Some i)
  then show ?thesis
    using position_Some [OF Some] by (simp add: remove_one_def mset_swap_remove)
qed

lemma set_remove_one [rust_std]:
  "distinct xs \<Longrightarrow> set (remove_one x xs) = set xs - {x}"
  using mset_remove_one [of x xs]
  by (metis mset_remove1 set_mset_mset set_remove1_eq)

lemma distinct_remove_one [rust_std]: "distinct xs \<Longrightarrow> distinct (remove_one x xs)"
  by (metis distinct_remove1 mset_eq_imp_distinct_iff mset_remove1 mset_remove_one)

lemma set_remove_one_subset [rust_std]: "set (remove_one x xs) \<subseteq> set xs"
  by (metis mset_remove1 mset_remove_one set_mset_mset set_remove1_subset)

lemma length_remove_one_le [rust_std]: "length (remove_one x xs) \<le> length xs"
  by (metis length_remove1 mset_remove1 mset_remove_one size_mset diff_le_self eq_imp_le)

lemma remove_one_notin [rust_std, simp]: "x \<notin> set xs \<Longrightarrow> remove_one x xs = xs"
  by (simp add: remove_one_def)

lemma list_all_zip_iff:
  "list_all P (zip xs ys) \<longleftrightarrow> (\<forall>i < min (length xs) (length ys). P (xs ! i, ys ! i))"
  by (auto simp: list_all_length)

section \<open>Searching and text\<close>

text \<open>
  \<open>slice::binary_search\<close> on a slice sorted without repetitions: \<open>Inr i\<close> for \<open>Ok(i)\<close>, \<open>Inl i\<close> for
  \<open>Err(i)\<close>, where \<open>i\<close> is the index the element would be inserted at.
\<close>

definition binary_search :: "'a::linorder \<Rightarrow> 'a list \<Rightarrow> nat + nat" where
  "binary_search x xs =
     (case position x xs of Some i \<Rightarrow> Inr i | None \<Rightarrow> Inl (length (takeWhile (\<lambda>y. y < x) xs)))"

lemma binary_search_last_le:
  fixes x :: "'a::linorder"
  assumes "sorted_wrt (<) xs" and "xs \<noteq> []" and "hd xs \<le> x"
  shows "(case binary_search x xs of Inr i \<Rightarrow> i | Inl i \<Rightarrow> i - 1) =
    length (filter (\<lambda>y. y \<le> x) xs) - 1"
proof -
  have hit: "position x ys = Some i \<Longrightarrow> sorted_wrt (<) ys \<Longrightarrow>
      length (filter (\<lambda>y. y \<le> x) ys) = Suc i" for ys i
  proof (induction ys arbitrary: i)
    case (Cons y ys)
    show ?case
    proof (cases "y = x")
      case True
      with Cons.prems have "filter (\<lambda>z. z \<le> x) ys = []"
        by (auto simp: filter_empty_conv)
      with True Cons.prems show ?thesis by simp
    next
      case False
      with Cons.prems obtain j where j: "position x ys = Some j" "i = Suc j" by auto
      from position_Some [OF j(1)] Cons.prems(2) have "y < x" by auto
      with Cons.IH [OF j(1)] Cons.prems(2) j(2) show ?thesis by (simp add: less_imp_le)
    qed
  qed simp
  have miss: "x \<notin> set ys \<Longrightarrow> sorted_wrt (<) ys \<Longrightarrow>
      length (filter (\<lambda>y. y \<le> x) ys) = length (takeWhile (\<lambda>y. y < x) ys)" for ys
  proof (induction ys)
    case (Cons y ys)
    then show ?case
      by (cases "y < x") (auto simp: filter_empty_conv)
  qed simp
  show ?thesis
    using assms hit [of xs] miss [of xs]
    by (cases "position x xs") (auto simp: binary_search_def position_None)
qed

text \<open>\<open>str::rsplit_once(c)\<close> followed by the part after the separator, or the whole string.\<close>

definition after_last :: "char \<Rightarrow> string \<Rightarrow> string" where
  "after_last c s = (if c \<in> set s then rev (takeWhile (\<lambda>x. x \<noteq> c) (rev s)) else s)"

lemma after_last_no_sep: "c \<notin> set (after_last c s)"
  by (auto simp: after_last_def dest: set_takeWhileD)

lemma after_last_idem [simp]: "after_last c (after_last c s) = after_last c s"
  using after_last_no_sep [of c s] by (simp add: after_last_def)

lemma after_last_append [simp]:
  assumes "c \<notin> set t"
  shows "after_last c (s @ c # t) = t"
proof -
  have "takeWhile (\<lambda>x. x \<noteq> c) (rev t @ c # rev s) = rev t"
    using assms by (subst takeWhile_append2) auto
  then show ?thesis by (simp add: after_last_def)
qed

text \<open>Decimal formatting of an unsigned integer (\<open>Display\<close> of \<open>u8\<close>, \<open>u32\<close>, \<open>u64\<close>, \<open>usize\<close>).\<close>

definition digit_char :: "nat \<Rightarrow> char" where
  "digit_char d = char_of (48 + d)"

fun show_nat :: "nat \<Rightarrow> string" where
  "show_nat n = (if n < 10 then [digit_char n] else show_nat (n div 10) @ [digit_char (n mod 10)])"

declare show_nat.simps [simp del]

text \<open>Writing a separator between elements, the \<open>if i > 0 { f.write_str(sep) }\<close> loop.\<close>

fun sep_by :: "string \<Rightarrow> string list \<Rightarrow> string" where
  "sep_by sep [] = []"
| "sep_by sep [x] = x"
| "sep_by sep (x # y # ys) = x @ sep @ sep_by sep (y # ys)"

section \<open>Machine integers\<close>

lemma unat_u32_of_nat: "n < 2 ^ 32 \<Longrightarrow> unat (word_of_nat n :: u32) = n"
  by (simp add: unat_of_nat)

lemma u32_of_nat_le: "m < 2 ^ 32 \<Longrightarrow> n < 2 ^ 32 \<Longrightarrow> ((word_of_nat m :: u32) \<le> word_of_nat n) = (m \<le> n)"
  by (simp add: word_le_nat_alt unat_u32_of_nat)

lemma u32_of_nat_less: "m < 2 ^ 32 \<Longrightarrow> n < 2 ^ 32 \<Longrightarrow> ((word_of_nat m :: u32) < word_of_nat n) = (m < n)"
  by (simp add: word_less_nat_alt unat_u32_of_nat)

lemma u32_of_nat_inj_less:
  "m < 2 ^ 32 \<Longrightarrow> n < 2 ^ 32 \<Longrightarrow> (word_of_nat m :: u32) = word_of_nat n \<Longrightarrow> m = n"
  by (metis unat_u32_of_nat)

end
