(* ===== verification/Source_Span.thy ===== *)
theory Source_Span
  imports Prelude
begin

text \<open>
  Source positions (\<open>crates/noeta-span/src/lib.rs\<close>): byte spans tagged with their source, the line
  index of a source and the offset to line:column conversion, the map from source ids to sources,
  and the package provenance tables. Text is its UTF-8 byte sequence, so offsets are byte offsets
  as in the code; \<open>str\<close> slicing panics off a character boundary, which is \<open>None\<close> here.
\<close>

section \<open>Spans\<close>

type_synonym source_id = u32

definition SourceId_FIRST :: source_id where
  "SourceId_FIRST = 0"

datatype span = Span (span_start: u32) (span_end: u32) (span_source: source_id)

text \<open>\<open>Span::new_in\<close>: the debug assertion \<open>start <= end\<close> is the panic \<open>None\<close>.\<close>

definition span_new_in :: "source_id \<Rightarrow> u32 \<Rightarrow> u32 \<Rightarrow> span option" where
  "span_new_in src a b = (if a \<le> b then Some (Span a b src) else None)"

definition span_new :: "u32 \<Rightarrow> u32 \<Rightarrow> span option" where
  "span_new a b = span_new_in SourceId_FIRST a b"

definition span_empty_at_in :: "source_id \<Rightarrow> u32 \<Rightarrow> span" where
  "span_empty_at_in src off = Span off off src"

definition span_empty_at :: "u32 \<Rightarrow> span" where
  "span_empty_at off = span_empty_at_in SourceId_FIRST off"

text \<open>\<open>self.end - self.start\<close> on \<open>u32\<close> (wrapping, as in a release build).\<close>

definition span_len :: "span \<Rightarrow> u32" where
  "span_len s = span_end s - span_start s"

definition span_is_empty :: "span \<Rightarrow> bool" where
  "span_is_empty s = (span_start s = span_end s)"

definition span_merge :: "span \<Rightarrow> span \<Rightarrow> span" where
  "span_merge s t =
     Span (min (span_start s) (span_start t)) (max (span_end s) (span_end t)) (span_source s)"

definition span_shifted :: "span \<Rightarrow> u32 \<Rightarrow> span" where
  "span_shifted s by = Span (span_start s + by) (span_end s + by) (span_source s)"

definition span_with_source :: "span \<Rightarrow> source_id \<Rightarrow> span" where
  "span_with_source s src = Span (span_start s) (span_end s) src"

definition span_wf :: "span \<Rightarrow> bool" where
  "span_wf s = (span_start s \<le> span_end s)"

text \<open>\<open>u <= v\<close>: the bytes of \<open>u\<close> lie within \<open>v\<close>, in one source.\<close>

definition span_covers :: "span \<Rightarrow> span \<Rightarrow> bool" where
  "span_covers v u =
     (span_source u = span_source v \<and> span_start v \<le> span_start u \<and> span_end u \<le> span_end v)"

lemmas span_defs [model_defs] = span_new_in_def span_new_def span_empty_at_in_def span_empty_at_def
  span_len_def span_is_empty_def span_merge_def span_shifted_def span_with_source_def span_wf_def
  span_covers_def

lemma span_merge_wf: "span_wf s \<Longrightarrow> span_wf t \<Longrightarrow> span_wf (span_merge s t)"
  by (auto simp: span_defs min_def max_def)

lemma span_merge_covers_left: "span_covers (span_merge s t) s"
  by (simp add: span_defs)

lemma span_merge_covers_right:
  "span_source s = span_source t \<Longrightarrow> span_covers (span_merge s t) t"
  by (simp add: span_defs)

lemma span_merge_least:
  "span_covers v s \<Longrightarrow> span_covers v t \<Longrightarrow> span_covers v (span_merge s t)"
  by (simp add: span_defs)

lemma unat_span_len: "span_wf s \<Longrightarrow> unat (span_len s) = unat (span_end s) - unat (span_start s)"
  by (simp add: span_defs unat_sub)

lemma span_shifted_len: "span_len (span_shifted s by) = span_len s"
  by (simp add: span_defs)

section \<open>Sources and the line index\<close>

record source =
  src_id :: source_id
  src_name :: string
  src_text :: "u8 list"
  line_starts :: "u32 list"

definition newline :: u8 where
  "newline = 10"

text \<open>The loop of \<open>Source::new\<close> over \<open>text.bytes().enumerate()\<close>, from byte \<open>off\<close> on.\<close>

fun line_starts_from :: "nat \<Rightarrow> u8 list \<Rightarrow> u32 list" where
  "line_starts_from off [] = []"
| "line_starts_from off (b # bs) =
     (if b = newline then (word_of_nat off + 1) # line_starts_from (Suc off) bs
      else line_starts_from (Suc off) bs)"

definition source_new :: "source_id \<Rightarrow> string \<Rightarrow> u8 list \<Rightarrow> source" where
  "source_new i n t =
     \<lparr>src_id = i, src_name = n, src_text = t, line_starts = 0 # line_starts_from 0 t\<rparr>"

text \<open>
  A UTF-8 continuation byte is \<open>0b10xxxxxx\<close>. An offset is a character boundary when it is the end
  of the text or does not point at a continuation byte; \<open>chars().count()\<close> of valid UTF-8 counts
  the bytes that start a character.
\<close>

definition is_continuation :: "u8 \<Rightarrow> bool" where
  "is_continuation b = (128 \<le> b \<and> b < 192)"

definition is_char_boundary :: "u8 list \<Rightarrow> nat \<Rightarrow> bool" where
  "is_char_boundary t i =
     (i = 0 \<or> i = length t \<or> (i < length t \<and> \<not> is_continuation (t ! i)))"

definition chars_count :: "u8 list \<Rightarrow> nat" where
  "chars_count t = length (filter (\<lambda>b. \<not> is_continuation b) t)"

text \<open>\<open>&text[a..b]\<close>: out of range, reversed or off a boundary is a panic.\<close>

definition str_slice :: "u8 list \<Rightarrow> nat \<Rightarrow> nat \<Rightarrow> u8 list option" where
  "str_slice t a b =
     (if a \<le> b \<and> b \<le> length t \<and> is_char_boundary t a \<and> is_char_boundary t b
      then Some (take (b - a) (drop a t)) else None)"

definition source_slice :: "source \<Rightarrow> span \<Rightarrow> u8 list option" where
  "source_slice s sp = str_slice (src_text s) (unat (span_start sp)) (unat (span_end sp))"

text \<open>\<open>file_uri_path\<close> and \<open>Source::file_path\<close>; a path is its text.\<close>

definition strip_prefix :: "string \<Rightarrow> string \<Rightarrow> string option" where
  "strip_prefix p s = (if take (length p) s = p then Some (drop (length p) s) else None)"

definition file_uri_path :: "string \<Rightarrow> string option" where
  "file_uri_path uri = strip_prefix ''file://'' uri"

definition source_file_path :: "source \<Rightarrow> string" where
  "source_file_path s = (case file_uri_path (src_name s) of Some p \<Rightarrow> p | None \<Rightarrow> src_name s)"

record line_col =
  line :: u32
  col :: u32

definition source_line_col :: "source \<Rightarrow> u32 \<Rightarrow> line_col option" where
  "source_line_col s off =
     (let line_idx = (case binary_search off (line_starts s) of Inr i \<Rightarrow> i | Inl i \<Rightarrow> i - 1);
          line_start = line_starts s ! line_idx
      in case str_slice (src_text s) (unat line_start) (unat off) of
           None \<Rightarrow> None
         | Some t \<Rightarrow> Some \<lparr>line = word_of_nat line_idx + 1, col = word_of_nat (chars_count t) + 1\<rparr>)"

section \<open>The source map and package provenance\<close>

type_synonym source_map = "source list"

text \<open>\<open>SourceMap::source\<close>: an unknown id falls back to the entry; an empty map panics.\<close>

definition sm_source :: "source_map \<Rightarrow> source_id \<Rightarrow> source option" where
  "sm_source m i =
     (if unat i < length m then Some (m ! unat i)
      else case m of [] \<Rightarrow> None | e # _ \<Rightarrow> Some e)"

definition sm_line_col :: "source_map \<Rightarrow> span \<Rightarrow> line_col option" where
  "sm_line_col m sp =
     (case sm_source m (span_source sp) of
        None \<Rightarrow> None | Some s \<Rightarrow> source_line_col s (span_start sp))"

datatype package_origin = Root | Dependency string

fun show_package_origin :: "package_origin \<Rightarrow> string" where
  "show_package_origin Root = ''the root package''"
| "show_package_origin (Dependency key) = ''package `'' @ key @ ''`''"

type_synonym package_map = "source_id \<rightharpoonup> package_origin"

definition pm_new :: package_map where
  "pm_new = Map.empty"

definition pm_set :: "package_map \<Rightarrow> source_id \<Rightarrow> package_origin \<Rightarrow> package_map" where
  "pm_set m i org = m(i \<mapsto> org)"

definition pm_source_package :: "package_map \<Rightarrow> source_id \<Rightarrow> package_origin option" where
  "pm_source_package m i = m i"

definition pm_at :: "package_map \<Rightarrow> span \<Rightarrow> package_origin option" where
  "pm_at m sp = pm_source_package m (span_source sp)"

record package_use =
  provider_roots :: "string list"
  exported :: string

type_synonym package_uses = "package_origin \<rightharpoonup> (string \<rightharpoonup> package_use)"

definition pu_new :: package_uses where
  "pu_new = Map.empty"

definition pu_set :: "package_uses \<Rightarrow> package_origin \<Rightarrow> string \<Rightarrow> package_use \<Rightarrow> package_uses" where
  "pu_set m org local u =
     m(org \<mapsto> (case m org of None \<Rightarrow> Map.empty | Some b \<Rightarrow> b)(local \<mapsto> u))"

definition pu_get :: "package_uses \<Rightarrow> package_origin \<Rightarrow> string \<Rightarrow> package_use option" where
  "pu_get m org local = Option.bind (m org) (\<lambda>b. b local)"

lemma pu_get_set:
  "pu_get (pu_set m org local u) org' local' =
     (if org' = org \<and> local' = local then Some u else pu_get m org' local')"
  by (auto simp: pu_get_def pu_set_def split: option.splits)

section \<open>The line index is exact\<close>

lemma line_starts_from_le:
  "off + length bs < 2 ^ 32 \<Longrightarrow> x < 2 ^ 32 \<Longrightarrow>
   length (filter (\<lambda>w. w \<le> word_of_nat x) (line_starts_from off bs)) =
     length (filter (\<lambda>b. b = newline) (take (x - off) bs))"
proof (induction bs arbitrary: off)
  case (Cons b bs)
  have le: "(word_of_nat off + 1 \<le> (word_of_nat x :: u32)) = (Suc off \<le> x)"
    using u32_of_nat_le [of "Suc off" x] Cons.prems by (simp add: add.commute)
  show ?case
  proof (cases "Suc off \<le> x")
    case True
    then have "take (x - off) (b # bs) = b # take (x - Suc off) bs"
      by (simp add: take_Cons' Suc_diff_le)
    with True Cons le show ?thesis by simp
  next
    case False
    have "filter (\<lambda>w. w \<le> word_of_nat x) (line_starts_from (Suc off) bs) = []"
      using Cons.IH [of "Suc off"] Cons.prems False by simp
    with False le show ?thesis by simp
  qed
qed simp

lemma line_starts_from_greater:
  "off + length bs < 2 ^ 32 \<Longrightarrow> w \<in> set (line_starts_from off bs) \<Longrightarrow> word_of_nat off < w"
proof (induction bs arbitrary: off)
  case (Cons b bs)
  have *: "(word_of_nat off :: u32) < word_of_nat (Suc off)"
    using Cons.prems by (subst u32_of_nat_less) auto
  show ?case
    using Cons.IH [of "Suc off"] Cons.prems * by (auto simp: add.commute split: if_splits)
qed simp

lemma sorted_line_starts_from:
  "off + length bs < 2 ^ 32 \<Longrightarrow> sorted_wrt (<) (line_starts_from off bs)"
proof (induction bs arbitrary: off)
  case (Cons b bs)
  then show ?case
    using line_starts_from_greater [of "Suc off" bs] by (auto simp: add.commute)
qed simp

text \<open>The start of the line an offset lies on: just past the last newline before it.\<close>

definition line_tail :: "u8 list \<Rightarrow> u8 list" where
  "line_tail p = rev (takeWhile (\<lambda>b. b \<noteq> newline) (rev p))"

lemma line_tail_Cons:
  "line_tail (b # p) = (if newline \<in> set p then line_tail p else if b = newline then p else b # p)"
proof (cases "newline \<in> set p")
  case True
  then show ?thesis by (auto simp: line_tail_def takeWhile_append1 [where x = newline])
next
  case False
  then have "takeWhile (\<lambda>b. b \<noteq> newline) (rev p @ [b]) =
      rev p @ takeWhile (\<lambda>b. b \<noteq> newline) [b]"
    by (subst takeWhile_append2) auto
  with False show ?thesis by (auto simp: line_tail_def)
qed

lemma line_tail_no_newline: "newline \<notin> set p \<Longrightarrow> line_tail p = p"
proof -
  assume "newline \<notin> set p"
  then have *: "takeWhile (\<lambda>b. b \<noteq> newline) (rev p) = rev p" by (auto simp: takeWhile_eq_all_conv)
  show ?thesis unfolding line_tail_def by (simp only: * rev_rev_ident)
qed

lemma length_line_tail_le: "length (line_tail p) \<le> length p"
  by (simp add: line_tail_def) (metis length_rev length_takeWhile_le)

lemma line_starts_nth:
  assumes "off + length bs < 2 ^ 32" and "off \<le> x" and "x \<le> off + length bs"
  shows "(w # line_starts_from off bs) ! length (filter (\<lambda>b. b = newline) (take (x - off) bs)) =
    (if newline \<in> set (take (x - off) bs)
     then word_of_nat (x - length (line_tail (take (x - off) bs))) else w)"
  using assms
proof (induction bs arbitrary: off w)
  case (Cons b bs)
  show ?case
  proof (cases "x = off")
    case False
    with Cons.prems have x: "Suc off \<le> x" "take (x - off) (b # bs) = b # take (x - Suc off) bs"
      by (auto simp: take_Cons' Suc_diff_le)
    let ?p = "take (x - Suc off) bs"
    have len: "length ?p = x - Suc off" using Cons.prems by auto
    have none: "newline \<notin> set ?p \<Longrightarrow> filter (\<lambda>b. b = newline) ?p = []"
      by (auto simp: filter_empty_conv)
    note IH = Cons.IH [of "Suc off"]
    show ?thesis
      using IH [of "word_of_nat off + 1"] IH [of w] Cons.prems x len none
      by (cases "newline \<in> set ?p") (auto simp: line_tail_Cons add.commute)
  qed simp
qed simp


lemma line_tail_split: "\<exists>q. p = q @ line_tail p \<and> (q = [] \<or> last q = newline)"
proof -
  let ?q = "rev (dropWhile (\<lambda>b. b \<noteq> newline) (rev p))"
  have "p = ?q @ line_tail p"
    by (metis line_tail_def rev_append rev_rev_ident takeWhile_dropWhile_id)
  moreover have "?q = [] \<or> last ?q = newline"
    by (metis (mono_tags, lifting) hd_dropWhile last_rev rev_is_Nil_conv)
  ultimately show ?thesis by blast
qed

text \<open>
  What UTF-8 validity gives at a line break: the byte after a newline starts a character, and so
  does the first byte. Every \<open>String\<close> of the code satisfies it.
\<close>

definition utf8_line_breaks :: "u8 list \<Rightarrow> bool" where
  "utf8_line_breaks t =
     (\<forall>i < length t. is_continuation (t ! i) \<longrightarrow> 0 < i \<and> t ! (i - 1) \<noteq> newline)"

lemma line_tail_slice:
  assumes "utf8_line_breaks t" and "off \<le> length t" and "is_char_boundary t off"
  shows "str_slice t (off - length (line_tail (take off t))) off = Some (line_tail (take off t))"
proof -
  let ?p = "take off t" and ?l = "line_tail (take off t)"
  obtain q where q: "?p = q @ ?l" "q = [] \<or> last q = newline"
    using line_tail_split by blast
  have len: "length q = off - length ?l" "length ?l \<le> off"
    using q(1) assms(2) by (metis add_diff_cancel_right' length_append length_take min.absorb2,
        metis length_line_tail_le length_take min.absorb2 assms(2))
  have "is_char_boundary t (length q)"
  proof (cases "q = []")
    case False
    then have last: "t ! (length q - 1) = newline"
      using q len assms(2)
      by (metis (no_types, lifting) Nitpick.size_list_simp(2) One_nat_def diff_Suc_1 diff_le_self
          last_conv_nth length_tl lessI nth_append nth_take order_less_le_trans)
    have "length q \<le> length t" using len assms(2) by linarith
    with assms(1) last show ?thesis
      by (auto simp: is_char_boundary_def utf8_line_breaks_def )
  qed (simp add: is_char_boundary_def)
  moreover have "take (off - length q) (drop (length q) t) = ?l"
    by (metis append_eq_conv_conj q(1) take_drop drop_take append_take_drop_id)
  ultimately show ?thesis
    using assms len by (simp add: str_slice_def)
qed

lemma source_line_col_spec:
  assumes "length t < 2 ^ 32" and "off \<le> length t"
    and "is_char_boundary t off" and "utf8_line_breaks t"
  shows "source_line_col (source_new i n t) (word_of_nat off) =
    Some \<lparr>line = word_of_nat (length (filter (\<lambda>b. b = newline) (take off t))) + 1,
          col = word_of_nat (chars_count (line_tail (take off t))) + 1\<rparr>"
proof -
  let ?ls = "0 # line_starts_from 0 t" and ?x = "word_of_nat off :: u32"
  let ?k = "length (filter (\<lambda>b. b = newline) (take off t))"
  have sorted: "sorted_wrt (<) ?ls"
    using sorted_line_starts_from [of 0 t] line_starts_from_greater [of 0 t] assms(1) by auto
  have idx: "(case binary_search ?x ?ls of Inr i \<Rightarrow> i | Inl i \<Rightarrow> i - 1) = ?k"
    using binary_search_last_le [OF sorted, of ?x] line_starts_from_le [of 0 t off] assms(1,2)
    by simp
  have "?ls ! ?k = word_of_nat (off - length (line_tail (take off t)))"
  proof (cases "newline \<in> set (take off t)")
    case True
    then show ?thesis using line_starts_nth [of 0 t off 0] assms(1,2) by simp
  next
    case False
    then have "line_tail (take off t) = take off t" by (rule line_tail_no_newline)
    with False show ?thesis using line_starts_nth [of 0 t off 0] assms(1,2) by simp
  qed
  then have "unat (?ls ! ?k) = off - length (line_tail (take off t))"
    using assms(1,2) by (simp add: unat_u32_of_nat)
  moreover have "unat ?x = off" using assms(1,2) by (simp add: unat_u32_of_nat)
  ultimately show ?thesis
    using line_tail_slice [OF assms(4,2,3)] idx
    by (simp add: source_line_col_def source_new_def Let_def)
qed


lemma line_tail_append:
  "newline \<notin> set r \<Longrightarrow> line_tail (p @ r) = line_tail p @ r"
proof -
  assume "newline \<notin> set r"
  then have "takeWhile (\<lambda>b. b \<noteq> newline) (rev r @ rev p) =
      rev r @ takeWhile (\<lambda>b. b \<noteq> newline) (rev p)"
    by (subst takeWhile_append2) auto
  then show ?thesis by (simp add: line_tail_def)
qed

lemma source_line_col_mono_inj:
  assumes "length t < 2 ^ 32" and "utf8_line_breaks t" and "a < b" and "b \<le> length t"
    and "is_char_boundary t a" and "is_char_boundary t b"
  shows "source_line_col (source_new i n t) (word_of_nat a) \<noteq>
    source_line_col (source_new i n t) (word_of_nat b)"
proof
  assume eq: "source_line_col (source_new i n t) (word_of_nat a) =
    source_line_col (source_new i n t) (word_of_nat b)"
  let ?nl = "\<lambda>b. b = newline" and ?mid = "take (b - a) (drop a t)"
  have split: "take b t = take a t @ ?mid" 
    using take_add [of a "b - a" t] assms(3) by simp
  have bound: "length (filter P (take k t)) < 2 ^ 32" for P k
    by (rule order.strict_trans1 [OF length_filter_le]) (use assms(1) in simp)
  have "length (filter ?nl (take a t)) = length (filter ?nl (take b t))"
    using eq source_line_col_spec [OF assms(1) _ assms(5,2), of i n]
      source_line_col_spec [OF assms(1,4,6,2), of i n] assms(3,4) bound
    by (auto intro: u32_of_nat_inj_less)
  then have no_nl: "newline \<notin> set ?mid" by (auto simp: split filter_empty_conv)
  have tails: "line_tail (take b t) = line_tail (take a t) @ ?mid"
    unfolding split using no_nl by (rule line_tail_append)
  have tail_bound: "chars_count (line_tail (take k t)) < 2 ^ 32" for k
    unfolding chars_count_def
    by (rule order.strict_trans1 [OF length_filter_le])
      (use assms(1) length_line_tail_le [of "take k t"] in simp)
  have "chars_count (line_tail (take a t)) = chars_count (line_tail (take b t))"
    using eq source_line_col_spec [OF assms(1) _ assms(5,2), of i n]
      source_line_col_spec [OF assms(1,4,6,2), of i n] assms(3,4) tail_bound
    by (auto intro: u32_of_nat_inj_less)
  then have "filter (\<lambda>b. \<not> is_continuation b) ?mid = []"
    by (simp add: tails chars_count_def)
  moreover have "t ! a \<in> set ?mid" using assms(3,4)
    by (metis (no_types, lifting) Cons_nth_drop_Suc list.set_intros(1) not_less order.strict_trans2
        take_Suc_Cons zero_less_diff gr0_conv_Suc)
  moreover have "\<not> is_continuation (t ! a)"
    using assms(2,3,4,5) order.strict_trans2 [OF _ assms(4), of 0]
    by (auto simp: is_char_boundary_def utf8_line_breaks_def)
  ultimately show False by (auto simp: filter_empty_conv)
qed

text \<open>
  C23: for a text of fewer than \<open>2^32\<close> bytes and an offset on a character boundary, \<open>line_col\<close>
  returns the 1-based line (one more than the newlines before the offset) and the 1-based column
  counted in characters from the last newline.
\<close>

theorem line_col_exact:
  assumes "length t < 2 ^ 32" and "off \<le> length t"
    and "is_char_boundary t off" and "utf8_line_breaks t"
  shows "source_line_col (source_new i n t) (word_of_nat off) =
    Some \<lparr>line = word_of_nat (length (filter (\<lambda>b. b = newline) (take off t))) + 1,
          col = word_of_nat (chars_count (line_tail (take off t))) + 1\<rparr>"
  by (rule source_line_col_spec [OF assms])

definition sample_text :: "u8 list" where
  "sample_text = [97, 10, 195, 169, 98]"

lemma sample_text_ok:
  "utf8_line_breaks sample_text" "is_char_boundary sample_text 2" "is_char_boundary sample_text 4"
  "length sample_text < 2 ^ 32"
proof -
  show "utf8_line_breaks sample_text" by code_simp
  show "is_char_boundary sample_text 2" by code_simp
  show "is_char_boundary sample_text 4" by code_simp
  show "length sample_text < 2 ^ 32" by (simp add: sample_text_def)
qed

theorem line_col_exact_witness:
  "source_line_col (source_new 0 ''a.noe'' sample_text) (word_of_nat 4) = Some \<lparr>line = 2, col = 2\<rparr>"
proof -
  have "4 \<le> length sample_text" by (simp add: sample_text_def)
  from line_col_exact [OF sample_text_ok(4) this sample_text_ok(3,1), of 0 "''a.noe''"] show ?thesis
    by (simp add: sample_text_def newline_def line_tail_def chars_count_def is_continuation_def)
qed

text \<open>
  Within one source, two character-boundary offsets with the same line and column are the same
  offset, so a \<open>line:col\<close> in a diagnostic names one place.
\<close>

theorem line_col_injective:
  assumes "length t < 2 ^ 32" and "utf8_line_breaks t"
    and "a \<le> length t" and "b \<le> length t" and "is_char_boundary t a" and "is_char_boundary t b"
    and "source_line_col (source_new i n t) (word_of_nat a) =
         source_line_col (source_new i n t) (word_of_nat b)"
  shows "a = b"
  using source_line_col_mono_inj [OF assms(1,2)] assms(3-7) by (metis linorder_neqE_nat)

theorem line_col_injective_witness:
  "source_line_col (source_new 0 ''a.noe'' sample_text) (word_of_nat 2) \<noteq>
   source_line_col (source_new 0 ''a.noe'' sample_text) (word_of_nat 4)"
proof
  assume eq: "source_line_col (source_new 0 ''a.noe'' sample_text) (word_of_nat 2) =
   source_line_col (source_new 0 ''a.noe'' sample_text) (word_of_nat 4)"
  from line_col_injective [OF sample_text_ok(4,1) _ _ sample_text_ok(2,3) eq] show False
    by (simp add: sample_text_def)
qed

end
