(* ===== verification/Builtin_Ty.thy ===== *)
theory Builtin_Ty
  imports Source_Span
begin

text \<open>
  The surface side of types (\<open>crates/noeta-ast\<close>): the closed enumeration of built-in type
  constructors with its single name decoder (\<open>builtin_ty.rs\<close>), and the type references the parser
  produces (\<open>TypeRef\<close> of \<open>lib.rs\<close>).
\<close>

section \<open>Built-in type constructors\<close>

datatype builtin_ty =
    BInt | BFloat | BF32 | BF64 | BIntN bool nat | BBool | BStr | BBytes | BUnit | BDyn | BNever
  | BList | BSet | BMap | BOption | BResult | BKindEnum | BKindStruct | BKindClass | BNumber

datatype spelling = Canonical | Bare

text \<open>\<open>parse_int_width\<close>: the prefix \<open>i\<close> or \<open>u\<close>, then exactly one of the four legal widths.\<close>

definition int_width_digits :: "string \<Rightarrow> nat option" where
  "int_width_digits rest =
     (if rest = ''8'' then Some 8 else if rest = ''16'' then Some 16
      else if rest = ''32'' then Some 32 else if rest = ''64'' then Some 64 else None)"

definition parse_int_width :: "string \<Rightarrow> (bool \<times> nat) option" where
  "parse_int_width name =
     (case strip_prefix ''i'' name of
        Some r \<Rightarrow> map_option (Pair True) (int_width_digits r)
      | None \<Rightarrow> (case strip_prefix ''u'' name of
            Some r \<Rightarrow> map_option (Pair False) (int_width_digits r)
          | None \<Rightarrow> None))"

definition builtin_from_name :: "string \<Rightarrow> (builtin_ty \<times> spelling) option" where
  "builtin_from_name name =
     (if name = ''int'' then Some (BInt, Canonical)
      else if name = ''float'' then Some (BFloat, Canonical)
      else if name = ''f32'' then Some (BF32, Canonical)
      else if name = ''f64'' then Some (BF64, Canonical)
      else if name = ''bool'' then Some (BBool, Canonical)
      else if name = ''string'' then Some (BStr, Canonical)
      else if name = ''bytes'' then Some (BBytes, Canonical)
      else if name = ''number'' then Some (BNumber, Canonical)
      else if name = ''void'' \<or> name = ''unit'' then Some (BUnit, Canonical)
      else if name = ''dyn'' \<or> name = ''Any'' then Some (BDyn, Canonical)
      else if name = ''never'' then Some (BNever, Canonical)
      else if name = ''List'' then Some (BList, Canonical)
      else if name = ''Set'' then Some (BSet, Canonical)
      else if name = ''Map'' then Some (BMap, Canonical)
      else if name = ''list'' then Some (BList, Bare)
      else if name = ''set'' then Some (BSet, Bare)
      else if name = ''map'' then Some (BMap, Bare)
      else if name = ''Option'' then Some (BOption, Canonical)
      else if name = ''Result'' then Some (BResult, Canonical)
      else if name = ''Enum'' then Some (BKindEnum, Canonical)
      else if name = ''Struct'' then Some (BKindStruct, Canonical)
      else if name = ''Class'' then Some (BKindClass, Canonical)
      else case parse_int_width name of
             Some (sgd, bits) \<Rightarrow> Some (BIntN sgd bits, Canonical)
           | None \<Rightarrow> None)"

definition builtin_from_name_any :: "string \<Rightarrow> builtin_ty option" where
  "builtin_from_name_any name = map_option fst (builtin_from_name name)"

definition is_builtin_name :: "string \<Rightarrow> bool" where
  "is_builtin_name name = (builtin_from_name name \<noteq> None)"

fun builtin_arity :: "builtin_ty \<Rightarrow> nat" where
  "builtin_arity BList = 1"
| "builtin_arity BSet = 1"
| "builtin_arity BOption = 1"
| "builtin_arity BMap = 2"
| "builtin_arity BResult = 2"
| "builtin_arity _ = 0"

fun builtin_spellings :: "builtin_ty \<Rightarrow> string list" where
  "builtin_spellings BInt = [''int'']"
| "builtin_spellings BFloat = [''float'']"
| "builtin_spellings BF32 = [''f32'']"
| "builtin_spellings BF64 = [''f64'']"
| "builtin_spellings (BIntN _ _) = []"
| "builtin_spellings BBool = [''bool'']"
| "builtin_spellings BStr = [''string'']"
| "builtin_spellings BBytes = [''bytes'']"
| "builtin_spellings BNumber = [''number'']"
| "builtin_spellings BUnit = [''void'', ''unit'']"
| "builtin_spellings BDyn = [''dyn'', ''Any'']"
| "builtin_spellings BNever = [''never'']"
| "builtin_spellings BList = [''List'', ''list'']"
| "builtin_spellings BSet = [''Set'', ''set'']"
| "builtin_spellings BMap = [''Map'', ''map'']"
| "builtin_spellings BOption = [''Option'']"
| "builtin_spellings BResult = [''Result'']"
| "builtin_spellings BKindEnum = [''Enum'']"
| "builtin_spellings BKindStruct = [''Struct'']"
| "builtin_spellings BKindClass = [''Class'']"

definition int_width_name :: "bool \<Rightarrow> nat \<Rightarrow> string" where
  "int_width_name sgd bits = (if sgd then ''i'' else ''u'') @ show_nat bits"

definition builtin_all :: "builtin_ty list" where
  "builtin_all =
     [BInt, BFloat, BF32, BF64, BBool, BStr, BBytes, BUnit, BDyn, BNever, BList, BSet, BMap,
      BOption, BResult, BKindEnum, BKindStruct, BKindClass, BNumber] @
     concat (map (\<lambda>sgd. map (BIntN sgd) [8, 16, 32, 64]) [True, False])"

definition legal_width :: "nat \<Rightarrow> bool" where
  "legal_width bits = (bits \<in> {8, 16, 32, 64})"

text \<open>Every spelling a constructor answers to, the fixed-width family included.\<close>

definition builtin_names :: "builtin_ty \<Rightarrow> string list" where
  "builtin_names b = (case b of BIntN sgd bits \<Rightarrow> [int_width_name sgd bits]
     | _ \<Rightarrow> builtin_spellings b)"

fun builtin_legal :: "builtin_ty \<Rightarrow> bool" where
  "builtin_legal (BIntN _ bits) = legal_width bits"
| "builtin_legal _ = True"

lemma strip_prefix_Some: "strip_prefix p s = Some r \<longleftrightarrow> s = p @ r"
  by (simp add: strip_prefix_def) (metis append_eq_conv_conj append_take_drop_id)

lemma strip_prefix_append [simp]: "strip_prefix p (p @ r) = Some r"
  by (simp add: strip_prefix_Some)

lemma show_nat_width:
  "show_nat 8 = ''8''" "show_nat 16 = ''16''" "show_nat 32 = ''32''" "show_nat 64 = ''64''"
  by code_simp+

lemma parse_int_width_name:
  assumes "legal_width bits"
  shows "parse_int_width (int_width_name sgd bits) = Some (sgd, bits)"
  using assms
  by (auto simp: legal_width_def int_width_name_def show_nat_width parse_int_width_def
      strip_prefix_def int_width_digits_def)

lemma parse_int_width_Some:
  assumes "parse_int_width name = Some (sgd, bits)"
  shows "legal_width bits \<and> name = int_width_name sgd bits"
  using assms
  by (auto simp: parse_int_width_def int_width_digits_def legal_width_def int_width_name_def
      show_nat_width strip_prefix_Some split: option.splits if_splits)

lemma builtin_from_name_sound:
  assumes "builtin_from_name name = Some (b, sp)"
  shows "builtin_legal b \<and> name \<in> set (builtin_names b)"
  using assms parse_int_width_Some [of name]
  by (auto simp: builtin_from_name_def builtin_names_def split: if_splits option.splits)

lemma builtin_all_complete: "b \<in> set builtin_all \<longleftrightarrow> builtin_legal b"
  by (cases b) (auto simp: builtin_all_def legal_width_def)

lemma builtin_all_decode:
  "list_all (\<lambda>b. list_all (\<lambda>n. builtin_from_name_any n = Some b) (builtin_names b)) builtin_all"
  by code_simp

lemma builtin_from_name_complete:
  assumes "builtin_legal b" and "name \<in> set (builtin_names b)"
  shows "builtin_from_name_any name = Some b"
  using builtin_all_decode assms by (auto simp: list_all_iff builtin_all_complete)

text \<open>
  The decoder of built-in type names is exact: a name decodes to a constructor precisely when it
  is one of that constructor's spellings, the eight fixed widths included, so no name is shared and
  none is lost.
\<close>

theorem builtin_name_roundtrip:
  "builtin_from_name_any name = Some b \<longleftrightarrow> builtin_legal b \<and> name \<in> set (builtin_names b)"
  using builtin_from_name_sound builtin_from_name_complete
  by (auto simp: builtin_from_name_any_def)

section \<open>Surface type references\<close>

datatype type_ref =
    RNamed (rname: string) "type_ref list" span
  | RDynTrait string span
  | ROptional type_ref span
  | RUnion "type_ref list" span
  | RTuple "type_ref list" span
  | RFn "type_ref list" type_ref span
  | RAssocProjection string span

fun type_ref_span :: "type_ref \<Rightarrow> span" where
  "type_ref_span (RNamed _ _ sp) = sp"
| "type_ref_span (RDynTrait _ sp) = sp"
| "type_ref_span (ROptional _ sp) = sp"
| "type_ref_span (RUnion _ sp) = sp"
| "type_ref_span (RTuple _ sp) = sp"
| "type_ref_span (RFn _ _ sp) = sp"
| "type_ref_span (RAssocProjection _ sp) = sp"

fun type_ref_head_name :: "type_ref \<Rightarrow> string" where
  "type_ref_head_name (RNamed n _ _) = n"
| "type_ref_head_name (RDynTrait n _) = n"
| "type_ref_head_name _ = []"

definition short_type_name :: "string \<Rightarrow> string" where
  "short_type_name n = after_last (CHR ''.'') n"

lemma short_type_name_idem: "short_type_name (short_type_name n) = short_type_name n"
  by (simp add: short_type_name_def)

end
