(* ===== verification/Type_Lattice.thy ===== *)
theory Type_Lattice
  imports Builtin_Ty
begin

text \<open>
  The type lattice of the checker (\<open>crates/noeta-types/src/lib.rs\<close>): the \<open>Type\<close> datatype, the
  identity of type parameters, the numeric and comparator classifications, the one subtyping walk
  \<open>subtype_at\<close> with its registry-dependent rules, the normalising union constructor, the desugaring
  of surface type references and the rendering of types in messages.
\<close>

section \<open>Type parameters\<close>

text \<open>The identity of a parameter is the span of its own declaration.\<close>

datatype param_id = ParamId (param_span: span)

definition SYNTHETIC_SOURCE :: source_id where
  "SYNTHETIC_SOURCE = - 1"

definition param_at :: "span \<Rightarrow> param_id" where
  "param_at sp = ParamId sp"

text \<open>\<open>Span::new_in(SYNTHETIC_SOURCE, index, index)\<close>, whose assertion always holds.\<close>

definition param_synthetic :: "u32 \<Rightarrow> param_id" where
  "param_synthetic i = ParamId (Span i i SYNTHETIC_SOURCE)"

definition decl_span :: "param_id \<Rightarrow> span option" where
  "decl_span p = (if span_source (param_span p) \<noteq> SYNTHETIC_SOURCE then Some (param_span p) else None)"

text \<open>\<open>impl Ord for ParamId\<close>: the order of the tuples \<open>(source, start, end)\<close>.\<close>

definition param_id_le :: "param_id \<Rightarrow> param_id \<Rightarrow> bool" where
  "param_id_le p q =
     (let a = param_span p; b = param_span q in
      span_source a < span_source b \<or>
      (span_source a = span_source b \<and>
        (span_start a < span_start b \<or>
         (span_start a = span_start b \<and> span_end a \<le> span_end b))))"

instantiation param_id :: linorder
begin

definition less_eq_param_id :: "param_id \<Rightarrow> param_id \<Rightarrow> bool" where
  "less_eq_param_id p q = param_id_le p q"

definition less_param_id :: "param_id \<Rightarrow> param_id \<Rightarrow> bool" where
  "less_param_id p q = (p \<le> q \<and> \<not> q \<le> p)"

instance
proof
  fix x y z :: param_id
  show "x < y \<longleftrightarrow> x \<le> y \<and> \<not> y \<le> x" by (rule less_param_id_def)
  show "x \<le> x" by (simp add: less_eq_param_id_def param_id_le_def)
  show "x \<le> y \<Longrightarrow> y \<le> z \<Longrightarrow> x \<le> z" by (auto simp: less_eq_param_id_def param_id_le_def Let_def)
  show "x \<le> y \<Longrightarrow> y \<le> x \<Longrightarrow> x = y"
    by (cases x; cases y) (auto simp: less_eq_param_id_def param_id_le_def Let_def intro: span.expand)
  show "x \<le> y \<or> y \<le> x" by (auto simp: less_eq_param_id_def param_id_le_def Let_def)
qed

end

text \<open>A reference to a parameter; the code's equality looks at the identity only.\<close>

record param_ref =
  pr_id :: param_id
  pr_name :: string

definition param_ref_eq :: "param_ref \<Rightarrow> param_ref \<Rightarrow> bool" where
  "param_ref_eq p q = (pr_id p = pr_id q)"

section \<open>The type datatype\<close>

datatype type_kind = KEnum | KStruct | KClass

fun type_kind_name :: "type_kind \<Rightarrow> string" where
  "type_kind_name KEnum = ''Enum''"
| "type_kind_name KStruct = ''Struct''"
| "type_kind_name KClass = ''Class''"

datatype ty =
    TUnknown | TDyn | TNever | TUnit | TInt | TFloat | TF32 | TF64 | TIntN bool nat
  | TBool | TString | TBytes
  | TList ty | TMap ty ty | TSet ty | TOption ty | TResult ty ty
  | TNamed string "ty list" | TParam param_ref | TFn "ty list" ty
  | TKind type_kind | is_union: TUnion (members: "ty list") | TTuple "ty list"
  | is_dyn_trait: TDynTrait string

text \<open>The derived \<open>PartialEq\<close> of \<open>Type\<close>, structural but for \<open>ParamRef\<close>'s own equality.\<close>

primrec ty_eq :: "ty \<Rightarrow> ty \<Rightarrow> bool" where
  "ty_eq TUnknown y = (y = TUnknown)"
| "ty_eq TDyn y = (y = TDyn)"
| "ty_eq TNever y = (y = TNever)"
| "ty_eq TUnit y = (y = TUnit)"
| "ty_eq TInt y = (y = TInt)"
| "ty_eq TFloat y = (y = TFloat)"
| "ty_eq TF32 y = (y = TF32)"
| "ty_eq TF64 y = (y = TF64)"
| "ty_eq (TIntN s b) y = (case y of TIntN s' b' \<Rightarrow> s = s' \<and> b = b' | _ \<Rightarrow> False)"
| "ty_eq TBool y = (y = TBool)"
| "ty_eq TString y = (y = TString)"
| "ty_eq TBytes y = (y = TBytes)"
| "ty_eq (TList a) y = (case y of TList a' \<Rightarrow> ty_eq a a' | _ \<Rightarrow> False)"
| "ty_eq (TMap a b) y = (case y of TMap a' b' \<Rightarrow> ty_eq a a' \<and> ty_eq b b' | _ \<Rightarrow> False)"
| "ty_eq (TSet a) y = (case y of TSet a' \<Rightarrow> ty_eq a a' | _ \<Rightarrow> False)"
| "ty_eq (TOption a) y = (case y of TOption a' \<Rightarrow> ty_eq a a' | _ \<Rightarrow> False)"
| "ty_eq (TResult a b) y = (case y of TResult a' b' \<Rightarrow> ty_eq a a' \<and> ty_eq b b' | _ \<Rightarrow> False)"
| "ty_eq (TNamed n as) y =
     (case y of TNamed n' bs \<Rightarrow> n = n' \<and> list_all2 (\<lambda>f b. f b) (map ty_eq as) bs | _ \<Rightarrow> False)"
| "ty_eq (TParam p) y = (case y of TParam q \<Rightarrow> param_ref_eq p q | _ \<Rightarrow> False)"
| "ty_eq (TFn as r) y =
     (case y of TFn bs r' \<Rightarrow> list_all2 (\<lambda>f b. f b) (map ty_eq as) bs \<and> ty_eq r r' | _ \<Rightarrow> False)"
| "ty_eq (TKind k) y = (case y of TKind k' \<Rightarrow> k = k' | _ \<Rightarrow> False)"
| "ty_eq (TUnion as) y =
     (case y of TUnion bs \<Rightarrow> list_all2 (\<lambda>f b. f b) (map ty_eq as) bs | _ \<Rightarrow> False)"
| "ty_eq (TTuple as) y =
     (case y of TTuple bs \<Rightarrow> list_all2 (\<lambda>f b. f b) (map ty_eq as) bs | _ \<Rightarrow> False)"
| "ty_eq (TDynTrait t) y = (case y of TDynTrait t' \<Rightarrow> t = t' | _ \<Rightarrow> False)"

text \<open>\<open>Vec<Type>::contains\<close>.\<close>

definition ty_contains :: "ty list \<Rightarrow> ty \<Rightarrow> bool" where
  "ty_contains ts t = list_ex (\<lambda>u. ty_eq u t) ts"

text \<open>Erasing the spelling of parameters turns the code's equality into logical equality.\<close>

primrec erase_spelling :: "ty \<Rightarrow> ty" where
  "erase_spelling TUnknown = TUnknown"
| "erase_spelling TDyn = TDyn"
| "erase_spelling TNever = TNever"
| "erase_spelling TUnit = TUnit"
| "erase_spelling TInt = TInt"
| "erase_spelling TFloat = TFloat"
| "erase_spelling TF32 = TF32"
| "erase_spelling TF64 = TF64"
| "erase_spelling (TIntN s b) = TIntN s b"
| "erase_spelling TBool = TBool"
| "erase_spelling TString = TString"
| "erase_spelling TBytes = TBytes"
| "erase_spelling (TList a) = TList (erase_spelling a)"
| "erase_spelling (TMap a b) = TMap (erase_spelling a) (erase_spelling b)"
| "erase_spelling (TSet a) = TSet (erase_spelling a)"
| "erase_spelling (TOption a) = TOption (erase_spelling a)"
| "erase_spelling (TResult a b) = TResult (erase_spelling a) (erase_spelling b)"
| "erase_spelling (TNamed n as) = TNamed n (map erase_spelling as)"
| "erase_spelling (TParam p) = TParam (p\<lparr>pr_name := []\<rparr>)"
| "erase_spelling (TFn as r) = TFn (map erase_spelling as) (erase_spelling r)"
| "erase_spelling (TKind k) = TKind k"
| "erase_spelling (TUnion as) = TUnion (map erase_spelling as)"
| "erase_spelling (TTuple as) = TTuple (map erase_spelling as)"
| "erase_spelling (TDynTrait t) = TDynTrait t"

lemma list_all2_ty_eq:
  "(\<And>a b. a \<in> set as \<Longrightarrow> ty_eq a b = (erase_spelling a = erase_spelling b)) \<Longrightarrow>
   list_all2 (\<lambda>f b. f b) (map ty_eq as) bs = (map erase_spelling as = map erase_spelling bs)"
proof (induction as arbitrary: bs)
  case (Cons a as)
  then show ?case by (cases bs) auto
qed auto

lemma param_ref_eq_erase: "param_ref_eq p q = (p\<lparr>pr_name := []\<rparr> = q\<lparr>pr_name := []\<rparr>)"
  by (cases p; cases q) (simp add: param_ref_eq_def)

lemma ty_eq_erase: "ty_eq a b = (erase_spelling a = erase_spelling b)"
proof (induction a arbitrary: b)
  case (TParam p)
  then show ?case by (cases b) (auto simp: param_ref_eq_erase)
qed (case_tac b; force simp: list_all2_ty_eq)+

lemma ty_eq_refl [simp]: "ty_eq a a"
  by (simp add: ty_eq_erase)

section \<open>Classifications\<close>

definition is_numeric :: "ty \<Rightarrow> bool" where
  "is_numeric t = (t = TInt \<or> t = TFloat)"

definition is_arith_numeric :: "ty \<Rightarrow> bool" where
  "is_arith_numeric t =
     (case t of TInt \<Rightarrow> True | TFloat \<Rightarrow> True | TF32 \<Rightarrow> True | TF64 \<Rightarrow> True | TIntN _ _ \<Rightarrow> True | _ \<Rightarrow> False)"

definition numeric_rank :: "ty \<Rightarrow> nat option" where
  "numeric_rank t = (case t of TInt \<Rightarrow> Some 0 | TFloat \<Rightarrow> Some 1 | _ \<Rightarrow> None)"

definition is_gradual :: "ty \<Rightarrow> bool" where
  "is_gradual t = (t = TUnknown)"

definition defers_to_runtime :: "ty \<Rightarrow> bool" where
  "defers_to_runtime t = (t = TUnknown \<or> t = TDyn)"

definition is_abstract :: "ty \<Rightarrow> bool" where
  "is_abstract t = (case t of TDyn \<Rightarrow> True | TDynTrait _ \<Rightarrow> True | TKind _ \<Rightarrow> True | _ \<Rightarrow> False)"

fun contains_unknown :: "ty \<Rightarrow> bool" where
  "contains_unknown TUnknown = True"
| "contains_unknown (TList t) = contains_unknown t"
| "contains_unknown (TSet t) = contains_unknown t"
| "contains_unknown (TOption t) = contains_unknown t"
| "contains_unknown (TMap k v) = (contains_unknown k \<or> contains_unknown v)"
| "contains_unknown (TResult k v) = (contains_unknown k \<or> contains_unknown v)"
| "contains_unknown (TNamed _ args) = list_ex contains_unknown args"
| "contains_unknown (TUnion args) = list_ex contains_unknown args"
| "contains_unknown (TTuple args) = list_ex contains_unknown args"
| "contains_unknown (TFn params ret) = (list_ex contains_unknown params \<or> contains_unknown ret)"
| "contains_unknown _ = False"

fun contains_abstract_arg :: "ty \<Rightarrow> bool" where
  "contains_abstract_arg (TList t) = (is_abstract t \<or> contains_abstract_arg t)"
| "contains_abstract_arg (TSet t) = (is_abstract t \<or> contains_abstract_arg t)"
| "contains_abstract_arg (TOption t) = (is_abstract t \<or> contains_abstract_arg t)"
| "contains_abstract_arg (TMap k v) =
     ((is_abstract k \<or> contains_abstract_arg k) \<or> (is_abstract v \<or> contains_abstract_arg v))"
| "contains_abstract_arg (TResult k v) =
     ((is_abstract k \<or> contains_abstract_arg k) \<or> (is_abstract v \<or> contains_abstract_arg v))"
| "contains_abstract_arg (TNamed _ args) =
     list_ex (\<lambda>t. is_abstract t \<or> contains_abstract_arg t) args"
| "contains_abstract_arg (TUnion args) =
     list_ex (\<lambda>t. is_abstract t \<or> contains_abstract_arg t) args"
| "contains_abstract_arg (TTuple args) =
     list_ex (\<lambda>t. is_abstract t \<or> contains_abstract_arg t) args"
| "contains_abstract_arg (TFn params ret) =
     (list_ex (\<lambda>t. is_abstract t \<or> contains_abstract_arg t) params \<or>
      (is_abstract ret \<or> contains_abstract_arg ret))"
| "contains_abstract_arg _ = False"

section \<open>Which pairs the runtime comparator answers\<close>

datatype comparator_arm = ArmNumeric | ArmSameType | ArmStructural

definition comparator_arm_of :: "ty \<Rightarrow> comparator_arm option" where
  "comparator_arm_of t =
     (if is_arith_numeric t then Some ArmNumeric
      else case t of
             TOption _ \<Rightarrow> Some ArmStructural
           | TResult _ _ \<Rightarrow> Some ArmStructural
           | TString \<Rightarrow> Some ArmSameType
           | TBool \<Rightarrow> Some ArmSameType
           | TNamed _ _ \<Rightarrow> Some ArmSameType
           | _ \<Rightarrow> None)"

text \<open>The last arm of \<open>comparator_answers\<close>, reached when the pair is not two equal containers.\<close>

definition comparator_arms_answer :: "ty \<Rightarrow> ty \<Rightarrow> bool" where
  "comparator_arms_answer a b =
     (case comparator_arm_of a of
        Some ArmNumeric \<Rightarrow> comparator_arm_of b = Some ArmNumeric
      | Some ArmSameType \<Rightarrow> comparator_arm_of b = Some ArmSameType \<and> ty_eq a b
      | Some ArmStructural \<Rightarrow> comparator_arm_of b = Some ArmStructural \<and> ty_eq a b
      | None \<Rightarrow> False)"

function comparator_answers :: "ty \<Rightarrow> ty \<Rightarrow> bool" where
  "comparator_answers a b =
     (case a of
        TOption x \<Rightarrow> (case b of TOption y \<Rightarrow> comparator_answers x y
                      | _ \<Rightarrow> comparator_arms_answer a b)
      | TResult a_ok a_err \<Rightarrow>
          (case b of TResult b_ok b_err \<Rightarrow>
               comparator_answers a_ok b_ok \<and> comparator_answers a_err b_err
           | _ \<Rightarrow> comparator_arms_answer a b)
      | _ \<Rightarrow> comparator_arms_answer a b)"
  by pat_completeness auto
termination
  by (relation "measure (\<lambda>(a, b). size a)") auto

declare comparator_answers.simps [simp del]

lemma comparator_answers_simps [simp]:
  "comparator_answers (TOption x) (TOption y) = comparator_answers x y"
  "comparator_answers (TResult x u) (TResult y v) =
     (comparator_answers x y \<and> comparator_answers u v)"
  by (simp_all add: comparator_answers.simps [of "TOption x"] comparator_answers.simps [of "TResult x u"])

lemma comparator_arms_sym: "comparator_arms_answer a b = comparator_arms_answer b a"
  by (auto simp: comparator_arms_answer_def ty_eq_erase split: option.splits comparator_arm.splits)

definition same_container :: "ty \<Rightarrow> ty \<Rightarrow> bool" where
  "same_container a b =
     ((\<exists>x y. a = TOption x \<and> b = TOption y) \<or> (\<exists>x u y v. a = TResult x u \<and> b = TResult y v))"

lemma same_container_sym: "same_container a b \<Longrightarrow> same_container b a"
  by (auto simp: same_container_def)

lemma comparator_answers_other:
  "\<not> same_container a b \<Longrightarrow> comparator_answers a b = comparator_arms_answer a b"
  by (auto simp: comparator_answers.simps [of a b] same_container_def split: ty.splits)

lemma comparator_answers_sym_aux: "comparator_answers a b = comparator_answers b a"
proof (induction a arbitrary: b)
  case (TOption x)
  then show ?case
    using comparator_answers_other [of "TOption x" b] comparator_answers_other [of b "TOption x"]
      comparator_arms_sym [of "TOption x" b]
    by (cases b) (auto simp: same_container_def)
next
  case (TResult x u)
  then show ?case
    using comparator_answers_other [of "TResult x u" b] comparator_answers_other [of b "TResult x u"]
      comparator_arms_sym [of "TResult x u" b]
    by (cases b) (auto simp: same_container_def)
qed (simp_all add: comparator_answers_other same_container_def comparator_arms_sym)

section \<open>Unions\<close>

text \<open>
  The loop of \<open>Type::union\<close>: \<open>flat\<close> is the vector built so far, \<open>saw_never\<close> the flag; \<open>None\<close> is the
  early \<open>return Type::Dyn\<close>. \<open>union_push\<close> is the loop body for a member that is not a union, shared
  with the inner loop over a nested union's members.
\<close>

definition union_push :: "ty \<Rightarrow> ty list \<times> bool \<Rightarrow> (ty list \<times> bool) option" where
  "union_push m st = (case st of (flat, saw_never) \<Rightarrow>
     if ty_eq m TDyn then None
     else if ty_eq m TNever then Some (flat, True)
     else if \<not> ty_contains flat m then Some (flat @ [m], saw_never)
     else Some (flat, saw_never))"

fun union_inner :: "ty list \<Rightarrow> ty list \<times> bool \<Rightarrow> (ty list \<times> bool) option" where
  "union_inner [] st = Some st"
| "union_inner (m # ms) st = (case union_push m st of None \<Rightarrow> None | Some st' \<Rightarrow> union_inner ms st')"

fun union_loop :: "ty list \<Rightarrow> ty list \<times> bool \<Rightarrow> (ty list \<times> bool) option" where
  "union_loop [] st = Some st"
| "union_loop (m # ms) st =
     (case (case m of TUnion inner \<Rightarrow> union_inner inner st | _ \<Rightarrow> union_push m st) of
        None \<Rightarrow> None
      | Some st' \<Rightarrow> union_loop ms st')"

definition ty_union :: "ty list \<Rightarrow> ty" where
  "ty_union ms =
     (case union_loop ms ([], False) of
        None \<Rightarrow> TDyn
      | Some (flat, saw_never) \<Rightarrow>
          (case flat of
             [] \<Rightarrow> if saw_never then TNever else TUnknown
           | [t] \<Rightarrow> t
           | _ \<Rightarrow> TUnion flat))"

definition arith_numeric :: ty where
  "arith_numeric =
     ty_union ([TInt, TFloat, TF32, TF64] @
       concat (map (\<lambda>bits. map (\<lambda>sgd. TIntN sgd bits) [True, False]) [8, 16, 32, 64]))"

definition is_arith_numeric_union :: "ty \<Rightarrow> bool" where
  "is_arith_numeric_union t =
     (case t of
        TUnion ms \<Rightarrow>
          (case arith_numeric of
             TUnion all \<Rightarrow> length ms = length all \<and> list_all (ty_contains ms) all
           | _ \<Rightarrow> False)
      | _ \<Rightarrow> False)"

section \<open>Desugaring surface references\<close>

text \<open>The argument closure of \<open>from_ref\<close>: a bare spelling leaves its elements an inference hole.\<close>

definition ref_arg :: "spelling \<Rightarrow> ty list \<Rightarrow> nat \<Rightarrow> ty" where
  "ref_arg sp args i =
     (case sp of Bare \<Rightarrow> TUnknown
      | Canonical \<Rightarrow> if i < length args then args ! i else TUnknown)"

fun builtin_type :: "builtin_ty \<Rightarrow> (nat \<Rightarrow> ty) \<Rightarrow> ty" where
  "builtin_type BInt arg = TInt"
| "builtin_type BFloat arg = TFloat"
| "builtin_type BF32 arg = TF32"
| "builtin_type BF64 arg = TF64"
| "builtin_type (BIntN sgd bits) arg = TIntN sgd bits"
| "builtin_type BBool arg = TBool"
| "builtin_type BStr arg = TString"
| "builtin_type BBytes arg = TBytes"
| "builtin_type BUnit arg = TUnit"
| "builtin_type BDyn arg = TDyn"
| "builtin_type BNever arg = TNever"
| "builtin_type BList arg = TList (arg 0)"
| "builtin_type BSet arg = TSet (arg 0)"
| "builtin_type BMap arg = TMap (arg 0) (arg 1)"
| "builtin_type BOption arg = TOption (arg 0)"
| "builtin_type BResult arg = TResult (arg 0) (arg 1)"
| "builtin_type BKindEnum arg = TKind KEnum"
| "builtin_type BKindStruct arg = TKind KStruct"
| "builtin_type BKindClass arg = TKind KClass"
| "builtin_type BNumber arg = arith_numeric"

fun from_ref :: "type_ref \<Rightarrow> ty" where
  "from_ref (RUnion ms _) = ty_union (map from_ref ms)"
| "from_ref (RTuple es _) = TTuple (map from_ref es)"
| "from_ref (RFn ps r _) = TFn (map from_ref ps) (from_ref r)"
| "from_ref (ROptional t _) = TOption (from_ref t)"
| "from_ref (RDynTrait n _) = TDynTrait n"
| "from_ref (RAssocProjection _ _) = TUnknown"
| "from_ref (RNamed n args _) =
     (case builtin_from_name n of
        None \<Rightarrow> TNamed n (map from_ref args)
      | Some (b, sp) \<Rightarrow> builtin_type b (ref_arg sp (map from_ref args)))"

section \<open>Rendering\<close>

definition identity :: "string \<Rightarrow> bool \<Rightarrow> string" where
  "identity n qualified = (if qualified then n else short_type_name n)"

text \<open>\<open>Display\<close>: \<open>{}\<close> is \<open>show_ty False\<close>, \<open>{:#}\<close> is \<open>show_ty True\<close>.\<close>

fun show_ty :: "bool \<Rightarrow> ty \<Rightarrow> string" where
  "show_ty q TUnknown = ''?''"
| "show_ty q TDyn = ''dyn''"
| "show_ty q TNever = ''never''"
| "show_ty q TUnit = ''void''"
| "show_ty q TInt = ''int''"
| "show_ty q TFloat = ''float''"
| "show_ty q TF32 = ''f32''"
| "show_ty q TF64 = ''f64''"
| "show_ty q (TIntN sgd bits) = (if sgd then ''i'' else ''u'') @ show_nat bits"
| "show_ty q TBool = ''bool''"
| "show_ty q TString = ''string''"
| "show_ty q TBytes = ''bytes''"
| "show_ty q (TList t) = ''List<'' @ show_ty q t @ ''>''"
| "show_ty q (TSet t) = ''Set<'' @ show_ty q t @ ''>''"
| "show_ty q (TMap k v) = ''Map<'' @ show_ty q k @ '', '' @ show_ty q v @ ''>''"
| "show_ty q (TOption t) = ''Option<'' @ show_ty q t @ ''>''"
| "show_ty q (TResult t e) = ''Result<'' @ show_ty q t @ '', '' @ show_ty q e @ ''>''"
| "show_ty q (TKind k) = type_kind_name k"
| "show_ty q (TDynTrait tr) = ''dyn '' @ identity tr q"
| "show_ty q (TParam p) = pr_name p"
| "show_ty q (TNamed n args) =
     (if args = [] then identity n q
      else identity n q @ ''<'' @ sep_by '', '' (map (show_ty q) args) @ ''>'')"
| "show_ty q (TFn ps r) = ''fn('' @ sep_by '', '' (map (show_ty q) ps) @ '') -> '' @ show_ty q r"
| "show_ty q (TUnion ms) =
     (if is_arith_numeric_union (TUnion ms) then ''number''
      else sep_by '' | '' (map (show_ty q) ms))"
| "show_ty q (TTuple es) = ''('' @ sep_by '', '' (map (show_ty q) es) @ '')''"

definition mismatch_pair :: "ty \<Rightarrow> ty \<Rightarrow> string \<times> string" where
  "mismatch_pair e f =
     (if show_ty False e = show_ty False f \<and> \<not> ty_eq e f
      then (show_ty True e, show_ty True f)
      else (show_ty False e, show_ty False f))"

definition head_name :: "ty \<Rightarrow> string" where
  "head_name t =
     (case t of
        TNamed n _ \<Rightarrow> n
      | TParam p \<Rightarrow> pr_name p
      | TDynTrait n \<Rightarrow> n
      | TList _ \<Rightarrow> ''List''
      | TSet _ \<Rightarrow> ''Set''
      | TMap _ _ \<Rightarrow> ''Map''
      | TOption _ \<Rightarrow> ''Option''
      | TResult _ _ \<Rightarrow> ''Result''
      | TUnknown \<Rightarrow> []
      | TFn _ _ \<Rightarrow> []
      | TUnion _ \<Rightarrow> []
      | TTuple _ \<Rightarrow> []
      | _ \<Rightarrow> show_ty False t)"

section \<open>The union constructor normalises\<close>

definition union_nf :: "ty \<Rightarrow> bool" where
  "union_nf t = (is_union t \<longrightarrow>
     2 \<le> length (members t) \<and> distinct (map erase_spelling (members t)) \<and>
     (\<forall>m \<in> set (members t). m \<noteq> TDyn \<and> m \<noteq> TNever \<and> \<not> is_union m))"

text \<open>The members a type contributes to a union: \<open>never\<close> none, a union its own, anything else itself.\<close>

definition alternatives :: "ty \<Rightarrow> ty set" where
  "alternatives t =
     (if is_union t then erase_spelling ` set (members t)
      else if t = TNever then {} else {erase_spelling t})"

definition flatten_members :: "ty list \<Rightarrow> ty list" where
  "flatten_members ms = concat (map (\<lambda>m. if is_union m then members m else [m]) ms)"

lemma erase_atoms [simp]:
  "erase_spelling m = TDyn \<longleftrightarrow> m = TDyn" "erase_spelling m = TNever \<longleftrightarrow> m = TNever"
  by (cases m; simp)+

lemma is_union_erase [simp]: "is_union (erase_spelling m) = is_union m"
  by (cases m) auto

lemma ty_contains_erase: "ty_contains ts t \<longleftrightarrow> erase_spelling t \<in> erase_spelling ` set ts"
  by (auto simp: ty_contains_def list_ex_iff ty_eq_erase image_iff dest: sym)

lemma union_inner_append:
  "union_inner (xs @ ys) st = (case union_inner xs st of None \<Rightarrow> None | Some st' \<Rightarrow> union_inner ys st')"
  by (induction xs arbitrary: st) (auto split: option.splits)

lemma union_loop_flatten: "union_loop ms st = union_inner (flatten_members ms) st"
proof (induction ms arbitrary: st)
  case (Cons m ms)
  then show ?case
    by (cases m) (auto simp: flatten_members_def union_inner_append split: option.splits)
qed (simp add: flatten_members_def)

lemma union_inner_dyn: "union_inner xs st = None \<longleftrightarrow> TDyn \<in> set xs"
  by (induction xs arbitrary: st) (auto simp: union_push_def ty_eq_erase split: option.splits prod.splits if_splits)

lemma union_inner_Some:
  assumes "union_inner xs (flat, s) = Some (flat', s')"
  shows "s' = (s \<or> TNever \<in> set xs) \<and> set flat' \<subseteq> set flat \<union> (set xs - {TNever}) \<and>
    erase_spelling ` set flat' = erase_spelling ` set flat \<union> (erase_spelling ` set xs - {TNever}) \<and>
    (distinct (map erase_spelling flat) \<longrightarrow> distinct (map erase_spelling flat'))"
  using assms
proof (induction xs arbitrary: flat s)
  case (Cons x xs)
  then obtain flat1 s1 where step: "union_push x (flat, s) = Some (flat1, s1)"
    and rest: "union_inner xs (flat1, s1) = Some (flat', s')"
    by (auto split: option.splits)
  have head: "s1 = (s \<or> x = TNever) \<and> set flat1 \<subseteq> set flat \<union> ({x} - {TNever}) \<and>
      erase_spelling ` set flat1 = erase_spelling ` set flat \<union> ({erase_spelling x} - {TNever}) \<and>
      (distinct (map erase_spelling flat) \<longrightarrow> distinct (map erase_spelling flat1))"
    using step by (auto simp: union_push_def ty_eq_erase ty_contains_erase split: if_splits)
  from Cons.IH [OF rest] head show ?case by (auto; blast)
qed auto

text \<open>The outcome of \<open>ty_union\<close> on inputs with no \<open>dyn\<close>: the deduplicated members, or their absence.\<close>

lemma ty_union_outcome:
  assumes "TDyn \<notin> set (flatten_members ms)"
  obtains flat where "ty_union ms = (case flat of [] \<Rightarrow> if TNever \<in> set (flatten_members ms) then TNever
        else TUnknown | [t] \<Rightarrow> t | _ \<Rightarrow> TUnion flat)"
    and "set flat \<subseteq> set (flatten_members ms) - {TNever}" and "distinct (map erase_spelling flat)"
    and "erase_spelling ` set flat = erase_spelling ` set (flatten_members ms) - {TNever}"
proof -
  have "union_inner (flatten_members ms) ([], False) \<noteq> None"
    using assms by (simp add: union_inner_dyn)
  then obtain flat s where st: "union_loop ms ([], False) = Some (flat, s)"
    by (auto simp: union_loop_flatten)
  from union_inner_Some [OF st [unfolded union_loop_flatten]] st
  show thesis by (intro that [of flat]) (auto simp: ty_union_def split: list.splits)
qed

lemma flatten_members_nf:
  assumes "\<forall>m \<in> set ms. union_nf m" and "x \<in> set (flatten_members ms)"
  shows "\<not> is_union x"
proof -
  from assms(2) obtain m where m: "m \<in> set ms" "x \<in> set (if is_union m then members m else [m])"
    by (auto simp: flatten_members_def)
  with assms(1) have "union_nf m" by blast
  with m(2) show ?thesis by (auto simp: union_nf_def split: if_splits)
qed

lemma alternatives_flatten:
  "erase_spelling ` set (flatten_members ms) - {TNever} =
     (\<Union>m \<in> set ms. alternatives m) - {TNever}"
proof -
  have "erase_spelling ` set (if is_union m then members m else [m]) - {TNever} =
      alternatives m - {TNever}" for m
    by (auto simp: alternatives_def)
  then have "(\<Union>m \<in> set ms. erase_spelling ` set (if is_union m then members m else [m]) - {TNever}) =
      (\<Union>m \<in> set ms. alternatives m - {TNever})" by simp
  moreover have "erase_spelling ` set (flatten_members ms) =
      (\<Union>m \<in> set ms. erase_spelling ` set (if is_union m then members m else [m]))"
    by (induction ms) (simp_all add: flatten_members_def image_Un)
  ultimately show ?thesis by (simp only: UN_simps(6))
qed

lemma flatten_members_Nil: "\<lbrakk>\<forall>m \<in> set ms. union_nf m; flatten_members ms = []\<rbrakk> \<Longrightarrow> ms = []"
proof (rule ccontr)
  assume nf: "\<forall>m \<in> set ms. union_nf m" and flat: "flatten_members ms = []" and "ms \<noteq> []"
  then obtain m where m: "m \<in> set ms" by (cases ms) auto
  have "set (if is_union m then members m else [m]) \<subseteq> set (flatten_members ms)"
    using m unfolding flatten_members_def set_concat set_map by (intro UN_upper imageI)
  with flat have empty: "(if is_union m then members m else [m]) = []" by simp
  from nf m have "union_nf m" by (rule bspec)
  with empty show False by (cases "is_union m") (simp_all add: union_nf_def)
qed

lemma alternatives_nf: "union_nf m \<Longrightarrow> TNever \<notin> alternatives m"
  by (auto simp: union_nf_def alternatives_def split: if_splits dest: sym [of TNever])

text \<open>
  C22: \<open>Type::union\<close> keeps its invariant: from normalised members it builds either a single type or a
  union of at least two distinct members, none of them \<open>dyn\<close>, \<open>never\<close> or itself a union.
\<close>

theorem union_normal_form:
  assumes "\<forall>m \<in> set ms. union_nf m"
  shows "union_nf (ty_union ms)"
proof (cases "TDyn \<in> set (flatten_members ms)")
  case True
  then have "ty_union ms = TDyn" by (simp add: ty_union_def union_loop_flatten union_inner_dyn [THEN iffD2])
  then show ?thesis by (simp add: union_nf_def)
next
  case False
  then obtain flat where u: "ty_union ms = (case flat of [] \<Rightarrow> if TNever \<in> set (flatten_members ms) then TNever
        else TUnknown | [t] \<Rightarrow> t | _ \<Rightarrow> TUnion flat)"
    and flat: "set flat \<subseteq> set (flatten_members ms) - {TNever}" "distinct (map erase_spelling flat)"
    by (rule ty_union_outcome)
  have plain: "m \<noteq> TDyn \<and> m \<noteq> TNever \<and> \<not> is_union m" if "m \<in> set flat" for m
    using flat(1) False flatten_members_nf [OF assms] that by blast
  then have "union_nf t" if "t \<in> set flat" for t
    using that by (simp add: union_nf_def)
  with u flat(2) plain show ?thesis
    by (auto simp: union_nf_def split: list.splits)
qed

theorem union_normal_form_witness:
  "union_nf (ty_union [TUnion [TInt, TString], TNever, TBool, TInt]) \<and>
   ty_union [TUnion [TInt, TString], TNever, TBool, TInt] = TUnion [TInt, TString, TBool]"
proof -
  have "\<forall>m \<in> set [TUnion [TInt, TString], TNever, TBool, TInt]. union_nf m"
    by (simp add: union_nf_def)
  then have "union_nf (ty_union [TUnion [TInt, TString], TNever, TBool, TInt])"
    by (rule union_normal_form)
  moreover have "ty_union [TUnion [TInt, TString], TNever, TBool, TInt] = TUnion [TInt, TString, TBool]"
    by code_simp
  ultimately show ?thesis ..
qed

text \<open>
  C21: \<open>Type::union\<close> is set union on the members: \<open>dyn\<close> absorbs everything, and without it the
  alternatives of the result are exactly those of the inputs, so \<open>never\<close> is the identity element and
  order, nesting and repetition of the inputs do not change what the union means.
\<close>

theorem union_is_set_union:
  assumes "\<forall>m \<in> set ms. union_nf m" and "ms \<noteq> []"
  shows "(ty_union ms = TDyn) = (TDyn \<in> set ms) \<and>
    (TDyn \<notin> set ms \<longrightarrow> alternatives (ty_union ms) = (\<Union>m \<in> set ms. alternatives m))"
proof -
  have dyn: "(TDyn \<in> set (flatten_members ms)) = (TDyn \<in> set ms)"
    using assms(1) by (fastforce simp: flatten_members_def union_nf_def)
  show ?thesis
  proof (cases "TDyn \<in> set ms")
    case True
    then show ?thesis
      using dyn by (simp add: ty_union_def union_loop_flatten union_inner_dyn [THEN iffD2])
  next
    case False
    with dyn have "TDyn \<notin> set (flatten_members ms)" by simp
    then obtain flat where u: "ty_union ms = (case flat of [] \<Rightarrow> if TNever \<in> set (flatten_members ms)
        then TNever else TUnknown | [t] \<Rightarrow> t | _ \<Rightarrow> TUnion flat)"
      and flat: "set flat \<subseteq> set (flatten_members ms) - {TNever}"
        "erase_spelling ` set flat = erase_spelling ` set (flatten_members ms) - {TNever}"
      by (rule ty_union_outcome)
    have plain: "m \<noteq> TDyn \<and> m \<noteq> TNever \<and> \<not> is_union m" if "m \<in> set flat" for m
      using flat(1) False dyn flatten_members_nf [OF assms(1)] that by blast
    have alts: "(\<Union>m \<in> set ms. alternatives m) = erase_spelling ` set flat"
    proof -
      have "TNever \<notin> (\<Union>m \<in> set ms. alternatives m)" using assms(1) alternatives_nf by auto
      then show ?thesis using alternatives_flatten [of ms] flat(2) by simp
    qed
    have never: "TNever \<in> set (flatten_members ms)" if "flat = []"
    proof -
      have "flatten_members ms \<noteq> []" using assms flatten_members_Nil by blast
      then obtain x where "x \<in> set (flatten_members ms)" by (meson list.set_sel(1))
      with flat(2) that show ?thesis by auto
    qed
    show ?thesis
    proof (cases "\<exists>t u us. flat = t # u # us")
      case True
      with u plain alts dyn False show ?thesis by (auto simp: alternatives_def)
    next
      case few: False
      then have "flat = [] \<or> (\<exists>t. flat = [t])" by (metis neq_Nil_conv)
      with u plain alts never dyn False show ?thesis by (auto simp: alternatives_def)
    qed
  qed
qed

theorem union_is_set_union_witness:
  "alternatives (ty_union [TUnion [TInt, TString], TNever, TBool]) = {TInt, TString, TBool}"
proof -
  have "\<forall>m \<in> set [TUnion [TInt, TString], TNever, TBool]. union_nf m"
    by (simp add: union_nf_def)
  from union_is_set_union [OF this] show ?thesis by (simp add: alternatives_def insert_commute)
qed

end
