(* ===== verification/Subtyping.thy ===== *)
theory Subtyping
  imports Type_Lattice
begin

text \<open>
  The subtype relation (\<open>Type::subtype_at\<close> and its entry points in
  \<open>crates/noeta-types/src/lib.rs\<close>): one walk over a pair of types, parameterised by the
  registry-dependent rules of the checker and by whether the position admits a widening.
\<close>

section \<open>The registry-dependent rules\<close>

record nominal_rules =
  is_of_kind :: "string \<Rightarrow> type_kind \<Rightarrow> bool"
  implements_trait :: "string \<Rightarrow> string \<Rightarrow> bool"
  covariant_arg :: "string \<Rightarrow> nat \<Rightarrow> bool"

definition NoRegistry :: nominal_rules where
  "NoRegistry =
     \<lparr>is_of_kind = \<lambda>_ _. False, implements_trait = \<lambda>_ _. False, covariant_arg = \<lambda>_ _. False\<rparr>"

section \<open>The walk\<close>

text \<open>
  The arms that do not descend: a trait object on the right, and the identity-like arms at the end
  of the \<open>match\<close> (abstract kinds, type parameters, everything else by equality).
\<close>

definition dyn_trait_arm :: "nominal_rules \<Rightarrow> bool \<Rightarrow> ty \<Rightarrow> ty \<Rightarrow> bool" where
  "dyn_trait_arm r w a b =
     (case b of
        TDynTrait tr \<Rightarrow>
          (case a of
             TDynTrait tr' \<Rightarrow> tr' = tr
           | TNamed n _ \<Rightarrow> if w then implements_trait r n tr else defers_to_runtime a
           | _ \<Rightarrow> defers_to_runtime a)
      | _ \<Rightarrow> False)"

definition leaf_arm :: "nominal_rules \<Rightarrow> bool \<Rightarrow> ty \<Rightarrow> ty \<Rightarrow> bool" where
  "leaf_arm r w a b =
     (case a of
        TNamed n _ \<Rightarrow>
          (case b of TKind k \<Rightarrow> w \<and> is_of_kind r n k | TParam _ \<Rightarrow> False | _ \<Rightarrow> ty_eq a b)
      | TParam p \<Rightarrow> (case b of TParam q \<Rightarrow> pr_id p = pr_id q | _ \<Rightarrow> False)
      | TKind k \<Rightarrow> (case b of TParam _ \<Rightarrow> False | TKind l \<Rightarrow> k = l | _ \<Rightarrow> ty_eq a b)
      | _ \<Rightarrow> (case b of TParam _ \<Rightarrow> False | _ \<Rightarrow> ty_eq a b))"

lemma size_members_less: "is_union a \<Longrightarrow> x \<in> set (members a) \<Longrightarrow> size x < size a"
  using size_list_estimation' [of x "members a" "size x" size] by (cases a) auto

lemma size_elem_le: "x \<in> set xs \<Longrightarrow> size x \<le> size_list size xs"
  by (simp add: size_list_estimation')

lemma size_zip_less:
  assumes "(x, y) \<in> set (zip xs ys)"
  shows "size x \<le> size_list size xs \<and> size y \<le> size_list size ys"
  using assms size_list_estimation' [of x xs "size x" size] size_list_estimation' [of y ys "size y" size]
  by (auto dest: set_zip_leftD set_zip_rightD)

lemma size_enumerate_zip_less:
  assumes "(i, x, y) \<in> set (enumerate k (zip xs ys))"
  shows "size x \<le> size_list size xs \<and> size y \<le> size_list size ys"
proof -
  have "(x, y) \<in> set (zip xs ys)"
    using assms by (simp add: enumerate_eq_zip set_zip_rightD)
  then show ?thesis by (rule size_zip_less)
qed

text \<open>
  The checks run in the code's order: inference holes, the open top, the bottom, a trait object on
  the right, then the arms of the \<open>match\<close>: \<open>dyn\<close> on the left, unions on both sides, on the left,
  on the right, and the structural arms.
\<close>

function subtype_at :: "nominal_rules \<Rightarrow> bool \<Rightarrow> ty \<Rightarrow> ty \<Rightarrow> bool" where
  "subtype_at r w a b =
    (if is_gradual a \<or> is_gradual b then True
     else if b = TDyn \<and> (w \<or> a = TDyn) then True
     else if a = TNever then True
     else if is_dyn_trait b then dyn_trait_arm r w a b
     else if a = TDyn then False
     else if is_union a \<and> is_union b then
       list_all (\<lambda>x. list_ex (\<lambda>y. subtype_at r w x y) (members b)) (members a) \<and>
       (w \<or> list_all (\<lambda>y. list_ex (\<lambda>x. subtype_at r w x y) (members a)) (members b))
     else if is_union a then list_all (\<lambda>x. subtype_at r w x b) (members a)
     else if is_union b then w \<and> list_ex (\<lambda>y. subtype_at r w a y) (members b)
     else case a of
       TList x \<Rightarrow> (case b of TList y \<Rightarrow> subtype_at r w x y | _ \<Rightarrow> leaf_arm r w a b)
     | TSet x \<Rightarrow> (case b of TSet y \<Rightarrow> subtype_at r w x y | _ \<Rightarrow> leaf_arm r w a b)
     | TTuple xs \<Rightarrow>
         (case b of
            TTuple ys \<Rightarrow>
              length xs = length ys \<and> list_all (\<lambda>(x, y). subtype_at r w x y) (zip xs ys)
          | _ \<Rightarrow> leaf_arm r w a b)
     | TMap k v \<Rightarrow>
         (case b of TMap k' v' \<Rightarrow> subtype_at r w k k' \<and> subtype_at r w v v' | _ \<Rightarrow> leaf_arm r w a b)
     | TOption x \<Rightarrow> (case b of TOption y \<Rightarrow> subtype_at r w x y | _ \<Rightarrow> leaf_arm r w a b)
     | TResult x e \<Rightarrow>
         (case b of TResult y f \<Rightarrow> subtype_at r w x y \<and> subtype_at r w e f | _ \<Rightarrow> leaf_arm r w a b)
     | TFn ps x \<Rightarrow>
         (case b of
            TFn qs y \<Rightarrow>
              length ps = length qs \<and>
              list_all (\<lambda>(p, q). subtype_at r w q p) (zip ps qs) \<and>
              subtype_at r w x y
          | _ \<Rightarrow> leaf_arm r w a b)
     | TNamed n xs \<Rightarrow>
         (case b of
            TNamed m ys \<Rightarrow>
              n = m \<and>
              (xs = [] \<or> ys = [] \<or>
               (length xs = length ys \<and>
                list_all (\<lambda>(i, x, y). x = TDyn \<or> subtype_at r (w \<and> covariant_arg r n i) x y)
                  (enumerate 0 (zip xs ys))))
          | _ \<Rightarrow> leaf_arm r w a b)
     | _ \<Rightarrow> leaf_arm r w a b)"
  by pat_completeness auto

termination
  by (relation "measure (\<lambda>(r, w, a, b). size a + size b)")
    (auto dest!: size_zip_less size_enumerate_zip_less size_members_less)

declare subtype_at.simps [simp del]

section \<open>The declarative rules\<close>

text \<open>
  The same relation as a set of rules, one per sentence of the documentation. The flag \<open>w\<close> says
  whether the position may read a value at a wider type.
\<close>

definition atomic :: "ty \<Rightarrow> bool" where
  "atomic a = (case a of TUnit \<Rightarrow> True | TInt \<Rightarrow> True | TFloat \<Rightarrow> True | TF32 \<Rightarrow> True | TF64 \<Rightarrow> True
     | TIntN _ _ \<Rightarrow> True | TBool \<Rightarrow> True | TString \<Rightarrow> True | TBytes \<Rightarrow> True | TKind _ \<Rightarrow> True | _ \<Rightarrow> False)"

inductive sub :: "nominal_rules \<Rightarrow> bool \<Rightarrow> ty \<Rightarrow> ty \<Rightarrow> bool" for r where
  hole_l: "sub r w TUnknown b"
| hole_r: "sub r w a TUnknown"
| top: "w \<Longrightarrow> sub r w a TDyn"
| top_refl: "sub r w TDyn TDyn"
| bottom: "sub r w TNever b"
| trait_refl: "sub r w (TDynTrait t) (TDynTrait t)"
| trait_member: "w \<Longrightarrow> implements_trait r n t \<Longrightarrow> sub r w (TNamed n xs) (TDynTrait t)"
| trait_dyn: "sub r w TDyn (TDynTrait t)"
| unions: "\<forall>x \<in> set xs. \<exists>y \<in> set ys. sub r w x y \<Longrightarrow>
    w \<or> (\<forall>y \<in> set ys. \<exists>x \<in> set xs. sub r w x y) \<Longrightarrow> sub r w (TUnion xs) (TUnion ys)"
| union_l: "\<not> is_union b \<Longrightarrow> \<not> is_dyn_trait b \<Longrightarrow> \<forall>x \<in> set xs. sub r w x b \<Longrightarrow> sub r w (TUnion xs) b"
| union_r: "w \<Longrightarrow> \<not> is_union a \<Longrightarrow> a \<noteq> TDyn \<Longrightarrow> y \<in> set ys \<Longrightarrow> sub r w a y \<Longrightarrow>
    sub r w a (TUnion ys)"
| list: "sub r w x y \<Longrightarrow> sub r w (TList x) (TList y)"
| set: "sub r w x y \<Longrightarrow> sub r w (TSet x) (TSet y)"
| option: "sub r w x y \<Longrightarrow> sub r w (TOption x) (TOption y)"
| map: "sub r w k k' \<Longrightarrow> sub r w v v' \<Longrightarrow> sub r w (TMap k v) (TMap k' v')"
| result: "sub r w x y \<Longrightarrow> sub r w e f \<Longrightarrow> sub r w (TResult x e) (TResult y f)"
| tuple: "list_all2 (sub r w) xs ys \<Longrightarrow> sub r w (TTuple xs) (TTuple ys)"
| fn: "list_all2 (\<lambda>p q. sub r w q p) ps qs \<Longrightarrow> sub r w x y \<Longrightarrow> sub r w (TFn ps x) (TFn qs y)"
| named_open: "xs = [] \<or> ys = [] \<Longrightarrow> sub r w (TNamed n xs) (TNamed n ys)"
| named: "length xs = length ys \<Longrightarrow>
    \<forall>i < length xs. xs ! i = TDyn \<or> sub r (w \<and> covariant_arg r n i) (xs ! i) (ys ! i) \<Longrightarrow>
    sub r w (TNamed n xs) (TNamed n ys)"
| kind_member: "w \<Longrightarrow> is_of_kind r n k \<Longrightarrow> sub r w (TNamed n xs) (TKind k)"
| param: "pr_id p = pr_id q \<Longrightarrow> sub r w (TParam p) (TParam q)"
| atom: "atomic a \<Longrightarrow> sub r w a a"

lemma enumerate_zip_all:
  "length xs = length ys \<Longrightarrow>
   list_all (\<lambda>(i, x, y). P i x y) (enumerate 0 (zip xs ys)) = (\<forall>i < length xs. P i (xs ! i) (ys ! i))"
  by (simp add: list_all_length nth_enumerate_eq)

lemma zip_all2:
  "(length xs = length ys \<and> list_all (\<lambda>(x, y). P x y) (zip xs ys)) = list_all2 P xs ys"
  by (auto simp: list_all2_iff list_all_iff)

lemmas walk_simps = is_gradual_def dyn_trait_arm_def leaf_arm_def defers_to_runtime_def atomic_def
  enumerate_zip_all zip_all2 list_all_iff list_ex_iff

lemma subtype_at_escapes [simp]:
  "subtype_at r w TUnknown b" "subtype_at r w a TUnknown" "subtype_at r w TNever b"
  "subtype_at r True a TDyn" "subtype_at r w TDyn TDyn"
  by (simp_all add: subtype_at.simps [of r w TUnknown] subtype_at.simps [of r w a TUnknown]
      subtype_at.simps [of r w TNever] subtype_at.simps [of r True a TDyn]
      subtype_at.simps [of r w TDyn TDyn] is_gradual_def)

lemma subtype_at_structural [simp]:
  "subtype_at r w (TList x) (TList y) = subtype_at r w x y"
  "subtype_at r w (TSet x) (TSet y) = subtype_at r w x y"
  "subtype_at r w (TOption x) (TOption y) = subtype_at r w x y"
  "subtype_at r w (TMap k v) (TMap k' v') = (subtype_at r w k k' \<and> subtype_at r w v v')"
  "subtype_at r w (TResult x e) (TResult y f) = (subtype_at r w x y \<and> subtype_at r w e f)"
  by (simp_all add: subtype_at.simps [of r w "TList x"] subtype_at.simps [of r w "TSet x"]
      subtype_at.simps [of r w "TOption x"] subtype_at.simps [of r w "TMap k v"]
      subtype_at.simps [of r w "TResult x e"] is_gradual_def)

lemma subtype_at_leaves [simp]:
  "subtype_at r w (TDynTrait t) (TDynTrait t') = (t = t')"
  "subtype_at r w (TNamed n xs) (TDynTrait t) = (w \<and> implements_trait r n t)"
  "subtype_at r w TDyn (TDynTrait t)"
  "subtype_at r w (TNamed n xs) (TKind k) = (w \<and> is_of_kind r n k)"
  "subtype_at r w (TParam p) (TParam q) = (pr_id p = pr_id q)"
  by (simp_all add: subtype_at.simps [of r w "TDynTrait t"] subtype_at.simps [of r w "TNamed n xs"]
      subtype_at.simps [of r w TDyn] subtype_at.simps [of r w "TParam p"] walk_simps)

lemma sub_imp_subtype_at: "sub r w a b \<Longrightarrow> subtype_at r w a b"
proof (induction rule: sub.induct)
  case (unions xs ys w)
  then show ?case by (auto simp: subtype_at.simps [of r w "TUnion xs"] walk_simps)
next
  case (union_l b xs w)
  then show ?case by (auto simp: subtype_at.simps [of r w "TUnion xs" b] walk_simps)
next
  case (union_r w a y ys)
  then show ?case by (auto simp: subtype_at.simps [of r True a "TUnion ys"] walk_simps)
next
  case (tuple w xs ys)
  then have "length xs = length ys \<and> list_all (\<lambda>(x, y). subtype_at r w x y) (zip xs ys)"
    by (simp add: zip_all2 list_all2_mono)
  then show ?case by (simp add: subtype_at.simps [of r w "TTuple xs"] is_gradual_def)
next
  case (fn w ps qs x y)
  then have "length ps = length qs \<and> list_all (\<lambda>(p, q). subtype_at r w q p) (zip ps qs)"
    by (simp add: zip_all2 list_all2_mono)
  with fn show ?case by (simp add: subtype_at.simps [of r w "TFn ps x"] is_gradual_def)
next
  case (named xs ys w n)
  then show ?case by (auto simp: subtype_at.simps [of r w "TNamed n xs"] is_gradual_def enumerate_zip_all)
next
  case (named_open xs ys w n)
  then show ?case by (auto simp: subtype_at.simps [of r w "TNamed n xs"] is_gradual_def)
next
  case (atom a w)
  then show ?case
    by (cases a) (auto simp: subtype_at.simps walk_simps)
qed simp_all

lemma sub_dyn_trait:
  assumes "dyn_trait_arm r w a b"
  shows "sub r w a b"
  using assms
  by (auto simp: dyn_trait_arm_def defers_to_runtime_def split: ty.splits if_splits
      intro: sub.intros)

lemma sub_leaf:
  assumes "leaf_arm r w a b" and "a \<noteq> TUnknown" and "a \<noteq> TDyn" and "a \<noteq> TNever" and "\<not> is_dyn_trait b"
    and "\<not> is_union a" and "\<And>x y. \<lbrakk>a = TList x; b = TList y\<rbrakk> \<Longrightarrow> sub r w a b"
    and "\<And>x y. \<lbrakk>a = TSet x; b = TSet y\<rbrakk> \<Longrightarrow> sub r w a b"
    and "\<And>x y. \<lbrakk>a = TOption x; b = TOption y\<rbrakk> \<Longrightarrow> sub r w a b"
    and "\<And>x y u v. \<lbrakk>a = TMap x u; b = TMap y v\<rbrakk> \<Longrightarrow> sub r w a b"
    and "\<And>x y u v. \<lbrakk>a = TResult x u; b = TResult y v\<rbrakk> \<Longrightarrow> sub r w a b"
    and "\<And>x y. \<lbrakk>a = TTuple x; b = TTuple y\<rbrakk> \<Longrightarrow> sub r w a b"
    and "\<And>x y u v. \<lbrakk>a = TFn x u; b = TFn y v\<rbrakk> \<Longrightarrow> sub r w a b"
    and "\<And>n xs m ys. \<lbrakk>a = TNamed n xs; b = TNamed m ys\<rbrakk> \<Longrightarrow> sub r w a b"
  shows "sub r w a b"
  using assms
  by (cases a) (auto simp: leaf_arm_def atomic_def split: ty.splits intro: sub.intros)

text \<open>
  Completeness, one lemma per structural constructor: \<open>walk_ih\<close> is the induction hypothesis of the
  main proof, for pairs smaller than \<open>(a, b)\<close>.
\<close>

definition walk_ih :: "nominal_rules \<Rightarrow> ty \<Rightarrow> ty \<Rightarrow> bool" where
  "walk_ih r a b =
     (\<forall>x y w. size x + size y < size a + size b \<longrightarrow> subtype_at r w x y \<longrightarrow> sub r w x y)"

lemma walk_ihD: "walk_ih r a b \<Longrightarrow> size x + size y < size a + size b \<Longrightarrow> subtype_at r w x y \<Longrightarrow> sub r w x y"
  by (simp add: walk_ih_def)

lemma walk_unary:
  assumes "walk_ih r a b" and "subtype_at r w a b"
  shows "a = TList x \<Longrightarrow> b = TList y \<Longrightarrow> sub r w a b"
    and "a = TSet x \<Longrightarrow> b = TSet y \<Longrightarrow> sub r w a b"
    and "a = TOption x \<Longrightarrow> b = TOption y \<Longrightarrow> sub r w a b"
    and "a = TMap x u \<Longrightarrow> b = TMap y v \<Longrightarrow> sub r w a b"
    and "a = TResult x u \<Longrightarrow> b = TResult y v \<Longrightarrow> sub r w a b"
  using assms(2) [unfolded subtype_at.simps [of r w a b]] walk_ihD [OF assms(1), of x y w]
    walk_ihD [OF assms(1), of u v w]
  by (auto simp: is_gradual_def intro: sub.intros)

lemma walk_tuple:
  assumes "walk_ih r (TTuple xs) (TTuple ys)" and "subtype_at r w (TTuple xs) (TTuple ys)"
  shows "sub r w (TTuple xs) (TTuple ys)"
proof -
  have "list_all2 (subtype_at r w) xs ys"
    using assms(2) by (simp add: subtype_at.simps [of r w "TTuple xs"] is_gradual_def zip_all2)
  then have "list_all2 (sub r w) xs ys"
    by (rule list.rel_mono_strong)
      (rule walk_ihD [OF assms(1)], auto dest!: size_elem_le)
  then show ?thesis by (rule sub.tuple)
qed

lemma walk_fn:
  assumes "walk_ih r (TFn ps x) (TFn qs y)" and "subtype_at r w (TFn ps x) (TFn qs y)"
  shows "sub r w (TFn ps x) (TFn qs y)"
proof (rule sub.fn)
  have *: "list_all2 (\<lambda>p q. subtype_at r w q p) ps qs \<and> subtype_at r w x y"
    using assms(2)
    by (auto simp: subtype_at.simps [of r w "TFn ps x"] is_gradual_def simp flip: zip_all2)
  then show "list_all2 (\<lambda>p q. sub r w q p) ps qs"
    by (elim conjE list.rel_mono_strong)
      (rule walk_ihD [OF assms(1)], auto dest!: size_elem_le)
  show "sub r w x y" by (rule walk_ihD [OF assms(1)]) (use * in auto)
qed

lemma walk_named:
  assumes "walk_ih r (TNamed n xs) (TNamed m ys)" and "subtype_at r w (TNamed n xs) (TNamed m ys)"
  shows "sub r w (TNamed n xs) (TNamed m ys)"
proof (cases "xs = [] \<or> ys = []")
  case True
  with assms(2) show ?thesis
    by (auto simp: subtype_at.simps [of r w "TNamed n xs"] is_gradual_def intro: sub.named_open)
next
  case False
  with assms(2) have len: "m = n" "length xs = length ys" "\<forall>i < length xs. xs ! i = TDyn \<or>
      subtype_at r (w \<and> covariant_arg r n i) (xs ! i) (ys ! i)"
    by (auto simp: subtype_at.simps [of r w "TNamed n xs"] is_gradual_def enumerate_zip_all)
  have "size (xs ! i) + size (ys ! i) < size (TNamed n xs) + size (TNamed m ys)" if "i < length xs" for i
    using size_elem_le [of "xs ! i" xs] size_elem_le [of "ys ! i" ys] len(2) that by simp
  with len walk_ihD [OF assms(1)] have "\<forall>i < length xs. xs ! i = TDyn \<or>
      sub r (w \<and> covariant_arg r n i) (xs ! i) (ys ! i)" by blast
  with len show ?thesis by (simp add: sub.named)
qed

lemma walk_struct:
  assumes "walk_ih r a b" and "subtype_at r w a b"
    and "\<not> is_union a" "\<not> is_union b" "\<not> is_dyn_trait b" "a \<noteq> TDyn" "a \<noteq> TUnknown" "a \<noteq> TNever"
  shows "sub r w a b"
proof (cases "leaf_arm r w a b")
  case True
  have t: "\<And>xs ys. a = TTuple xs \<Longrightarrow> b = TTuple ys \<Longrightarrow> sub r w a b"
    and f: "\<And>ps x qs y. a = TFn ps x \<Longrightarrow> b = TFn qs y \<Longrightarrow> sub r w a b"
    and n: "\<And>n xs m ys. a = TNamed n xs \<Longrightarrow> b = TNamed m ys \<Longrightarrow> sub r w a b"
    using assms(1,2) walk_tuple walk_fn walk_named by blast+
  show ?thesis
    by (rule sub_leaf) (fact True assms(3-8) walk_unary [OF assms(1,2)] t f n)+
next
  case False
  then show ?thesis
    using assms(2) [unfolded subtype_at.simps [of r w a b]] assms walk_unary [OF assms(1,2)]
    by (cases a) (auto simp: is_gradual_def split: ty.splits if_splits
        intro: sub.intros walk_tuple walk_fn walk_named)
qed

lemma subtype_at_imp_sub: "subtype_at r w a b \<Longrightarrow> sub r w a b"
proof (induction "size a + size b" arbitrary: a b w rule: less_induct)
  case less
  note unfolded = less.prems [unfolded subtype_at.simps [of r w a b]]
  have ih: "walk_ih r a b" using less.hyps by (simp add: walk_ih_def)
  consider (esc) "a = TUnknown \<or> b = TUnknown \<or> (b = TDyn \<and> (w \<or> a = TDyn)) \<or> a = TNever"
    | (tr) "is_dyn_trait b" "dyn_trait_arm r w a b"
    | (unions) "is_union a" "is_union b"
    | (ul) "is_union a" "\<not> is_union b" "\<not> is_dyn_trait b"
    | (ur) "\<not> is_union a" "is_union b" "a \<noteq> TDyn"
    | (struct) "\<not> is_union a" "\<not> is_union b" "\<not> is_dyn_trait b" "a \<noteq> TDyn" "a \<noteq> TUnknown" "a \<noteq> TNever"
    using unfolded by (auto simp: is_gradual_def split: if_splits)
  then show ?case
  proof cases
    case unions
    then obtain xs ys where ab: "a = TUnion xs" "b = TUnion ys" by (auto simp: is_union_def)
    have step: "x \<in> set xs \<Longrightarrow> y \<in> set ys \<Longrightarrow> subtype_at r w x y \<Longrightarrow> sub r w x y" for x y
      using walk_ihD [OF ih] size_elem_le [of x xs] size_elem_le [of y ys] ab by force
    show ?thesis
      using unfolded step unfolding ab
      by (intro sub.unions) (fastforce simp: is_gradual_def list_all_iff list_ex_iff)+
  next
    case ul
    then obtain xs where a: "a = TUnion xs" by (auto simp: is_union_def)
    have step: "x \<in> set xs \<Longrightarrow> subtype_at r w x b \<Longrightarrow> sub r w x b" for x
      using walk_ihD [OF ih] size_elem_le [of x xs] a by force
    show ?thesis
      using unfolded step ul unfolding a
      by (cases "b = TDyn \<and> w \<or> b = TUnknown")
        (auto simp: is_gradual_def list_all_iff intro: sub.intros)
  next
    case ur
    then obtain ys where b: "b = TUnion ys" by (auto simp: is_union_def)
    have step: "y \<in> set ys \<Longrightarrow> subtype_at r w a y \<Longrightarrow> sub r w a y" for y
      using walk_ihD [OF ih] size_elem_le [of y ys] b by force
    show ?thesis
      using unfolded step ur unfolding b
      by (cases "a = TNever \<or> a = TUnknown")
        (auto simp: is_gradual_def list_ex_iff intro: sub.intros)
  next
    case struct
    with ih less.prems show ?thesis by (rule walk_struct)
  qed (auto intro: sub.intros sub_dyn_trait)
qed

section \<open>The entry points\<close>

text \<open>\<open>Type::subtype_with\<close>, \<open>Type::subtype\<close> and \<open>Type::widens_only\<close>.\<close>

definition subtype_with :: "ty \<Rightarrow> ty \<Rightarrow> nominal_rules \<Rightarrow> bool" where
  "subtype_with a b r = subtype_at r True a b"

definition subtype :: "ty \<Rightarrow> ty \<Rightarrow> bool" where
  "subtype a b = subtype_with a b NoRegistry"

definition widens_only :: "ty \<Rightarrow> ty \<Rightarrow> nominal_rules \<Rightarrow> bool" where
  "widens_only a b r = (subtype_at r True a b \<and> \<not> subtype_at r False a b)"

end
