(* ===== verification/Subtyping_Laws.thy ===== *)
theory Subtyping_Laws
  imports Subtyping
begin

text \<open>
  What the subtype relation promises its callers: it is the relation of the documented rules, it
  is reflexive up to the code's own type equality, every rule only ever admits, and on types with
  no inference hole and no trait object it is transitive.
\<close>

section \<open>Agreement with the documented rules\<close>


section \<open>Reflexivity\<close>

text \<open>Both directions at once, because a function type turns its parameters around.\<close>

definition sub_both :: "nominal_rules \<Rightarrow> ty \<Rightarrow> ty \<Rightarrow> bool" where
  "sub_both r a b = (\<forall>w. sub r w a b \<and> sub r w b a)"

lemma sub_both_lists:
  assumes "list_all2 (\<lambda>f b. f b) (map ty_eq xs) ys"
    and "\<And>x y. x \<in> set xs \<Longrightarrow> ty_eq x y \<Longrightarrow> sub_both r x y"
  shows "list_all2 (sub_both r) xs ys"
  using assms by (auto simp: list_all2_conv_all_nth)

lemma sub_both_named: "list_all2 (sub_both r) xs ys \<Longrightarrow> sub_both r (TNamed n xs) (TNamed n ys)"
  by (auto simp: sub_both_def list_all2_conv_all_nth intro: sub.named)

lemma sub_both_tuple: "list_all2 (sub_both r) xs ys \<Longrightarrow> sub_both r (TTuple xs) (TTuple ys)"
  by (auto simp: sub_both_def list_all2_conv_all_nth intro!: sub.tuple)

lemma sub_both_fn:
  "list_all2 (sub_both r) xs ys \<Longrightarrow> sub_both r x y \<Longrightarrow> sub_both r (TFn xs x) (TFn ys y)"
  by (auto simp: sub_both_def list_all2_conv_all_nth intro!: sub.fn)

lemma list_all2_partner: "list_all2 P xs ys \<Longrightarrow> x \<in> set xs \<Longrightarrow> \<exists>y \<in> set ys. P x y"
  by (induction xs ys rule: list_all2_induct) auto

lemma sub_both_union:
  assumes "list_all2 (sub_both r) xs ys"
  shows "sub_both r (TUnion xs) (TUnion ys)"
proof -
  have 1: "\<exists>y \<in> set ys. sub r w x y \<and> sub r w y x" if "x \<in> set xs" for x w
    using list_all2_partner [OF assms that] by (auto simp: sub_both_def)
  have 2: "\<exists>x \<in> set xs. sub r w x y \<and> sub r w y x" if "y \<in> set ys" for y w
    using list_all2_partner [OF list.rel_flip [THEN iffD2, OF assms] that] by (auto simp: sub_both_def)
  show ?thesis
    unfolding sub_both_def by (intro allI conjI sub.unions disjI2 ballI) (use 1 2 in blast)+
qed

lemma sub_both_intros:
  "sub_both r x y \<Longrightarrow> sub_both r (TList x) (TList y)"
  "sub_both r x y \<Longrightarrow> sub_both r (TSet x) (TSet y)"
  "sub_both r x y \<Longrightarrow> sub_both r (TOption x) (TOption y)"
  "sub_both r x y \<Longrightarrow> sub_both r u v \<Longrightarrow> sub_both r (TMap x u) (TMap y v)"
  "sub_both r x y \<Longrightarrow> sub_both r u v \<Longrightarrow> sub_both r (TResult x u) (TResult y v)"
  "param_ref_eq p q \<Longrightarrow> sub_both r (TParam p) (TParam q)"
  "atomic a \<Longrightarrow> sub_both r a a" "sub_both r TUnknown TUnknown" "sub_both r TDyn TDyn"
  "sub_both r TNever TNever" "sub_both r (TDynTrait t) (TDynTrait t)"
  by (auto simp: sub_both_def param_ref_eq_def intro: sub.intros)

lemma ty_eq_imp_sub_both: "ty_eq a b \<Longrightarrow> sub_both r a b"
proof (induction a arbitrary: b)
  case (TNamed n xs)
  then show ?case by (cases b) (auto intro: sub_both_named sub_both_lists)
next
  case (TUnion xs)
  then show ?case by (cases b) (auto intro: sub_both_union sub_both_lists)
next
  case (TTuple xs)
  then show ?case by (cases b) (auto intro: sub_both_tuple sub_both_lists)
next
  case (TFn xs x)
  then show ?case by (cases b) (auto intro: sub_both_fn sub_both_lists)
qed (case_tac b; auto simp: atomic_def intro: sub_both_intros)+

text \<open>
  Identity is never a widening: two types the code calls equal (parameters compared by
  identity, not by spelling) are related both ways in every position, the invariant ones included,
  so a union, a trait object or \<open>dyn\<close> inside an invariant argument is compatible with itself.
\<close>

theorem subtype_at_reflexive: "ty_eq a b \<Longrightarrow> subtype_at r w a b \<and> subtype_at r w b a"
  using ty_eq_imp_sub_both [of a b r] by (simp add: sub_both_def sub_imp_subtype_at)

theorem subtype_at_reflexive_witness:
  "subtype_at NoRegistry False (TNamed ''Box'' [TUnion [TInt, TParam \<lparr>pr_id = param_synthetic 3, pr_name = ''T''\<rparr>]])
     (TNamed ''Box'' [TUnion [TInt, TParam \<lparr>pr_id = param_synthetic 3, pr_name = ''U''\<rparr>]])"
proof -
  have "ty_eq (TNamed ''Box'' [TUnion [TInt, TParam \<lparr>pr_id = param_synthetic 3, pr_name = ''T''\<rparr>]])
     (TNamed ''Box'' [TUnion [TInt, TParam \<lparr>pr_id = param_synthetic 3, pr_name = ''U''\<rparr>]])"
    by (simp add: param_ref_eq_def)
  from subtype_at_reflexive [OF this] show ?thesis by simp
qed

section \<open>Every rule only ever admits\<close>

definition rules_le :: "nominal_rules \<Rightarrow> nominal_rules \<Rightarrow> bool" where
  "rules_le r r' =
     ((\<forall>n k. is_of_kind r n k \<longrightarrow> is_of_kind r' n k) \<and>
      (\<forall>n t. implements_trait r n t \<longrightarrow> implements_trait r' n t) \<and>
      (\<forall>n i. covariant_arg r n i \<longrightarrow> covariant_arg r' n i))"

lemma sub_mono:
  assumes "sub r w a b" and "rules_le r r'" and "w \<longrightarrow> w'"
  shows "sub r' w' a b"
  using assms
proof (induction arbitrary: w' rule: sub.induct)
  case (unions xs ys w)
  have 1: "\<forall>x \<in> set xs. \<exists>y \<in> set ys. sub r' w' x y"
    using unions.IH(1) unions.prems by (fast elim: bexE intro: bexI)
  have 2: "w' \<or> (\<forall>y \<in> set ys. \<exists>x \<in> set xs. sub r' w' x y)"
    using unions.IH(2) unions.prems by (fast elim: bexE intro: bexI)
  from 1 2 show ?case by (rule sub.unions)
next
  case (tuple w xs ys)
  then have "list_all2 (sub r' w') xs ys" by (auto elim!: list_all2_mono)
  then show ?case by (rule sub.tuple)
next
  case (fn w ps qs x y)
  then have "list_all2 (\<lambda>p q. sub r' w' q p) ps qs" by (auto elim!: list_all2_mono)
  with fn show ?case by (simp add: sub.fn)
next
  case (named xs ys w n)
  then have "(w \<and> covariant_arg r n i) \<longrightarrow> (w' \<and> covariant_arg r' n i)" for i
    by (auto simp: rules_le_def)
  with named show ?case by (intro sub.named) blast+
next
  case (union_r w a y ys)
  then show ?case by (intro sub.union_r [where y = y]) auto
qed (simp_all add: rules_le_def sub.intros)

text \<open>
  Every registry rule and every admitted widening only ever adds pairs: a registry that knows
  more, or a position that admits a widening, relates at least the pairs it related before. So the
  pure lattice (\<open>Type::subtype\<close>) is the least of the relations the checker uses.
\<close>

theorem subtype_at_monotone:
  "\<lbrakk>subtype_at r w a b; rules_le r r'; w \<longrightarrow> w'\<rbrakk> \<Longrightarrow> subtype_at r' w' a b"
  using sub_mono [of r w a b r' w'] by (auto intro: sub_imp_subtype_at dest!: subtype_at_imp_sub)

lemma rules_le_NoRegistry: "rules_le NoRegistry r"
  by (simp add: rules_le_def NoRegistry_def)

theorem subtype_at_monotone_witness:
  "subtype (TList TInt) (TList (TUnion [TInt, TString])) \<and>
   subtype_with (TList TInt) (TList (TUnion [TInt, TString]))
     (NoRegistry\<lparr>implements_trait := \<lambda>n t. n = ''Dog'' \<and> t = ''Speak''\<rparr>)"
proof -
  have pure: "subtype_at NoRegistry True (TList TInt) (TList (TUnion [TInt, TString]))" by code_simp
  show ?thesis
    using pure subtype_at_monotone [OF pure rules_le_NoRegistry, of True]
    by (simp add: subtype_def subtype_with_def)
qed

section \<open>Transitivity\<close>

text \<open>
  The closed types: no inference hole, no trait object, every nominal type applied to the number of
  arguments its declaration has and to no bare \<open>dyn\<close>, and unions in the normal form of
  \<open>Type::union\<close>. The two gradual escapes and the trait-object rule are outside.
\<close>

fun closed_ty :: "(string \<Rightarrow> nat) \<Rightarrow> ty \<Rightarrow> bool" where
  "closed_ty ar TUnknown = False"
| "closed_ty ar (TDynTrait _) = False"
| "closed_ty ar (TList t) = closed_ty ar t"
| "closed_ty ar (TSet t) = closed_ty ar t"
| "closed_ty ar (TOption t) = closed_ty ar t"
| "closed_ty ar (TMap t u) = (closed_ty ar t \<and> closed_ty ar u)"
| "closed_ty ar (TResult t u) = (closed_ty ar t \<and> closed_ty ar u)"
| "closed_ty ar (TNamed n ts) = (length ts = ar n \<and> (\<forall>t \<in> set ts. t \<noteq> TDyn \<and> closed_ty ar t))"
| "closed_ty ar (TFn ts t) = ((\<forall>t \<in> set ts. closed_ty ar t) \<and> closed_ty ar t)"
| "closed_ty ar (TUnion ts) = (union_nf (TUnion ts) \<and> (\<forall>t \<in> set ts. closed_ty ar t))"
| "closed_ty ar (TTuple ts) = (\<forall>t \<in> set ts. closed_ty ar t)"
| "closed_ty ar _ = True"

inductive_cases sub_to_never: "sub r w a TNever"
inductive_cases sub_to_dyn: "sub r w a TDyn"
inductive_cases sub_from_dyn: "sub r w TDyn b"
inductive_cases sub_to_union: "sub r w a (TUnion ys)"
inductive_cases sub_from_union: "sub r w (TUnion xs) b"

lemma closed_union:
  assumes "closed_ty ar (TUnion ts)"
  shows "ts \<noteq> []" and "t \<in> set ts \<Longrightarrow> t \<noteq> TDyn \<and> t \<noteq> TNever \<and> \<not> is_union t \<and> closed_ty ar t"
  using assms by (auto simp: union_nf_def)

lemma sub_never_closed: "sub r w a TNever \<Longrightarrow> closed_ty ar a \<Longrightarrow> a = TNever"
proof (erule sub_to_never)
  fix xs assume *: "a = TUnion xs" "closed_ty ar a" "\<forall>x \<in> set xs. sub r w x TNever"
  then obtain x where x: "x \<in> set xs" using closed_union(1) by (metis last_in_set)
  with * closed_union(2) [of ar xs x] have "sub r w x TNever" "x \<noteq> TNever" "\<not> is_union x" "closed_ty ar x"
    by auto
  then show ?thesis by (auto elim: sub_to_never)
qed auto

lemma sub_dyn_closed:
  assumes "sub r w a TDyn" and "closed_ty ar a" and "\<not> w"
  shows "a = TDyn \<or> a = TNever"
  using assms(1)
proof (rule sub_to_dyn)
  fix xs assume *: "a = TUnion xs" "\<forall>x \<in> set xs. sub r w x TDyn"
  then obtain x where x: "x \<in> set xs" using closed_union(1) assms(2) by (metis last_in_set)
  with * assms closed_union(2) [of ar xs x]
  have "sub r w x TDyn" "x \<noteq> TDyn" "x \<noteq> TNever" "\<not> is_union x" "closed_ty ar x" by auto
  with assms(3) show ?thesis by (auto elim: sub_to_dyn)
qed (use assms in auto)

lemma sub_from_dyn_closed: "sub r w TDyn c \<Longrightarrow> closed_ty ar c \<Longrightarrow> c = TDyn"
  by (auto elim: sub_from_dyn simp: atomic_def)

lemma sub_into_union:
  assumes "sub r w b (TUnion zs)" and "closed_ty ar b" and "\<not> is_union b" and "b \<noteq> TNever"
  shows "w" and "\<exists>z \<in> set zs. sub r w b z" and "b \<noteq> TDyn"
  using assms(1) by (rule sub_to_union; insert assms(2-4), auto simp: atomic_def)+

lemma sub_member_of_union:
  assumes "sub r w (TUnion ys) c" and "closed_ty ar (TUnion ys)" and "closed_ty ar c"
    and "w \<or> \<not> is_union c" and "y \<in> set ys"
  shows "sub r w y c"
  using assms(1)
proof (rule sub_from_union)
  fix zs assume c: "c = TUnion zs" "\<forall>x \<in> set ys. \<exists>z \<in> set zs. sub r w x z"
  with assms(5) obtain z where "z \<in> set zs" "sub r w y z" by blast
  with c assms(4) closed_union(2) [OF assms(2,5)] show ?thesis by (auto intro: sub.union_r)
qed (use assms in \<open>auto simp: atomic_def intro: sub.intros\<close>)

lemma sub_union_of_members:
  assumes "\<forall>x \<in> set xs. sub r w x c" and "closed_ty ar (TUnion xs)" and "closed_ty ar c"
  shows "sub r w (TUnion xs) c"
proof (cases "is_union c")
  case True
  then obtain zs where c: "c = TUnion zs" by (auto simp: is_union_def)
  have into: "w \<and> (\<exists>z \<in> set zs. sub r w x z)" if "x \<in> set xs" for x
    using assms(1) that sub_into_union [of r w x zs ar] closed_union(2) [OF assms(2) that] c by blast
  moreover have "xs \<noteq> []" using closed_union(1) [OF assms(2)] .
  ultimately have "w" by (metis last_in_set)
  with into show ?thesis unfolding c by (intro sub.unions) auto
next
  case False
  moreover have "\<not> is_dyn_trait c" using assms(3) by (auto simp: is_dyn_trait_def)
  ultimately show ?thesis using assms(1) by (rule sub.union_l)
qed

definition trans_ih :: "nominal_rules \<Rightarrow> (string \<Rightarrow> nat) \<Rightarrow> nat \<Rightarrow> bool" where
  "trans_ih r ar k =
     (\<forall>x y z w. size x + size y + size z < k \<longrightarrow> closed_ty ar x \<longrightarrow> closed_ty ar y \<longrightarrow> closed_ty ar z \<longrightarrow>
        sub r w x y \<longrightarrow> sub r w y z \<longrightarrow> sub r w x z)"

lemma trans_ihD:
  "\<lbrakk>trans_ih r ar k; sub r w x y; sub r w y z; closed_ty ar x; closed_ty ar y; closed_ty ar z;
    size x + size y + size z < k\<rbrakk> \<Longrightarrow> sub r w x z"
  unfolding trans_ih_def by blast

inductive_cases sub_from_list: "sub r w (TList x) b"
inductive_cases sub_from_set: "sub r w (TSet x) b"
inductive_cases sub_from_option: "sub r w (TOption x) b"
inductive_cases sub_from_map: "sub r w (TMap x u) b"
inductive_cases sub_from_result: "sub r w (TResult x u) b"
inductive_cases sub_from_tuple: "sub r w (TTuple xs) b"
inductive_cases sub_from_fn: "sub r w (TFn xs x) b"
inductive_cases sub_from_named: "sub r w (TNamed n xs) b"
inductive_cases sub_from_param: "sub r w (TParam p) b"

definition plain :: "ty \<Rightarrow> bool" where
  "plain t = (\<not> is_union t \<and> t \<noteq> TDyn \<and> t \<noteq> TNever)"

lemma trans_nth:
  assumes "trans_ih r ar k" and "size_list size xs + size_list size ys + size_list size zs < k"
    and "\<forall>t \<in> set xs \<union> set ys \<union> set zs. closed_ty ar t"
    and "i < length xs" "i < length ys" "i < length zs"
    and "sub r w (xs ! i) (ys ! i)" "sub r w (ys ! i) (zs ! i)"
  shows "sub r w (xs ! i) (zs ! i)"
proof -
  have "size (xs ! i) \<le> size_list size xs" "size (ys ! i) \<le> size_list size ys"
    "size (zs ! i) \<le> size_list size zs"
    using assms(4-6) by (auto intro!: size_elem_le)
  then show ?thesis
    using assms by (intro trans_ihD [OF assms(1,7,8)]) auto
qed

lemma sub_between_plain:
  assumes "closed_ty ar c" and "plain c"
  shows "sub r w (TList y) c \<Longrightarrow> \<exists>z. c = TList z \<and> sub r w y z"
    and "sub r w (TSet y) c \<Longrightarrow> \<exists>z. c = TSet z \<and> sub r w y z"
    and "sub r w (TOption y) c \<Longrightarrow> \<exists>z. c = TOption z \<and> sub r w y z"
    and "sub r w (TMap y v) c \<Longrightarrow> \<exists>z t. c = TMap z t \<and> sub r w y z \<and> sub r w v t"
    and "sub r w (TResult y v) c \<Longrightarrow> \<exists>z t. c = TResult z t \<and> sub r w y z \<and> sub r w v t"
    and "sub r w (TTuple ys) c \<Longrightarrow> \<exists>zs. c = TTuple zs \<and> list_all2 (sub r w) ys zs"
    and "sub r w (TFn ys y) c \<Longrightarrow>
      \<exists>zs z. c = TFn zs z \<and> list_all2 (\<lambda>p q. sub r w q p) ys zs \<and> sub r w y z"
    and "sub r w (TParam p) c \<Longrightarrow> \<exists>q. c = TParam q \<and> pr_id p = pr_id q"
    and "sub r w (TNamed n ys) c \<Longrightarrow> closed_ty ar (TNamed n ys) \<Longrightarrow>
      (\<exists>zs. c = TNamed n zs \<and> length ys = length zs \<and>
        (\<forall>i < length ys. sub r (w \<and> covariant_arg r n i) (ys ! i) (zs ! i))) \<or>
      (\<exists>k. c = TKind k \<and> w \<and> is_of_kind r n k)"
          apply (erule sub_from_list; use assms in \<open>auto simp: plain_def atomic_def\<close>)
         apply (erule sub_from_set; use assms in \<open>auto simp: plain_def atomic_def\<close>)
        apply (erule sub_from_option; use assms in \<open>auto simp: plain_def atomic_def\<close>)
       apply (erule sub_from_map; use assms in \<open>auto simp: plain_def atomic_def\<close>)
      apply (erule sub_from_result; use assms in \<open>auto simp: plain_def atomic_def\<close>)
     apply (erule sub_from_tuple; use assms in \<open>auto simp: plain_def atomic_def\<close>)
    apply (erule sub_from_fn; use assms in \<open>auto simp: plain_def atomic_def\<close>)
   apply (erule sub_from_param; use assms in \<open>auto simp: plain_def atomic_def\<close>)
  apply (erule sub_from_named; use assms in \<open>auto simp: plain_def atomic_def\<close>)
  done

lemma trans_struct:
  assumes "sub r w a b" and "sub r w b c" and "closed_ty ar a" "closed_ty ar b" "closed_ty ar c"
    and "plain a" "plain b" "plain c" and ih: "trans_ih r ar (size a + size b + size c)"
  shows "sub r w a c"
  using assms(1)
proof (cases rule: sub.cases)
  case (list x y)
  then obtain z where "c = TList z" "sub r w y z"
    using assms(2) sub_between_plain(1) [OF assms(5,8)] by blast
  with list assms(3-5) trans_ihD [OF ih, of w x y z] show ?thesis by (simp add: sub.list)
next
  case (set x y)
  then obtain z where "c = TSet z" "sub r w y z"
    using assms(2) sub_between_plain(2) [OF assms(5,8)] by blast
  with set assms(3-5) trans_ihD [OF ih, of w x y z] show ?thesis by (simp add: sub.set)
next
  case (option x y)
  then obtain z where "c = TOption z" "sub r w y z"
    using assms(2) sub_between_plain(3) [OF assms(5,8)] by blast
  with option assms(3-5) trans_ihD [OF ih, of w x y z] show ?thesis by (simp add: sub.option)
next
  case (map x y u v)
  then obtain z t where "c = TMap z t" "sub r w y z" "sub r w v t"
    using assms(2) sub_between_plain(4) [OF assms(5,8)] by blast
  with map assms(3-5) trans_ihD [OF ih, of w x y z] trans_ihD [OF ih, of w u v t]
  show ?thesis by (simp add: sub.map)
next
  case (result x y u v)
  then obtain z t where "c = TResult z t" "sub r w y z" "sub r w v t"
    using assms(2) sub_between_plain(5) [OF assms(5,8)] by blast
  with result assms(3-5) trans_ihD [OF ih, of w x y z] trans_ihD [OF ih, of w u v t]
  show ?thesis by (simp add: sub.result)
next
  case (tuple xs ys)
  then obtain zs where c: "c = TTuple zs" "list_all2 (sub r w) ys zs"
    using assms(2) sub_between_plain(6) [OF assms(5,8)] by blast
  have "sub r w (xs ! i) (zs ! i)" if "i < length xs" for i
    using that c(2) tuple assms(3-5) by (intro trans_nth [OF ih, of xs ys zs]) (auto simp: c(1) list_all2_conv_all_nth)
  then show ?thesis
    unfolding c(1) tuple(1) using c(2) tuple(3) by (intro sub.tuple) (auto simp: list_all2_conv_all_nth)
next
  case (fn ps qs x y)
  then obtain rs z where c: "c = TFn rs z" "list_all2 (\<lambda>p q. sub r w q p) qs rs" "sub r w y z"
    using assms(2) sub_between_plain(7) [OF assms(5,8)] by blast
  with fn assms(3-5) have "sub r w x z" by (intro trans_ihD [OF ih, of w x y z]) auto
  moreover have "sub r w (rs ! i) (ps ! i)" if "i < length ps" for i
    using that c(2) fn assms(3-5) by (intro trans_nth [OF ih, of rs qs ps]) (auto simp: c(1) list_all2_conv_all_nth)
  ultimately show ?thesis
    unfolding c(1) fn(1) using c(2) fn(3) by (intro sub.fn) (auto simp: list_all2_conv_all_nth)
next
  case (named xs ys n)
  with sub_between_plain(9) [OF assms(5,8)] assms(2,4)
  consider (n) zs where "c = TNamed n zs" "length ys = length zs"
      "\<forall>i < length ys. sub r (w \<and> covariant_arg r n i) (ys ! i) (zs ! i)"
    | (k) k where "c = TKind k" "w" "is_of_kind r n k" by blast
  then show ?thesis
  proof cases
    case n
    have "sub r (w \<and> covariant_arg r n i) (xs ! i) (zs ! i)" if "i < length xs" for i
      using that named n assms(3-5) by (intro trans_nth [OF ih, of xs ys zs]) auto
    with n named show ?thesis by (simp add: sub.named)
  qed (use named in \<open>auto intro: sub.intros\<close>)
next
  case (named_open xs ys n)
  with assms(3,4) have "xs = []" "ys = []" by auto
  with named_open assms(2) show ?thesis by simp
next
  case (param p q)
  with assms(2) obtain q' where "c = TParam q'" "pr_id q = pr_id q'"
    using sub_between_plain(8) [OF assms(5,8)] by blast
  with param show ?thesis by (simp add: sub.param)
next
  case (kind_member n k xs)
  with assms(2,5,8) show ?thesis
    by (auto simp: plain_def atomic_def intro: sub.kind_member elim: sub.cases)
next
  case atom
  with assms(2) show ?thesis by simp
qed (use assms in \<open>simp_all add: plain_def\<close>)

lemma sub_unions_iff:
  assumes "closed_ty ar (TUnion xs)" and "closed_ty ar (TUnion ys)"
  shows "sub r w (TUnion xs) (TUnion ys) \<longleftrightarrow>
    (\<forall>x \<in> set xs. \<exists>y \<in> set ys. sub r w x y) \<and> (w \<or> (\<forall>y \<in> set ys. \<exists>x \<in> set xs. sub r w x y))"
  by (auto intro: sub.unions elim: sub_from_union simp: atomic_def)

text \<open>From a union through a step that is not between two unions: each member takes it.\<close>

lemma sub_trans_members:
  assumes "trans_ih r ar (size a + size b + size c)" and "sub r w a b" and "sub r w b c"
    and "closed_ty ar a" "closed_ty ar b" "closed_ty ar c" and "a = TUnion xs"
    and "\<not> (is_union b \<and> is_union c)" and "x \<in> set xs"
  shows "sub r w x c"
proof (cases "is_union b")
  case False
  then have "sub r w x b"
    using assms(2,4,5,7,9) by (intro sub_member_of_union [of r w xs b ar x]) auto
  then show ?thesis
    using assms size_elem_le [of x xs] by (intro trans_ihD [OF assms(1), of w x b c]) auto
next
  case True
  then obtain ys where b: "b = TUnion ys" by (auto simp: is_union_def)
  with assms(2,4,5,7,9) sub_unions_iff [of ar xs ys r w]
  obtain y where y: "y \<in> set ys" "sub r w x y" by blast
  then have "sub r w y c"
    using assms(3,5,6,8) b by (intro sub_member_of_union [of r w ys c ar y]) auto
  with y show ?thesis
    using assms b size_elem_le [of x xs] size_elem_le [of y ys]
    by (intro trans_ihD [OF assms(1), of w x y c]) auto
qed

lemma sub_trans_closed:
  "\<lbrakk>sub r w a b; sub r w b c; closed_ty ar a; closed_ty ar b; closed_ty ar c\<rbrakk> \<Longrightarrow> sub r w a c"
proof (induction "size a + size b + size c" arbitrary: a b c w rule: less_induct)
  case less
  have ih: "trans_ih r ar (size a + size b + size c)"
    unfolding trans_ih_def using less.hyps by blast
  note step = trans_ihD [OF ih]
  consider (never) "a = TNever \<or> b = TNever" | (top) "c = TDyn" | (dyn) "b = TDyn"
    | (ua) xs where "a = TUnion xs" "b \<noteq> TNever"
    | (ub) ys where "b = TUnion ys" "\<not> is_union a" "a \<noteq> TNever"
    | (uc) zs where "c = TUnion zs" "\<not> is_union a" "\<not> is_union b" "a \<noteq> TNever" "b \<noteq> TNever" "b \<noteq> TDyn"
    | (adyn) "a = TDyn" | (cnever) "c = TNever"
    | (plain) "plain a" "plain b" "plain c"
    unfolding plain_def is_union_def by blast
  then show ?case
  proof cases
    case never
    then have "a = TNever" using less.prems sub_never_closed by blast
    then show ?thesis by (simp add: sub.bottom)
  next
    case top
    show ?thesis
    proof (cases w)
      case False
      with less.prems top have "b = TDyn \<or> b = TNever" by (blast dest: sub_dyn_closed)
      with less.prems top show ?thesis using sub_never_closed by (blast intro: sub.bottom)
    qed (simp add: top sub.top)
  next
    case dyn
    with less.prems show ?thesis by (blast dest: sub_from_dyn_closed)
  next
    case adyn
    with less.prems have "b = TDyn" by (blast dest: sub_from_dyn_closed)
    with less.prems adyn show ?thesis by simp
  next
    case cnever
    with less.prems have "b = TNever" by (blast dest: sub_never_closed)
    with less.prems cnever show ?thesis by simp
  next
    case plain
    with less.prems ih show ?thesis by (intro trans_struct [of r w a b c ar])
  next
    case (uc zs)
    with less.prems sub_into_union [of r w b zs ar]
    obtain z where z: "w" "z \<in> set zs" "sub r w b z" by blast
    then have "sub r w a z"
      using less.prems uc size_elem_le [of z zs] by (intro step [of w a b z]) auto
    moreover have "a \<noteq> TDyn" using less.prems uc by (blast dest: sub_from_dyn_closed)
    ultimately show ?thesis using uc z by (auto intro: sub.union_r)
  next
    case (ub ys)
    with less.prems sub_into_union [of r w a ys ar]
    obtain y where y: "w" "y \<in> set ys" "sub r w a y" by blast
    with ub less.prems have "sub r w y c" by (intro sub_member_of_union [of r w ys c ar y]) auto
    then show ?thesis
      using less.prems ub y size_elem_le [of y ys] by (intro step [of w a y c]) auto
  next
    case (ua xs)
    show ?thesis
    proof (cases "is_union b \<and> is_union c")
      case True
      then obtain ys zs where bc: "b = TUnion ys" "c = TUnion zs" by (auto simp: is_union_def)
      have mem: "sub r w x z" if "x \<in> set xs" "y \<in> set ys" "z \<in> set zs" "sub r w x y" "sub r w y z" for x y z
        using that less.prems ua bc size_elem_le [of x xs] size_elem_le [of y ys] size_elem_le [of z zs]
        by (intro step [of w x y z]) auto
      with sub_unions_iff [of ar xs ys r w] sub_unions_iff [of ar ys zs r w] less.prems ua bc
      show ?thesis by (auto simp: sub_unions_iff [of ar xs zs r w]; meson)
    next
      case False
      then have members: "sub r w x c" if "x \<in> set xs" for x
        using sub_trans_members [OF ih less.prems ua(1) _ that] by blast
      with less.prems ua show ?thesis by (auto intro: sub_union_of_members [of xs r w c ar])
    qed
  qed
qed



section \<open>Leaving \<open>dyn\<close>, and unions below a trait object\<close>

text \<open>
  Exactly what \<open>dyn\<close> flows into, in every position: itself, an inference hole and any trait
  object. The last is the implicit narrowing that the documentation of \<open>Type::subtype\<close> rules out
  (\<open>dyn <: T\<close> is false) and that the arm for trait objects admits through \<open>defers_to_runtime\<close>.
\<close>

theorem subtype_from_dyn:
  "subtype_at r w TDyn b \<longleftrightarrow> b = TDyn \<or> b = TUnknown \<or> is_dyn_trait b"
  by (cases b) (simp_all add: subtype_at.simps [of r w TDyn] walk_simps)

text \<open>
  A union is never below a trait object, even when every member implements the trait, while it
  is below an abstract kind exactly when every member is. So the relation with trait objects is not
  transitive: a union below \<open>dyn\<close>, and \<open>dyn\<close> below the trait object, do not compose.
\<close>

theorem subtype_union_trait_object:
  "\<not> subtype_at r w (TUnion ms) (TDynTrait t) \<and>
   (subtype_at r w (TUnion ms) (TKind k) \<longleftrightarrow> (\<forall>m. m \<in> set ms \<longrightarrow> subtype_at r w m (TKind k))) \<and>
   (subtype_at r True (TUnion ms) TDyn \<and> subtype_at r True TDyn (TDynTrait t))"
  by (auto simp: subtype_at.simps [of r w "TUnion ms"] walk_simps)

theorem subtype_union_trait_object_witness:
  "let r = NoRegistry\<lparr>implements_trait := \<lambda>n t. t = ''Speak''\<rparr> in
   subtype_at r True (TNamed ''Dog'' []) (TDynTrait ''Speak'') \<and>
   subtype_at r True (TNamed ''Cat'' []) (TDynTrait ''Speak'') \<and>
   \<not> subtype_at r True (TUnion [TNamed ''Dog'' [], TNamed ''Cat'' []]) (TDynTrait ''Speak'')"
  unfolding Let_def
  using subtype_union_trait_object [of "NoRegistry\<lparr>implements_trait := \<lambda>n t. t = ''Speak''\<rparr>" True
      "[TNamed ''Dog'' [], TNamed ''Cat'' []]" "''Speak''" KEnum]
  by simp

section \<open>The numeric tower as a bound\<close>

lemma subtype_at_single_union:
  "\<lbrakk>\<not> is_union a; a \<noteq> TUnknown; a \<noteq> TNever\<rbrakk> \<Longrightarrow>
   subtype_at r True a (TUnion ms) = (a \<noteq> TDyn \<and> list_ex (subtype_at r True a) (members (TUnion ms)))"
  by (subst subtype_at.simps) (simp add: is_gradual_def)

lemma subtype_at_numeric_scalar:
  assumes "\<not> is_union a" and "a \<noteq> TUnknown" and "a \<noteq> TNever"
  shows "subtype_at r w a TInt = ty_eq a TInt" "subtype_at r w a TFloat = ty_eq a TFloat"
    "subtype_at r w a TF32 = ty_eq a TF32" "subtype_at r w a TF64 = ty_eq a TF64"
    "subtype_at r w a (TIntN s bits) = ty_eq a (TIntN s bits)"
  by (subst subtype_at.simps, use assms in \<open>cases a; simp add: is_gradual_def leaf_arm_def\<close>)+

lemma arith_numeric_members:
  "arith_numeric = TUnion [TInt, TFloat, TF32, TF64, TIntN True 8, TIntN False 8, TIntN True 16,
     TIntN False 16, TIntN True 32, TIntN False 32, TIntN True 64, TIntN False 64]"
  by code_simp

text \<open>
  The bound \<open>number\<close> and the predicate agree: a single concrete type is a subtype of
  \<open>Type::arith_numeric\<close> exactly when \<open>is_arith_numeric\<close> answers yes for it and its width is one the
  language has, so widening the tower in one of the two without the other cannot go unnoticed.
\<close>

theorem number_bound_is_predicate:
  assumes "\<not> is_union a" and "a \<noteq> TUnknown" and "a \<noteq> TNever"
  shows "subtype_with a arith_numeric r \<longleftrightarrow>
    is_arith_numeric a \<and> (\<forall>s bits. a = TIntN s bits \<longrightarrow> bits = 8 \<or> bits = 16 \<or> bits = 32 \<or> bits = 64)"
proof -
  note leaf = subtype_at_numeric_scalar [OF assms, of r True]
  have "subtype_with a arith_numeric r =
      (a \<noteq> TDyn \<and> list_ex (subtype_at r True a) (members arith_numeric))"
    unfolding subtype_with_def arith_numeric_members using assms by (rule subtype_at_single_union)
  also have "\<dots> = (a \<noteq> TDyn \<and> list_ex (ty_eq a) (members arith_numeric))"
    unfolding arith_numeric_members by (simp add: leaf)
  finally show ?thesis
    by (cases a) (auto simp: arith_numeric_members is_arith_numeric_def)
qed

theorem number_bound_is_predicate_witness:
  "subtype_with (TIntN False 16) arith_numeric NoRegistry"
  using number_bound_is_predicate [of "TIntN False 16" NoRegistry] by (simp add: is_arith_numeric_def)

text \<open>
  \<open>is_arith_numeric_union\<close>, which decides whether a diagnostic prints \<open>number\<close>, compares as a
  set: among normalised unions it accepts exactly those with the members of the numeric tower, in
  any order.
\<close>

theorem number_union_is_set_comparison:
  assumes "union_nf (TUnion ms)"
  shows "is_arith_numeric_union (TUnion ms) \<longleftrightarrow>
    erase_spelling ` set ms = set (members arith_numeric)"
proof -
  let ?all = "members arith_numeric"
  have all: "distinct ?all" "map erase_spelling ?all = ?all"
    by (simp_all add: arith_numeric_members)
  have dist: "distinct (map erase_spelling ms)" using assms by (simp add: union_nf_def)
  have "is_arith_numeric_union (TUnion ms) \<longleftrightarrow>
      length (map erase_spelling ms) = length ?all \<and> set ?all \<subseteq> set (map erase_spelling ms)"
    using all(2) by (auto simp: is_arith_numeric_union_def arith_numeric_members list_all_iff ty_contains_erase)
  also have "\<dots> \<longleftrightarrow> set (map erase_spelling ms) = set ?all"
    using dist all(1)
    by (metis List.finite_set card_subset_eq distinct_card order_refl)
  finally show ?thesis by simp
qed

theorem number_union_is_set_comparison_witness:
  "is_arith_numeric_union (TUnion (rev (members arith_numeric)))"
proof -
  have "union_nf (TUnion (rev (members arith_numeric)))"
    by (simp add: arith_numeric_members union_nf_def)
  from number_union_is_set_comparison [OF this] show ?thesis
    by (simp add: arith_numeric_members insert_commute)
qed

end
