(* ===== verification/Builtin_Traits.thy ===== *)
theory Builtin_Traits
  imports Type_Lattice
begin

text \<open>
  The built-in trait registry (\<open>crates/noeta-types/src/traits.rs\<close>), the binary operators and how
  they dispatch (\<open>BinaryOp\<close> in \<open>crates/noeta-ast/src/lib.rs\<close>), and the extension ABI's own list of
  trait names (\<open>crates/noeta-ext-abi/src/registry.rs\<close>). The lemmas tie the three tables together.
\<close>

section \<open>Binary operators\<close>

datatype binary_op =
    OpAdd | OpSub | OpMul | OpDiv | OpRem | OpConcat | OpEq | OpNe | OpIdentity | OpNotIdentity
  | OpLt | OpLe | OpGt | OpGe | OpAnd | OpOr | OpBitAnd | OpBitOr | OpBitXor | OpShl | OpShr

fun op_symbol :: "binary_op \<Rightarrow> string" where
  "op_symbol OpAdd = ''+''"
| "op_symbol OpSub = ''-''"
| "op_symbol OpMul = ''*''"
| "op_symbol OpDiv = ''/''"
| "op_symbol OpRem = ''%''"
| "op_symbol OpConcat = ''~''"
| "op_symbol OpEq = ''==''"
| "op_symbol OpNe = ''!=''"
| "op_symbol OpIdentity = ''===''"
| "op_symbol OpNotIdentity = ''!==''"
| "op_symbol OpLt = ''<''"
| "op_symbol OpLe = ''<=''"
| "op_symbol OpGt = ''>''"
| "op_symbol OpGe = ''>=''"
| "op_symbol OpAnd = ''&&''"
| "op_symbol OpOr = ''||''"
| "op_symbol OpBitAnd = ''&''"
| "op_symbol OpBitOr = ''|''"
| "op_symbol OpBitXor = ''^''"
| "op_symbol OpShl = ''<<''"
| "op_symbol OpShr = ''>>''"

definition overload_method :: "binary_op \<Rightarrow> string option" where
  "overload_method op =
     (case op of OpAdd \<Rightarrow> Some ''add'' | OpSub \<Rightarrow> Some ''sub'' | OpMul \<Rightarrow> Some ''mul''
      | OpDiv \<Rightarrow> Some ''div'' | OpConcat \<Rightarrow> Some ''concat'' | _ \<Rightarrow> None)"

definition equatable_negation :: "binary_op \<Rightarrow> bool option" where
  "equatable_negation op = (case op of OpEq \<Rightarrow> Some False | OpNe \<Rightarrow> Some True | _ \<Rightarrow> None)"

definition COMPARE_METHOD :: string where
  "COMPARE_METHOD = ''compare''"

definition comparable_method :: "binary_op \<Rightarrow> string option" where
  "comparable_method op =
     (if op = OpLt \<or> op = OpLe \<or> op = OpGt \<or> op = OpGe then Some COMPARE_METHOD else None)"

definition ORDERING_VARIANTS :: "string list" where
  "ORDERING_VARIANTS = [''Less'', ''Equal'', ''Greater'']"

definition ordering_satisfies :: "binary_op \<Rightarrow> string \<Rightarrow> bool" where
  "ordering_satisfies op variant =
     (let less = variant = ''Less''; equal = variant = ''Equal''; greater = variant = ''Greater'' in
      case op of
        OpLt \<Rightarrow> less
      | OpLe \<Rightarrow> less \<or> equal
      | OpGt \<Rightarrow> greater
      | OpGe \<Rightarrow> greater \<or> equal
      | _ \<Rightarrow> False)"

section \<open>The trait table\<close>

datatype builtin_trait =
    TrAdd | TrSub | TrMul | TrDiv | TrConcat | TrEquatable | TrComparable | TrDisplay | TrError
  | TrFrom | TrClone | TrSerialize | TrDeserialize | TrIndex | TrLength | TrIterable | TrCallable
  | TrMembers | TrDynamicCall | TrTryAdd | TrValidate | TrTo

datatype fixed_return = FixedBool | FixedOrdering

definition ORDERING_ENUM :: string where
  "ORDERING_ENUM = ''Ordering''"

fun fixed_return_name :: "fixed_return \<Rightarrow> string" where
  "fixed_return_name FixedBool = ''bool''"
| "fixed_return_name FixedOrdering = ORDERING_ENUM"

fun fixed_return_type :: "fixed_return \<Rightarrow> ty" where
  "fixed_return_type FixedBool = TBool"
| "fixed_return_type FixedOrdering = TNamed ORDERING_ENUM []"

datatype conversion_role = FromSource | ToTarget

definition arg_is_return :: "conversion_role \<Rightarrow> bool" where
  "arg_is_return c = (c = ToTarget)"

fun conversion_relation :: "conversion_role \<Rightarrow> string \<Rightarrow> string \<Rightarrow> string \<times> string" where
  "conversion_relation FromSource own arg = (arg, own)"
| "conversion_relation ToTarget own arg = (own, arg)"

definition FROM_TRAIT :: string where "FROM_TRAIT = ''From''"
definition FROM_METHOD :: string where "FROM_METHOD = ''from''"
definition TO_TRAIT :: string where "TO_TRAIT = ''To''"
definition TO_METHOD :: string where "TO_METHOD = ''to''"

record trait_info =
  ti_name :: string
  ti_required_method :: "(string \<times> nat option) option"
  ti_operator :: "binary_op option"
  ti_builtin_recipe :: bool
  ti_fixed_return :: "fixed_return option"
  ti_declares_static :: bool
  ti_generic_arity :: nat
  ti_conversion :: "conversion_role option"

definition info_defaults :: trait_info where
  "info_defaults =
     \<lparr>ti_name = [], ti_required_method = None, ti_operator = None, ti_builtin_recipe = False,
      ti_fixed_return = None, ti_declares_static = False, ti_generic_arity = 0, ti_conversion = None\<rparr>"

fun trait_info_of :: "builtin_trait \<Rightarrow> trait_info" where
  "trait_info_of TrAdd = info_defaults\<lparr>ti_name := ''Add'',
     ti_required_method := Some (''add'', Some 1), ti_operator := Some OpAdd\<rparr>"
| "trait_info_of TrSub = info_defaults\<lparr>ti_name := ''Sub'',
     ti_required_method := Some (''sub'', Some 1), ti_operator := Some OpSub\<rparr>"
| "trait_info_of TrMul = info_defaults\<lparr>ti_name := ''Mul'',
     ti_required_method := Some (''mul'', Some 1), ti_operator := Some OpMul\<rparr>"
| "trait_info_of TrDiv = info_defaults\<lparr>ti_name := ''Div'',
     ti_required_method := Some (''div'', Some 1), ti_operator := Some OpDiv\<rparr>"
| "trait_info_of TrConcat = info_defaults\<lparr>ti_name := ''Concat'',
     ti_required_method := Some (''concat'', Some 1), ti_operator := Some OpConcat\<rparr>"
| "trait_info_of TrEquatable = info_defaults\<lparr>ti_name := ''Equatable'',
     ti_required_method := Some (''eq'', Some 1), ti_builtin_recipe := True,
     ti_fixed_return := Some FixedBool\<rparr>"
| "trait_info_of TrComparable = info_defaults\<lparr>ti_name := ''Comparable'',
     ti_required_method := Some (''compare'', Some 1), ti_builtin_recipe := True,
     ti_fixed_return := Some FixedOrdering\<rparr>"
| "trait_info_of TrDisplay = info_defaults\<lparr>ti_name := ''Display'',
     ti_required_method := Some (''to_string'', Some 0), ti_builtin_recipe := True\<rparr>"
| "trait_info_of TrError = info_defaults\<lparr>ti_name := ''Error'',
     ti_required_method := Some (''message'', Some 0), ti_builtin_recipe := True\<rparr>"
| "trait_info_of TrFrom = info_defaults\<lparr>ti_name := FROM_TRAIT,
     ti_required_method := Some (FROM_METHOD, Some 1), ti_declares_static := True,
     ti_generic_arity := 1, ti_conversion := Some FromSource\<rparr>"
| "trait_info_of TrTo = info_defaults\<lparr>ti_name := TO_TRAIT,
     ti_required_method := Some (TO_METHOD, Some 0), ti_generic_arity := 1,
     ti_conversion := Some ToTarget\<rparr>"
| "trait_info_of TrClone = info_defaults\<lparr>ti_name := ''Clone'', ti_builtin_recipe := True\<rparr>"
| "trait_info_of TrSerialize = info_defaults\<lparr>ti_name := ''Serialize'', ti_builtin_recipe := True,
     ti_generic_arity := 1\<rparr>"
| "trait_info_of TrDeserialize = info_defaults\<lparr>ti_name := ''Deserialize'', ti_builtin_recipe := True,
     ti_generic_arity := 1\<rparr>"
| "trait_info_of TrIndex = info_defaults\<lparr>ti_name := ''Index'',
     ti_required_method := Some (''get'', Some 1)\<rparr>"
| "trait_info_of TrLength = info_defaults\<lparr>ti_name := ''Length'',
     ti_required_method := Some (''len'', Some 0)\<rparr>"
| "trait_info_of TrIterable = info_defaults\<lparr>ti_name := ''Iterable'',
     ti_required_method := Some (''iter'', Some 0)\<rparr>"
| "trait_info_of TrCallable = info_defaults\<lparr>ti_name := ''Callable'',
     ti_required_method := Some (''call'', None)\<rparr>"
| "trait_info_of TrMembers = info_defaults\<lparr>ti_name := ''Members'',
     ti_required_method := Some (''get'', Some 1)\<rparr>"
| "trait_info_of TrDynamicCall = info_defaults\<lparr>ti_name := ''DynamicCall'',
     ti_required_method := Some (''call'', Some 2)\<rparr>"
| "trait_info_of TrTryAdd = info_defaults\<lparr>ti_name := ''TryAdd'',
     ti_required_method := Some (''try_add'', Some 1)\<rparr>"
| "trait_info_of TrValidate = info_defaults\<lparr>ti_name := ''Validate'',
     ti_required_method := Some (''validate'', Some 0)\<rparr>"

definition BUILTIN_TRAITS :: "builtin_trait list" where
  "BUILTIN_TRAITS =
     [TrAdd, TrSub, TrMul, TrDiv, TrConcat, TrEquatable, TrComparable, TrDisplay, TrError, TrFrom,
      TrClone, TrSerialize, TrDeserialize, TrIndex, TrLength, TrIterable, TrCallable, TrMembers,
      TrDynamicCall, TrTryAdd, TrValidate, TrTo]"

definition trait_name :: "builtin_trait \<Rightarrow> string" where
  "trait_name t = ti_name (trait_info_of t)"

definition trait_from_name :: "string \<Rightarrow> builtin_trait option" where
  "trait_from_name n = find (\<lambda>t. trait_name t = n) BUILTIN_TRAITS"

definition required_method :: "builtin_trait \<Rightarrow> (string \<times> nat option) option" where
  "required_method t = ti_required_method (trait_info_of t)"

definition required_method_name :: "builtin_trait \<Rightarrow> string option" where
  "required_method_name t = map_option fst (required_method t)"

definition declares_static :: "builtin_trait \<Rightarrow> bool" where
  "declares_static t = ti_declares_static (trait_info_of t)"

definition trait_conversion :: "builtin_trait \<Rightarrow> conversion_role option" where
  "trait_conversion t = ti_conversion (trait_info_of t)"

definition trait_operator :: "builtin_trait \<Rightarrow> binary_op option" where
  "trait_operator t = ti_operator (trait_info_of t)"

definition has_builtin_recipe :: "builtin_trait \<Rightarrow> bool" where
  "has_builtin_recipe t = ti_builtin_recipe (trait_info_of t)"

definition trait_fixed_return :: "builtin_trait \<Rightarrow> fixed_return option" where
  "trait_fixed_return t = ti_fixed_return (trait_info_of t)"

definition generic_arity :: "builtin_trait \<Rightarrow> nat" where
  "generic_arity t = ti_generic_arity (trait_info_of t)"

definition has_trait_object :: "builtin_trait \<Rightarrow> bool" where
  "has_trait_object t =
     (let i = trait_info_of t in
      ti_generic_arity i = 0 \<and> \<not> ti_declares_static i \<and> ti_required_method i \<noteq> None)"

definition operator_trait :: "binary_op \<Rightarrow> builtin_trait option" where
  "operator_trait op = find (\<lambda>t. trait_operator t = Some op) BUILTIN_TRAITS"

lemmas trait_accessors [model_defs] = trait_name_def required_method_def required_method_name_def
  declares_static_def trait_conversion_def trait_operator_def has_builtin_recipe_def
  trait_fixed_return_def generic_arity_def info_defaults_def
  FROM_TRAIT_def FROM_METHOD_def TO_TRAIT_def TO_METHOD_def

section \<open>The extension ABI's mirror of the names\<close>

definition BUILTIN_TRAIT_NAMES :: "string list" where
  "BUILTIN_TRAIT_NAMES =
     [''Add'', ''Sub'', ''Mul'', ''Div'', ''Concat'', ''Equatable'', ''Comparable'', ''Display'',
      ''Error'', ''From'', ''Clone'', ''Serialize'', ''Deserialize'', ''Index'', ''Length'',
      ''Iterable'', ''Callable'', ''Members'', ''DynamicCall'', ''TryAdd'', ''Validate'', ''To'']"

definition declares_builtin_trait :: "string list \<Rightarrow> string \<Rightarrow> bool" where
  "declares_builtin_trait traits n = (n \<in> set BUILTIN_TRAIT_NAMES \<and> n \<in> set traits)"

section \<open>The tables agree\<close>

lemma BUILTIN_TRAITS_complete: "t \<in> set BUILTIN_TRAITS"
  by (cases t) (simp_all add: BUILTIN_TRAITS_def)

lemma trait_names_distinct: "distinct (map trait_name BUILTIN_TRAITS)"
  by (simp add: BUILTIN_TRAITS_def trait_accessors)

lemma BUILTIN_TRAIT_NAMES_mirror: "BUILTIN_TRAIT_NAMES = map trait_name BUILTIN_TRAITS"
  by (simp add: BUILTIN_TRAIT_NAMES_def BUILTIN_TRAITS_def trait_accessors)

lemma find_unique:
  assumes "distinct (map f xs)" and "x \<in> set xs"
  shows "find (\<lambda>y. f y = f x) xs = Some x"
  using assms by (induction xs) (auto simp: image_iff)

lemma trait_from_name_name: "trait_from_name (trait_name t) = Some t"
  unfolding trait_from_name_def by (rule find_unique [OF trait_names_distinct BUILTIN_TRAITS_complete])

text \<open>
  The trait registry is a bijection with its names: \<open>from_name\<close> answers exactly the trait that
  prints that name, every variant is in \<open>BUILTIN_TRAITS\<close>, and a name resolves exactly when it is in
  the extension ABI's mirror \<open>BUILTIN_TRAIT_NAMES\<close>, so the two lists cannot have drifted.
\<close>

theorem trait_registry_roundtrip:
  "(trait_from_name n = Some t \<longleftrightarrow> trait_name t = n) \<and>
   (trait_from_name n \<noteq> None \<longleftrightarrow> n \<in> set BUILTIN_TRAIT_NAMES)"
proof -
  have iff: "trait_from_name n = Some t \<longleftrightarrow> trait_name t = n" for t
    using trait_from_name_name [of t] by (auto simp: trait_from_name_def find_Some_iff)
  have "trait_from_name n \<noteq> None \<longleftrightarrow> (\<exists>t. trait_name t = n)"
    using iff by auto
  also have "\<dots> \<longleftrightarrow> n \<in> set BUILTIN_TRAIT_NAMES"
    using BUILTIN_TRAITS_complete by (auto simp: BUILTIN_TRAIT_NAMES_mirror)
  finally show ?thesis using iff by blast
qed

lemma operator_traits:
  "overload_method op = (case operator_trait op of None \<Rightarrow> None | Some t \<Rightarrow> required_method_name t)"
  "pred_option (\<lambda>t. trait_operator t = Some op \<and> (\<exists>m. required_method t = Some (m, Some 1)) \<and>
     \<not> declares_static t) (operator_trait op)"
  by (cases op; simp add: overload_method_def operator_trait_def BUILTIN_TRAITS_def trait_accessors)+

lemma fixed_returns: "trait_fixed_return t \<noteq> None \<longleftrightarrow> t = TrEquatable \<or> t = TrComparable"
  by (cases t) (simp_all add: trait_accessors)

text \<open>
  Operators and traits are in lock step. The method \<open>overload_method\<close> names for an operator is the
  required one-argument instance method of the one trait the table lists for it; an operator is
  dispatched by at most one of the three channels; and the equality and ordering channels call the
  methods \<open>Equatable\<close> and \<open>Comparable\<close> require, whose returns are the two the language fixes.
\<close>

theorem operator_dispatch_lockstep:
  "overload_method op = (case operator_trait op of None \<Rightarrow> None | Some t \<Rightarrow> required_method_name t) \<and>
   pred_option (\<lambda>t. trait_operator t = Some op \<and> (\<exists>m. required_method t = Some (m, Some 1)) \<and>
     \<not> declares_static t) (operator_trait op) \<and>
   length (filter (\<lambda>b. b) [overload_method op \<noteq> None, equatable_negation op \<noteq> None,
      comparable_method op \<noteq> None]) \<le> 1 \<and>
   comparable_method op \<in> {None, required_method_name TrComparable} \<and>
   (trait_fixed_return t \<noteq> None \<longleftrightarrow> t = TrEquatable \<or> t = TrComparable)"
proof -
  have "length (filter (\<lambda>b. b) [overload_method op \<noteq> None, equatable_negation op \<noteq> None,
      comparable_method op \<noteq> None]) \<le> 1 \<and> comparable_method op \<in> {None, required_method_name TrComparable}"
    by (cases op) (simp_all add: overload_method_def equatable_negation_def comparable_method_def
        COMPARE_METHOD_def trait_accessors)
  with operator_traits [of op] fixed_returns [of t] show ?thesis by blast
qed

text \<open>The variant a lawful \<open>compare\<close> returns for a pair of ordered values.\<close>

definition compare_variant :: "'a::linorder \<Rightarrow> 'a \<Rightarrow> string" where
  "compare_variant x y = (if x < y then ''Less'' else if x = y then ''Equal'' else ''Greater'')"

text \<open>
  Reading the four comparison operators off the one \<open>Ordering\<close> a \<open>compare\<close> method returns gives
  the order itself, for every totally ordered type; a variant outside the three, and any other
  operator, answers no.
\<close>

theorem ordering_satisfies_is_order:
  "ordering_satisfies OpLt (compare_variant x y) = (x < y) \<and>
   ordering_satisfies OpLe (compare_variant x y) = (x \<le> y) \<and>
   ordering_satisfies OpGt (compare_variant x y) = (y < x) \<and>
   ordering_satisfies OpGe (compare_variant x y) = (y \<le> x) \<and>
   {v. ordering_satisfies op v} \<subseteq> (if comparable_method op = None then {} else set ORDERING_VARIANTS)"
  by (cases op) (auto simp: ordering_satisfies_def compare_variant_def Let_def ORDERING_VARIANTS_def
      comparable_method_def)

text \<open>
  A trait has a trait object exactly when it is one of the seventeen protocols whose behaviour
  is an instance method named completely by the bare trait; the markers and the two conversion
  traits are exactly what is left out, and the conversions declare one relation from either end.
\<close>

theorem trait_object_census:
  "(\<not> has_trait_object t \<longleftrightarrow> t \<in> {TrFrom, TrTo, TrClone, TrSerialize, TrDeserialize}) \<and>
   (trait_conversion t \<noteq> None \<longleftrightarrow> t = TrFrom \<or> t = TrTo) \<and>
   conversion_relation FromSource a b = conversion_relation ToTarget b a"
  by (cases t) (simp_all add: has_trait_object_def trait_accessors)

end
