(* ===== verification/Variance.thy ===== *)
theory Variance
  imports Subtyping_Laws Builtin_Traits "HOL-Library.AList"
begin

text \<open>
  Declaration-site variance (\<open>crates/noeta-check/src/variance.rs\<close>): where a generic declaration puts
  its type parameters, the fixpoint that decides which argument positions may be read at a wider
  type, and the checker's registry as the provider of the subtype walk's rules
  (\<open>CheckerRules\<close>, \<open>assignable\<close>, \<open>arg_assignable\<close> in \<open>expr/core.rs\<close>).
\<close>

section \<open>Declarations as the scan reads them\<close>

text \<open>The fields of the syntax tree's declarations that variance looks at.\<close>

record field_decl =
  fd_name :: string
  fd_mut :: bool
  fd_ty :: "type_ref option"

record fn_param =
  fp_name :: string
  fp_ty :: "type_ref option"

record fn_decl =
  fn_name :: string
  fn_type_params :: "string list"
  fn_params :: "fn_param list"
  fn_ret :: "type_ref option"

record type_decl =
  td_name :: string
  td_type_params :: "string list"
  td_fields :: "field_decl list"
  td_methods :: "fn_decl list"

record enum_decl =
  ed_name :: string
  ed_type_params :: "string list"
  ed_variants :: "fn_param list list"
  ed_methods :: "fn_decl list"

record impl_decl =
  id_target :: string
  id_methods :: "fn_decl list"

datatype stmt = SStruct type_decl | SClass type_decl | SEnum enum_decl | SImpl impl_decl | SOther

datatype receiver = RecvInstance | RecvStatic | RecvEither

datatype site = SiteField string | SiteMethod string

datatype invariance_cause =
    MutField string | MethodParam string | FnParam site | Through site string | Opaque site string

type_synonym arg_variance = "invariance_cause option list"
type_synonym variance_table = "string \<rightharpoonup> arg_variance"

record method_shape =
  ms_name :: string
  ms_shadowed :: "string list"
  ms_params :: "type_ref list"
  ms_ret :: "type_ref option"

record decl_shape =
  ds_kind :: type_kind
  ds_params :: "string list"
  ds_fields :: "(string \<times> bool \<times> type_ref) list"
  ds_methods :: "method_shape list"

section \<open>The checker's tables\<close>

text \<open>
  The symbol tables the rules read. \<open>native_traits\<close> stands for the installed extension registry: the
  trait lists every native declaration of a name advertises.
\<close>

record checker =
  sym_arg_variance :: variance_table
  sym_method_receiver :: "string \<times> string \<rightharpoonup> receiver"
  sym_type_kinds :: "string \<rightharpoonup> type_kind"
  sym_trait_impls :: "string \<rightharpoonup> builtin_trait list"
  sym_user_trait_impls :: "string \<rightharpoonup> string list"
  imp_extern_types :: "string \<rightharpoonup> string"
  native_traits :: "string \<Rightarrow> string list list"

definition receiver_of :: "checker \<Rightarrow> string \<Rightarrow> string \<Rightarrow> receiver" where
  "receiver_of c type_name n =
     (case sym_method_receiver c (type_name, n) of Some r \<Rightarrow> r | None \<Rightarrow> RecvEither)"

definition ck_is_of_kind :: "checker \<Rightarrow> string \<Rightarrow> type_kind \<Rightarrow> bool" where
  "ck_is_of_kind c n k = (sym_type_kinds c n = Some k)"

definition has_builtin_trait :: "checker \<Rightarrow> string \<Rightarrow> builtin_trait \<Rightarrow> bool" where
  "has_builtin_trait c n t =
     ((case sym_trait_impls c n of Some ts \<Rightarrow> t \<in> set ts | None \<Rightarrow> False) \<or>
      list_ex (\<lambda>traits. declares_builtin_trait traits (trait_name t)) (native_traits c n))"

definition ck_implements_trait :: "checker \<Rightarrow> string \<Rightarrow> string \<Rightarrow> bool" where
  "ck_implements_trait c n tr =
     (let qualified = imp_extern_types c n in
      case trait_from_name tr of
        Some t \<Rightarrow> has_builtin_trait c n t \<or>
          (case qualified of Some q \<Rightarrow> has_builtin_trait c q t | None \<Rightarrow> False)
      | None \<Rightarrow>
          (let declared = (\<lambda>m. case sym_user_trait_impls c m of Some impls \<Rightarrow> tr \<in> set impls | None \<Rightarrow> False) in
           declared n \<or> (case qualified of Some q \<Rightarrow> declared q | None \<Rightarrow> False)))"

definition covariant_in :: "variance_table \<Rightarrow> string \<Rightarrow> nat \<Rightarrow> bool" where
  "covariant_in table n i =
     (case table n of Some v \<Rightarrow> i < length v \<and> v ! i = None | None \<Rightarrow> False)"

definition ck_covariant_arg :: "checker \<Rightarrow> string \<Rightarrow> nat \<Rightarrow> bool" where
  "ck_covariant_arg c n i = covariant_in (sym_arg_variance c) n i"

definition ck_invariance_cause :: "checker \<Rightarrow> string \<Rightarrow> nat \<Rightarrow> invariance_cause option" where
  "ck_invariance_cause c n i =
     (case sym_arg_variance c n of Some v \<Rightarrow> if i < length v then v ! i else None | None \<Rightarrow> None)"

definition CheckerRules :: "checker \<Rightarrow> nominal_rules" where
  "CheckerRules c =
     \<lparr>is_of_kind = ck_is_of_kind c, implements_trait = ck_implements_trait c,
      covariant_arg = ck_covariant_arg c\<rparr>"

definition assignable :: "checker \<Rightarrow> ty \<Rightarrow> ty \<Rightarrow> bool" where
  "assignable c actual expected = subtype_with actual expected (CheckerRules c)"

definition ck_widens_only :: "checker \<Rightarrow> ty \<Rightarrow> ty \<Rightarrow> bool" where
  "ck_widens_only c actual expected = widens_only actual expected (CheckerRules c)"

definition arg_assignable :: "checker \<Rightarrow> ty \<Rightarrow> ty \<Rightarrow> bool" where
  "arg_assignable c arg param =
     (assignable c arg param \<or> defers_to_runtime arg \<or> defers_to_runtime param)"

section \<open>The scan of one declaration\<close>

fun mentions :: "type_ref \<Rightarrow> string \<Rightarrow> bool" where
  "mentions (RNamed n args _) p = (n = p \<or> list_ex (\<lambda>a. mentions a p) args)"
| "mentions (ROptional inner _) p = mentions inner p"
| "mentions (RUnion items _) p = list_ex (\<lambda>t. mentions t p) items"
| "mentions (RTuple items _) p = list_ex (\<lambda>t. mentions t p) items"
| "mentions (RFn params ret _) p = (list_ex (\<lambda>t. mentions t p) params \<or> mentions ret p)"
| "mentions (RDynTrait _ _) p = False"
| "mentions (RAssocProjection _ _) p = False"

text \<open>
  \<open>out_position\<close>: \<open>out_args\<close> is its loop over the arguments of a nominal type, from index \<open>j\<close>, and
  \<open>out_items\<close> the \<open>find_map\<close> over the members of a union or tuple.
\<close>

fun out_position :: "variance_table \<Rightarrow> site \<Rightarrow> string \<Rightarrow> type_ref \<Rightarrow> invariance_cause option"
  and out_args :: "variance_table \<Rightarrow> site \<Rightarrow> string \<Rightarrow> string \<Rightarrow> nat \<Rightarrow> type_ref list \<Rightarrow> invariance_cause option"
  and out_items :: "variance_table \<Rightarrow> site \<Rightarrow> string \<Rightarrow> type_ref list \<Rightarrow> invariance_cause option"
where
  "out_position table st p (RNamed n args _) =
     (if n = p \<and> args = [] then None else out_args table st p n 0 args)"
| "out_position table st p (ROptional inner _) = out_position table st p inner"
| "out_position table st p (RUnion items _) = out_items table st p items"
| "out_position table st p (RTuple items _) = out_items table st p items"
| "out_position table st p (RFn params ret _) =
     (if list_ex (\<lambda>t. mentions t p) params then Some (FnParam st) else out_position table st p ret)"
| "out_position table st p (RDynTrait _ _) = None"
| "out_position table st p (RAssocProjection _ _) = None"
| "out_args table st p n j [] = None"
| "out_args table st p n j (arg # args) =
     (if \<not> mentions arg p then out_args table st p n (Suc j) args
      else if is_builtin_name n then
        (case out_position table st p arg of
           Some cause \<Rightarrow> Some cause
         | None \<Rightarrow> out_args table st p n (Suc j) args)
      else case table n of
        Some v \<Rightarrow>
          if j < length v \<and> v ! j = None then
            (case out_position table st p arg of
               Some cause \<Rightarrow> Some cause
             | None \<Rightarrow> out_args table st p n (Suc j) args)
          else Some (Through st n)
      | None \<Rightarrow> Some (Opaque st n))"
| "out_items table st p [] = None"
| "out_items table st p (t # ts) =
     (case out_position table st p t of Some cause \<Rightarrow> Some cause | None \<Rightarrow> out_items table st p ts)"

fun scan_fields :: "type_kind \<Rightarrow> variance_table \<Rightarrow> string \<Rightarrow> (string \<times> bool \<times> type_ref) list \<Rightarrow> invariance_cause option" where
  "scan_fields k table p [] = None"
| "scan_fields k table p ((n, is_mut, t) # fs) =
     (if is_mut \<and> k = KClass \<and> mentions t p then Some (MutField n)
      else case out_position table (SiteField n) p t of
        Some cause \<Rightarrow> Some cause
      | None \<Rightarrow> scan_fields k table p fs)"

fun scan_methods :: "variance_table \<Rightarrow> string \<Rightarrow> method_shape list \<Rightarrow> invariance_cause option" where
  "scan_methods table p [] = None"
| "scan_methods table p (m # ms) =
     (if p \<in> set (ms_shadowed m) then scan_methods table p ms
      else if list_ex (\<lambda>t. mentions t p) (ms_params m) then Some (MethodParam (ms_name m))
      else case (case ms_ret m of None \<Rightarrow> None
                 | Some r \<Rightarrow> out_position table (SiteMethod (ms_name m)) p r) of
        Some cause \<Rightarrow> Some cause
      | None \<Rightarrow> scan_methods table p ms)"

definition scan :: "decl_shape \<Rightarrow> string \<Rightarrow> variance_table \<Rightarrow> invariance_cause option" where
  "scan sh p table =
     (case scan_fields (ds_kind sh) table p (ds_fields sh) of
        Some cause \<Rightarrow> Some cause
      | None \<Rightarrow> scan_methods table p (ds_methods sh))"

section \<open>Collecting the declarations\<close>

definition method_shape_of :: "checker \<Rightarrow> string \<Rightarrow> fn_decl \<Rightarrow> method_shape option" where
  "method_shape_of c owner m =
     (if receiver_of c owner (fn_name m) = RecvStatic then None
      else Some \<lparr>ms_name = fn_name m, ms_shadowed = fn_type_params m,
        ms_params = List.map_filter fp_ty (fn_params m), ms_ret = fn_ret m\<rparr>)"

definition shape_of :: "checker \<Rightarrow> string \<Rightarrow> type_kind \<Rightarrow> string list \<Rightarrow> field_decl list \<Rightarrow> fn_decl list \<Rightarrow> decl_shape" where
  "shape_of c owner k type_params fdecls methods =
     \<lparr>ds_kind = k, ds_params = type_params,
      ds_fields = List.map_filter (\<lambda>f. map_option (\<lambda>t. (fd_name f, fd_mut f, t)) (fd_ty f)) fdecls,
      ds_methods = List.map_filter (method_shape_of c owner) methods\<rparr>"

text \<open>
  The first pass over the program, one declaration at a time. The hash map \<open>shapes\<close> is an association
  list with distinct keys, whose order stands for the map's iteration order.
\<close>

definition collect_decl :: "checker \<Rightarrow> stmt \<Rightarrow> (string \<times> decl_shape) list \<Rightarrow> (string \<times> decl_shape) list" where
  "collect_decl c s shapes =
     (case s of
        SStruct d \<Rightarrow> AList.update (td_name d)
          (shape_of c (td_name d) KStruct (td_type_params d) (td_fields d) (td_methods d)) shapes
      | SClass d \<Rightarrow> AList.update (td_name d)
          (shape_of c (td_name d) KClass (td_type_params d) (td_fields d) (td_methods d)) shapes
      | SEnum d \<Rightarrow>
          (let sh = shape_of c (ed_name d) KEnum (ed_type_params d) [] (ed_methods d);
               payload = List.map_filter (\<lambda>p. map_option (\<lambda>t. (fp_name p, False, t)) (fp_ty p))
                 (concat (ed_variants d)) in
           AList.update (ed_name d) (sh\<lparr>ds_fields := ds_fields sh @ payload\<rparr>) shapes)
      | _ \<Rightarrow> shapes)"

text \<open>The second pass: a standalone \<open>impl\<close> adds its instance methods to a declared target.\<close>

definition collect_impl :: "checker \<Rightarrow> stmt \<Rightarrow> (string \<times> decl_shape) list \<Rightarrow> (string \<times> decl_shape) list" where
  "collect_impl c s shapes =
     (case s of
        SImpl d \<Rightarrow>
          (case map_of shapes (id_target d) of
             None \<Rightarrow> shapes
           | Some sh \<Rightarrow> AList.update (id_target d)
               (sh\<lparr>ds_methods := ds_methods sh @
                  List.map_filter (method_shape_of c (id_target d)) (id_methods d)\<rparr>) shapes)
      | _ \<Rightarrow> shapes)"

definition collect_shapes :: "checker \<Rightarrow> stmt list \<Rightarrow> (string \<times> decl_shape) list" where
  "collect_shapes c program = fold (collect_impl c) program (fold (collect_decl c) program [])"

section \<open>The fixpoint\<close>

definition ITERATOR :: string where "ITERATOR = ''Iterator''"
definition FUTURE :: string where "FUTURE = ''Future''"
definition SENDER :: string where "SENDER = ''Sender''"
definition RECEIVER :: string where "RECEIVER = ''Receiver''"

definition NATIVE_TYPE_NAMES :: "string list" where
  "NATIVE_TYPE_NAMES = [ITERATOR, FUTURE, SENDER, RECEIVER]"

definition native_variance :: "string \<Rightarrow> arg_variance option" where
  "native_variance n =
     (if n = ITERATOR \<or> n = FUTURE \<or> n = RECEIVER then Some [None]
      else if n = SENDER then Some [Some (MethodParam ''send'')]
      else None)"

text \<open>The table the loop starts from: what is known already, the native types, the declared ones reset.\<close>

definition known_table :: "variance_table \<Rightarrow> variance_table" where
  "known_table old = old ++ map_of (List.map_filter (\<lambda>n. map_option (Pair n) (native_variance n)) NATIVE_TYPE_NAMES)"

definition declared_table :: "(string \<times> decl_shape) list \<Rightarrow> variance_table" where
  "declared_table shapes =
     map_of (map (\<lambda>(n, s). (n, replicate (length (ds_params s)) None))
       (filter (\<lambda>(_, s). ds_params s \<noteq> []) shapes))"

definition initial_table :: "variance_table \<Rightarrow> (string \<times> decl_shape) list \<Rightarrow> variance_table" where
  "initial_table old shapes = known_table old ++ declared_table shapes"

text \<open>
  One round of the loop over the parameters of one declaration, from index \<open>i\<close>; \<open>None\<close> is the panic
  of \<open>v[i]\<close> out of range.
\<close>

fun param_loop :: "string \<Rightarrow> decl_shape \<Rightarrow> nat \<Rightarrow> string list \<Rightarrow> variance_table \<times> bool \<Rightarrow> (variance_table \<times> bool) option" where
  "param_loop n sh i [] st = Some st"
| "param_loop n sh i (p # ps) (table, changed) =
     (case table n of
        None \<Rightarrow> param_loop n sh (Suc i) ps (table, changed)
      | Some v \<Rightarrow>
          if i < length v then
            (if v ! i \<noteq> None then param_loop n sh (Suc i) ps (table, changed)
             else case scan sh p table of
               None \<Rightarrow> param_loop n sh (Suc i) ps (table, changed)
             | Some cause \<Rightarrow> param_loop n sh (Suc i) ps (table(n \<mapsto> v[i := Some cause]), True))
          else None)"

fun variance_round :: "(string \<times> decl_shape) list \<Rightarrow> variance_table \<times> bool \<Rightarrow> (variance_table \<times> bool) option" where
  "variance_round [] st = Some st"
| "variance_round ((n, sh) # shapes) st =
     (case param_loop n sh 0 (ds_params sh) st of
        None \<Rightarrow> None
      | Some st' \<Rightarrow> variance_round shapes st')"

text \<open>How many argument positions of the declared types are still covariant: the loop's measure.\<close>

definition slots :: "variance_table \<Rightarrow> string \<Rightarrow> nat" where
  "slots table n = (case table n of None \<Rightarrow> 0 | Some v \<Rightarrow> length (filter (\<lambda>c. c = None) v))"

definition open_slots :: "(string \<times> decl_shape) list \<Rightarrow> variance_table \<Rightarrow> nat" where
  "open_slots shapes table = (\<Sum>(n, _) \<leftarrow> shapes. slots table n)"

lemma filter_None_update:
  "i < length v \<Longrightarrow> v ! i = None \<Longrightarrow>
   length (filter (\<lambda>c. c = None) (v[i := Some x])) < length (filter (\<lambda>c. c = None) v)"
  by (induction v arbitrary: i) (auto split: nat.splits simp: nth_Cons')

lemma slots_update:
  "table n = Some v \<Longrightarrow> i < length v \<Longrightarrow> v ! i = None \<Longrightarrow>
   slots (table(n \<mapsto> v[i := Some x])) n < slots table n"
  by (simp add: slots_def filter_None_update)

lemma param_loop_slots:
  "param_loop n sh i ps (table, changed) = Some (table', changed') \<Longrightarrow>
   (\<forall>m. slots table' m \<le> slots table m) \<and>
   (changed' \<longrightarrow> changed \<or> slots table' n < slots table n)"
proof (induction n sh i ps "(table, changed)" arbitrary: table changed rule: param_loop.induct)
  case (2 n sh i p ps table changed)
  show ?case
  proof (cases "\<exists>v cause. table n = Some v \<and> i < length v \<and> v ! i = None \<and> scan sh p table = Some cause")
    case True
    then obtain v cause where v: "table n = Some v" "i < length v" "v ! i = None" "scan sh p table = Some cause"
      by blast
    let ?t = "table(n \<mapsto> v[i := Some cause])"
    have less: "slots ?t n < slots table n" using v by (simp add: slots_update)
    then have le: "slots ?t m \<le> slots table m" for m by (cases "m = n") (auto simp: slots_def)
    from 2 v have "(\<forall>m. slots table' m \<le> slots ?t m)" by simp
    with le less show ?thesis by (meson le_trans order_le_less_trans)
  next
    case False
    with 2 show ?thesis by (auto split: option.splits if_splits)
  qed
qed simp

lemma variance_round_slots:
  "variance_round shapes (table, changed) = Some (table', changed') \<Longrightarrow>
   (\<forall>m. slots table' m \<le> slots table m) \<and>
   (changed' \<longrightarrow> changed \<or> (\<exists>n \<in> fst ` set shapes. slots table' n < slots table n))"
proof (induction shapes arbitrary: table changed)
  case (Cons x shapes)
  obtain n sh where x: "x = (n, sh)" by force
  with Cons.prems obtain t1 c1 where 1: "param_loop n sh 0 (ds_params sh) (table, changed) = Some (t1, c1)"
    and 2: "variance_round shapes (t1, c1) = Some (table', changed')"
    by (auto split: option.splits)
  note a = param_loop_slots [OF 1] and b = Cons.IH [OF 2]
  have "slots table' m \<le> slots table m" for m using a b by (meson le_trans)
  moreover have "\<exists>m \<in> fst ` set (x # shapes). slots table' m < slots table m"
    if "changed'" "\<not> changed"
  proof (cases c1)
    case True
    with a b that have "slots table' n < slots table n" by (meson order_le_less_trans)
    then show ?thesis by (simp add: x)
  next
    case False
    with b that obtain m where "m \<in> fst ` set shapes" "slots table' m < slots t1 m" by blast
    moreover from this a have "slots table' m < slots table m" by (meson order_less_le_trans)
    ultimately show ?thesis by auto
  qed
  ultimately show ?case by blast
qed simp

lemma open_slots_less:
  assumes "\<forall>m. slots t' m \<le> slots t m" and "n \<in> fst ` set shapes" and "slots t' n < slots t n"
  shows "open_slots shapes t' < open_slots shapes t"
  using assms(2)
proof (induction shapes)
  case (Cons x shapes)
  have le: "open_slots shapes t' \<le> open_slots shapes t"
    unfolding open_slots_def by (rule sum_list_mono) (use assms(1) in auto)
  show ?case
  proof (cases "fst x = n")
    case True
    with le assms(3) show ?thesis by (cases x) (simp add: open_slots_def)
  next
    case False
    with Cons have "open_slots shapes t' < open_slots shapes t" by auto
    moreover have "slots t' (fst x) \<le> slots t (fst x)" using assms(1) by blast
    ultimately show ?thesis by (cases x) (simp add: open_slots_def)
  qed
qed simp

function variance_loop :: "(string \<times> decl_shape) list \<Rightarrow> variance_table \<Rightarrow> variance_table option" where
  "variance_loop shapes table =
     (case variance_round shapes (table, False) of
        None \<Rightarrow> None
      | Some (table', changed) \<Rightarrow> if changed then variance_loop shapes table' else Some table')"
  by pat_completeness auto
termination
proof (relation "measure (\<lambda>(shapes, table). open_slots shapes table)")
  fix shapes :: "(string \<times> decl_shape) list" and table x table' changed
  assume "variance_round shapes (table, False) = Some x" and "(table', changed) = x" and "changed"
  with variance_round_slots [of shapes table False table' True] open_slots_less [of table' table]
  show "((shapes, table'), shapes, table) \<in> measure (\<lambda>(shapes, table). open_slots shapes table)"
    by auto
qed simp

declare variance_loop.simps [simp del]

definition compute_arg_variance :: "checker \<Rightarrow> stmt list \<Rightarrow> checker option" where
  "compute_arg_variance c program =
     (let shapes = collect_shapes c program in
      map_option (\<lambda>table. c\<lparr>sym_arg_variance := table\<rparr>)
        (variance_loop shapes (initial_table (sym_arg_variance c) shapes)))"

section \<open>The declarative account of an unsafe occurrence\<close>

text \<open>
  \<open>invariant_arg n i\<close>: the declaration \<open>n\<close> puts its \<open>i\<close>th parameter where a widened view could write
  or be called; \<open>unsafe_occ t p\<close>: the parameter \<open>p\<close> occurs in \<open>t\<close> other than in a read position. The
  rules are the three mechanisms of the module's documentation; \<open>start\<close> is the table of what is
  known before the loop, and a head without an entry there is opaque.
\<close>

definition has_slot :: "variance_table \<Rightarrow> string \<Rightarrow> nat \<Rightarrow> bool" where
  "has_slot table n i = (case table n of Some v \<Rightarrow> i < length v | None \<Rightarrow> False)"

inductive invariant_arg :: "(string \<times> decl_shape) list \<Rightarrow> variance_table \<Rightarrow> string \<Rightarrow> nat \<Rightarrow> bool"
  and unsafe_occ :: "(string \<times> decl_shape) list \<Rightarrow> variance_table \<Rightarrow> type_ref \<Rightarrow> string \<Rightarrow> bool"
  for shapes start where
  known: "has_slot start n i \<Longrightarrow> \<not> covariant_in start n i \<Longrightarrow> invariant_arg shapes start n i"
| mut_field: "(n, sh) \<in> set shapes \<Longrightarrow> i < length (ds_params sh) \<Longrightarrow> ds_kind sh = KClass \<Longrightarrow>
    (f, True, t) \<in> set (ds_fields sh) \<Longrightarrow> mentions t (ds_params sh ! i) \<Longrightarrow> invariant_arg shapes start n i"
| field: "(n, sh) \<in> set shapes \<Longrightarrow> i < length (ds_params sh) \<Longrightarrow> (f, b, t) \<in> set (ds_fields sh) \<Longrightarrow>
    unsafe_occ shapes start t (ds_params sh ! i) \<Longrightarrow> invariant_arg shapes start n i"
| method_param: "(n, sh) \<in> set shapes \<Longrightarrow> i < length (ds_params sh) \<Longrightarrow> m \<in> set (ds_methods sh) \<Longrightarrow>
    ds_params sh ! i \<notin> set (ms_shadowed m) \<Longrightarrow> t \<in> set (ms_params m) \<Longrightarrow>
    mentions t (ds_params sh ! i) \<Longrightarrow> invariant_arg shapes start n i"
| method_ret: "(n, sh) \<in> set shapes \<Longrightarrow> i < length (ds_params sh) \<Longrightarrow> m \<in> set (ds_methods sh) \<Longrightarrow>
    ds_params sh ! i \<notin> set (ms_shadowed m) \<Longrightarrow> ms_ret m = Some t \<Longrightarrow>
    unsafe_occ shapes start t (ds_params sh ! i) \<Longrightarrow> invariant_arg shapes start n i"
| in_arg: "j < length args \<Longrightarrow> unsafe_occ shapes start (args ! j) p \<Longrightarrow> unsafe_occ shapes start (RNamed n args sp) p"
| through: "\<not> is_builtin_name n \<Longrightarrow> j < length args \<Longrightarrow> mentions (args ! j) p \<Longrightarrow>
    invariant_arg shapes start n j \<Longrightarrow> unsafe_occ shapes start (RNamed n args sp) p"
| opaque: "\<not> is_builtin_name n \<Longrightarrow> j < length args \<Longrightarrow> mentions (args ! j) p \<Longrightarrow>
    \<not> has_slot start n j \<Longrightarrow> unsafe_occ shapes start (RNamed n args sp) p"
| optional: "unsafe_occ shapes start t p \<Longrightarrow> unsafe_occ shapes start (ROptional t sp) p"
| union: "t \<in> set ts \<Longrightarrow> unsafe_occ shapes start t p \<Longrightarrow> unsafe_occ shapes start (RUnion ts sp) p"
| tuple: "t \<in> set ts \<Longrightarrow> unsafe_occ shapes start t p \<Longrightarrow> unsafe_occ shapes start (RTuple ts sp) p"
| fn_param: "t \<in> set ps \<Longrightarrow> mentions t p \<Longrightarrow> unsafe_occ shapes start (RFn ps r sp) p"
| fn_ret: "unsafe_occ shapes start r p \<Longrightarrow> unsafe_occ shapes start (RFn ps r sp) p"

lemma out_args_None:
  "out_args table st p n j args = None \<longleftrightarrow>
   (\<forall>k < length args. mentions (args ! k) p \<longrightarrow>
      (is_builtin_name n \<or> covariant_in table n (j + k)) \<and> out_position table st p (args ! k) = None)"
proof (induction args arbitrary: j)
  case (Cons a args)
  have "out_args table st p n j (a # args) = None \<longleftrightarrow>
      (mentions a p \<longrightarrow> (is_builtin_name n \<or> covariant_in table n j) \<and> out_position table st p a = None) \<and>
      out_args table st p n (Suc j) args = None"
    by (simp add: covariant_in_def split: option.split)
  also have "\<dots> \<longleftrightarrow> (\<forall>k < length (a # args). mentions ((a # args) ! k) p \<longrightarrow>
      (is_builtin_name n \<or> covariant_in table n (j + k)) \<and> out_position table st p ((a # args) ! k) = None)"
    by (simp add: Cons.IH All_less_Suc2)
  finally show ?case .
qed simp

lemma out_items_None:
  "out_items table st p ts = None \<longleftrightarrow> (\<forall>t \<in> set ts. out_position table st p t = None)"
  by (induction ts) (auto split: option.splits)

lemma out_position_None:
  "out_position table st p (RNamed n args sp) = None \<longleftrightarrow>
   (\<forall>k < length args. mentions (args ! k) p \<longrightarrow>
      (is_builtin_name n \<or> covariant_in table n k) \<and> out_position table st p (args ! k) = None)"
  using out_args_None [of table st p n 0 args] by auto

lemma scan_fields_None:
  "scan_fields k table p fs = None \<longleftrightarrow>
   (\<forall>(f, m, t) \<in> set fs. \<not> (m \<and> k = KClass \<and> mentions t p) \<and> out_position table (SiteField f) p t = None)"
  by (induction k table p fs rule: scan_fields.induct) (auto split: option.splits)

lemma scan_methods_None:
  "scan_methods table p ms = None \<longleftrightarrow>
   (\<forall>m \<in> set ms. p \<notin> set (ms_shadowed m) \<longrightarrow>
      (\<forall>t \<in> set (ms_params m). \<not> mentions t p) \<and>
      (\<forall>r. ms_ret m = Some r \<longrightarrow> out_position table (SiteMethod (ms_name m)) p r = None))"
  by (induction ms) (auto simp: list_ex_iff split: option.splits)

lemma scan_None:
  "scan sh p table = None \<longleftrightarrow>
   scan_fields (ds_kind sh) table p (ds_fields sh) = None \<and> scan_methods table p (ds_methods sh) = None"
  by (auto simp: scan_def split: option.splits)

section \<open>The loop computes it\<close>

text \<open>
  What holds of the table in every round: it has the slots it started with, every declared
  parameter has one, and every slot marked invariant is marked for an unsafe occurrence.
\<close>

definition table_inv :: "(string \<times> decl_shape) list \<Rightarrow> variance_table \<Rightarrow> variance_table \<Rightarrow> bool" where
  "table_inv shapes start table =
     ((\<forall>n. map_option length (table n) = map_option length (start n)) \<and>
      (\<forall>n i. covariant_in table n i \<longrightarrow> covariant_in start n i) \<and>
      (\<forall>n i. has_slot table n i \<longrightarrow> \<not> covariant_in table n i \<longrightarrow> invariant_arg shapes start n i))"

definition params_fit :: "(string \<times> decl_shape) list \<Rightarrow> variance_table \<Rightarrow> bool" where
  "params_fit shapes start =
     (\<forall>(n, sh) \<in> set shapes. ds_params sh \<noteq> [] \<longrightarrow> map_option length (start n) = Some (length (ds_params sh)))"

lemma has_slot_cong:
  "map_option length (table n) = map_option length (start n) \<Longrightarrow> has_slot table n i = has_slot start n i"
  by (auto simp: has_slot_def split: option.splits)

lemma covariant_has_slot: "covariant_in table n i \<Longrightarrow> has_slot table n i"
  by (auto simp: covariant_in_def has_slot_def split: option.splits)

lemma not_covariant_cases:
  assumes "table_inv shapes start table" and "\<not> covariant_in table n j"
  shows "invariant_arg shapes start n j \<or> \<not> has_slot start n j"
  using assms has_slot_cong [of table n start j] by (auto simp: table_inv_def)

lemma out_position_sound:
  assumes "table_inv shapes start table"
  shows "out_position table st p t \<noteq> None \<Longrightarrow> unsafe_occ shapes start t p"
proof (induction t)
  case (RNamed n args sp)
  then obtain k where k: "k < length args" "mentions (args ! k) p"
    "(\<not> is_builtin_name n \<and> \<not> covariant_in table n k) \<or> out_position table st p (args ! k) \<noteq> None"
    unfolding out_position_None by blast
  from k(3) show ?case
  proof
    assume *: "\<not> is_builtin_name n \<and> \<not> covariant_in table n k"
    with not_covariant_cases [OF assms, of n k] k show ?thesis by (blast intro: through opaque)
  next
    assume "out_position table st p (args ! k) \<noteq> None"
    with RNamed.IH [OF nth_mem [OF k(1)]] k show ?thesis by (blast intro: in_arg)
  qed
next
  case (RFn ps r sp)
  then show ?case by (auto simp: list_ex_iff split: if_splits intro: fn_param fn_ret)
next
  case (RUnion ts sp)
  then obtain t where "t \<in> set ts" "out_position table st p t \<noteq> None"
    by (auto simp: out_items_None simp del: not_None_eq)
  with RUnion.IH show ?case by (blast intro: union)
next
  case (RTuple ts sp)
  then obtain t where "t \<in> set ts" "out_position table st p t \<noteq> None"
    by (auto simp: out_items_None simp del: not_None_eq)
  with RTuple.IH show ?case by (blast intro: tuple)
next
  case (ROptional t sp)
  then show ?case by (auto intro: optional)
qed simp_all

lemma scan_sound:
  assumes "table_inv shapes start table" and "(n, sh) \<in> set shapes" and "i < length (ds_params sh)"
    and "scan sh (ds_params sh ! i) table \<noteq> None"
  shows "invariant_arg shapes start n i"
proof -
  note out = out_position_sound [OF assms(1)]
  from assms(4) consider "scan_fields (ds_kind sh) table (ds_params sh ! i) (ds_fields sh) \<noteq> None"
    | "scan_methods table (ds_params sh ! i) (ds_methods sh) \<noteq> None"
    by (auto simp: scan_None simp del: not_None_eq)
  then show ?thesis
  proof cases
    case 1
    then obtain f m t where f: "(f, m, t) \<in> set (ds_fields sh)" "(m \<and> ds_kind sh = KClass \<and> mentions t (ds_params sh ! i)) \<or>
        out_position table (SiteField f) (ds_params sh ! i) t \<noteq> None"
      by (auto simp: scan_fields_None simp del: not_None_eq)
    from f(2) show ?thesis
    proof
      assume "m \<and> ds_kind sh = KClass \<and> mentions t (ds_params sh ! i)"
      with assms(2,3) f(1) show ?thesis by (intro mut_field [of n sh shapes i f t]) auto
    qed (use assms(2,3) f(1) out in \<open>blast intro: field\<close>)
  next
    case 2
    then obtain m where m: "m \<in> set (ds_methods sh)" "ds_params sh ! i \<notin> set (ms_shadowed m)"
      "(\<exists>t \<in> set (ms_params m). mentions t (ds_params sh ! i)) \<or>
       (\<exists>r. ms_ret m = Some r \<and> out_position table (SiteMethod (ms_name m)) (ds_params sh ! i) r \<noteq> None)"
      by (auto simp: scan_methods_None simp del: not_None_eq)
    with assms(2,3) out show ?thesis by (blast intro: method_param method_ret)
  qed
qed

lemma covariant_in_update:
  "table n = Some v \<Longrightarrow> i < length v \<Longrightarrow>
   covariant_in (table(n \<mapsto> v[i := Some x])) m j = (covariant_in table m j \<and> \<not> (m = n \<and> j = i))"
  by (auto simp: covariant_in_def nth_list_update)

lemma table_inv_update:
  assumes "table_inv shapes start table" and "table n = Some v" and "i < length v"
    and "invariant_arg shapes start n i"
  shows "table_inv shapes start (table(n \<mapsto> v[i := Some x]))"
proof -
  have "has_slot (table(n \<mapsto> v[i := Some x])) m j = has_slot table m j" for m j
    using assms(2) by (simp add: has_slot_def)
  moreover have "map_option length ((table(n \<mapsto> v[i := Some x])) m) = map_option length (table m)" for m
    using assms(2) by simp
  ultimately show ?thesis
    using assms(1,4) 
    unfolding table_inv_def covariant_in_update [of table n v i, OF assms(2,3)] by metis
qed

lemma param_loop_inv:
  assumes "table_inv shapes start table" and "(n, sh) \<in> set shapes" and "params_fit shapes start"
    and "ds_params sh = pre @ ps" and "i = length pre"
  shows "\<exists>table' changed'. param_loop n sh i ps (table, changed) = Some (table', changed') \<and>
    table_inv shapes start table'"
  using assms
proof (induction ps arbitrary: table changed i pre)
  case (Cons p ps)
  have fit: "map_option length (table n) = Some (length (ds_params sh))"
  proof -
    have "ds_params sh \<noteq> []" using Cons.prems(4) by simp
    with Cons.prems(2,3) have "map_option length (start n) = Some (length (ds_params sh))"
      unfolding params_fit_def by blast
    with Cons.prems(1) show ?thesis by (simp add: table_inv_def)
  qed
  then obtain v where v: "table n = Some v" "i < length v" using Cons.prems(4,5) by auto
  have p: "p = ds_params sh ! i" "i < length (ds_params sh)" using Cons.prems(4,5) by auto
  have rest: "\<exists>table' changed'. param_loop n sh (Suc i) ps (t, c) = Some (table', changed') \<and>
      table_inv shapes start table'" if "table_inv shapes start t" for t c
    using Cons.IH [OF that Cons.prems(2,3), of "pre @ [p]" "Suc i" c] Cons.prems(4,5) by simp
  show ?case
  proof (cases "v ! i = None \<and> scan sh p table \<noteq> None")
    case True
    with scan_sound [OF Cons.prems(1,2) p(2)] p have "invariant_arg shapes start n i" by simp
    from table_inv_update [OF Cons.prems(1) v this] rest True v show ?thesis by auto
  next
    case False
    with rest [OF Cons.prems(1)] v show ?thesis by (auto split: option.splits)
  qed
qed simp

lemma variance_round_inv:
  assumes "table_inv shapes start table" and "params_fit shapes start" and "set done \<subseteq> set shapes"
  shows "\<exists>table' changed'. variance_round done (table, changed) = Some (table', changed') \<and>
    table_inv shapes start table'"
  using assms
proof (induction "done" arbitrary: table changed)
  case (Cons x xs)
  obtain n sh where x: "x = (n, sh)" by force
  then have mem: "(n, sh) \<in> set shapes" using Cons.prems(3) by auto
  from param_loop_inv [OF Cons.prems(1) mem Cons.prems(2), of "[]" "ds_params sh" 0 changed]
  obtain t1 c1 where "param_loop n sh 0 (ds_params sh) (table, changed) = Some (t1, c1)" "table_inv shapes start t1"
    by auto
  with Cons.IH [of t1 c1] Cons.prems x show ?case by auto
qed simp

text \<open>A round that changes nothing has found every remaining slot safe.\<close>

lemma param_loop_stable:
  "param_loop n sh i ps (table, changed) = Some (table', False) \<Longrightarrow>
   table' = table \<and> \<not> changed \<and>
   (\<forall>k < length ps. covariant_in table n (i + k) \<longrightarrow> scan sh (ps ! k) table = None)"
proof (induction ps arbitrary: i table changed)
  case (Cons p ps)
  then show ?case
    by (auto simp: All_less_Suc2 covariant_in_def split: option.splits if_splits)
qed simp

lemma variance_round_stable:
  "variance_round shapes (table, changed) = Some (table', False) \<Longrightarrow>
   table' = table \<and> \<not> changed \<and>
   (\<forall>(n, sh) \<in> set shapes. \<forall>k < length (ds_params sh).
      covariant_in table n k \<longrightarrow> scan sh (ds_params sh ! k) table = None)"
proof (induction shapes arbitrary: table changed)
  case (Cons x shapes)
  obtain n sh where x: "x = (n, sh)" by force
  with Cons.prems obtain t1 c1 where 1: "param_loop n sh 0 (ds_params sh) (table, changed) = Some (t1, c1)"
    and 2: "variance_round shapes (t1, c1) = Some (table', False)"
    by (auto split: option.splits)
  from Cons.IH [OF 2] have "t1 = table'" "\<not> c1" by auto
  with param_loop_stable [of n sh 0 "ds_params sh" table changed t1] 1
  have "table' = table" "\<not> changed"
    "\<forall>k < length (ds_params sh). covariant_in table n k \<longrightarrow> scan sh (ds_params sh ! k) table = None"
    by simp_all
  with Cons.IH [OF 2] \<open>t1 = table'\<close> show ?case unfolding x by simp
qed simp

lemma variance_loop_result:
  assumes "table_inv shapes start table" and "params_fit shapes start"
  shows "\<exists>result. variance_loop shapes table = Some result \<and> table_inv shapes start result \<and>
    (\<forall>(n, sh) \<in> set shapes. \<forall>k < length (ds_params sh).
       covariant_in result n k \<longrightarrow> scan sh (ds_params sh ! k) result = None)"
  using assms
proof (induction shapes table rule: variance_loop.induct)
  case (1 shapes table)
  from variance_round_inv [OF 1(2,3) order_refl, of False]
  obtain t c where t: "variance_round shapes (table, False) = Some (t, c)" "table_inv shapes start t" by blast
  show ?case
  proof (cases c)
    case True
    with 1 t show ?thesis by (subst variance_loop.simps) simp
  next
    case False
    with t variance_round_stable [of shapes table False t] show ?thesis
      by (subst variance_loop.simps) simp
  qed
qed

lemma unsafe_occ_mentions: "unsafe_occ shapes start t p \<Longrightarrow> mentions t p"
  by (induction rule: invariant_arg_unsafe_occ.inducts(2) [where ?P1.0 = "\<lambda>_ _. True"])
    (auto simp: list_ex_iff)

lemma invariant_complete:
  assumes "table_inv shapes start table"
    and stable: "\<And>n sh k. (n, sh) \<in> set shapes \<Longrightarrow> k < length (ds_params sh) \<Longrightarrow> covariant_in table n k \<Longrightarrow>
       scan sh (ds_params sh ! k) table = None"
  shows "(invariant_arg shapes start n i \<longrightarrow> \<not> covariant_in table n i) \<and>
    (unsafe_occ shapes start t p \<longrightarrow> (\<forall>st. out_position table st p t \<noteq> None))"
proof (induction rule: invariant_arg_unsafe_occ.induct)
  case (known n i)
  then show ?case using assms(1) by (auto simp: table_inv_def)
next
  case (mut_field n sh i f t)
  then show ?case using stable [of n sh i] by (auto simp: scan_None scan_fields_None)
next
  case (field n sh i f b t)
  then have "scan_fields (ds_kind sh) table (ds_params sh ! i) (ds_fields sh) \<noteq> None"
    unfolding scan_fields_None by blast
  with field show ?case using stable [of n sh i] unfolding scan_None by (intro notI) simp
next
  case (method_param n sh i m t)
  then show ?case using stable [of n sh i] by (auto simp: scan_None scan_methods_None)
next
  case (method_ret n sh i m t)
  then show ?case using stable [of n sh i] by (auto simp: scan_None scan_methods_None simp del: not_None_eq)
next
  case (in_arg j args p n sp)
  then show ?case using unsafe_occ_mentions [of shapes start "args ! j" p] unfolding out_position_None by blast
next
  case (through n j args p sp)
  then show ?case unfolding out_position_None by blast
next
  case (opaque n j args p sp)
  have "has_slot table n j = has_slot start n j" 
    using assms(1) unfolding table_inv_def by (intro has_slot_cong) blast
  with opaque have "\<not> covariant_in table n j" using covariant_has_slot [of table n j] by blast
  with opaque show ?case unfolding out_position_None by blast
next
  case (union t ts p sp)
  then show ?case unfolding out_position.simps out_items_None by blast
next
  case (tuple t ts p sp)
  then show ?case unfolding out_position.simps out_items_None by blast
qed (auto simp: list_ex_iff)

lemma initial_table_inv: "table_inv shapes start start"
  by (simp add: table_inv_def known)

lemma map_of_keys_unique: "distinct (map fst xs) \<Longrightarrow> (k, v) \<in> set xs \<Longrightarrow> map_of xs k = Some v"
  by simp

lemma initial_params_fit:
  assumes "distinct (map fst shapes)"
  shows "params_fit shapes (initial_table old shapes)"
proof -
  have "map_option length (initial_table old shapes n) = Some (length (ds_params sh))"
    if mem: "(n, sh) \<in> set shapes" and ne: "ds_params sh \<noteq> []" for n sh
  proof -
  let ?f = "\<lambda>(n, s :: decl_shape). (n, replicate (length (ds_params s)) (None :: invariance_cause option))"
  let ?xs = "filter (\<lambda>(_, s). ds_params s \<noteq> []) shapes"
  have "map fst (map ?f ?xs) = map fst ?xs" by (simp add: case_prod_beta comp_def)
  then have "distinct (map fst (map ?f ?xs))" using distinct_map_filter [OF assms] by (simp only:)
  moreover have "(n, replicate (length (ds_params sh)) None) \<in> set (map ?f ?xs)"
    using mem ne by force
  ultimately have "declared_table shapes n = Some (replicate (length (ds_params sh)) None)"
    unfolding declared_table_def by (rule map_of_is_SomeI)
  then show ?thesis by (simp add: initial_table_def)
  qed
  then show ?thesis unfolding params_fit_def by (intro ballI) (simp add: case_prod_beta prod_eq_iff)
qed

lemma collect_shapes_distinct: "distinct (map fst (collect_shapes c program))"
proof -
  have 1: "distinct (map fst xs) \<Longrightarrow> distinct (map fst (fold (collect_decl c) ss xs))" for ss xs
    by (induction ss arbitrary: xs) (simp_all add: collect_decl_def distinct_update Let_def split: stmt.split)
  have 2: "distinct (map fst xs) \<Longrightarrow> distinct (map fst (fold (collect_impl c) ss xs))" for ss xs
    by (induction ss arbitrary: xs) (simp_all add: collect_impl_def distinct_update split: stmt.split option.split)
  show ?thesis by (simp add: collect_shapes_def 1 2)
qed


section \<open>The help for a refused widening\<close>

definition site_text :: "site \<Rightarrow> string" where
  "site_text s = (case s of SiteField n \<Rightarrow> ''the field `'' @ n @ ''`'' | SiteMethod n \<Rightarrow> ''the method `'' @ n @ ''`'')"

fun cause_text :: "invariance_cause \<Rightarrow> string" where
  "cause_text (MutField n) = ''stores it in the `mut` field `'' @ n @ ''`''"
| "cause_text (MethodParam n) = ''takes it as a parameter of the method `'' @ n @ ''`''"
| "cause_text (FnParam s) = ''takes it as a parameter of the function in '' @ site_text s"
| "cause_text (Through s via) = ''passes it through '' @ site_text s @ '' to `'' @ via @ ''`, which stores it''"
| "cause_text (Opaque s via) =
     ''passes it through '' @ site_text s @ '' to `'' @ via @ ''`, whose declaration is not in this program''"

text \<open>
  \<open>variance_refusal_help\<close>, giving the parts of the message in the order the format string has them:
  the type's name, the cause, the actual type, the expected type and the argument to instantiate at.
\<close>

fun find_refused :: "checker \<Rightarrow> string \<Rightarrow> nat \<Rightarrow> (ty \<times> ty) list \<Rightarrow> (nat \<times> ty) option" where
  "find_refused c n i [] = None"
| "find_refused c n i ((a, b) # rest) =
     (if \<not> ck_covariant_arg c n i \<and> ck_widens_only c a b then Some (i, b)
      else find_refused c n (Suc i) rest)"

definition variance_refusal_help :: "checker \<Rightarrow> ty \<Rightarrow> ty \<Rightarrow> (string \<times> string \<times> string \<times> string \<times> string) option" where
  "variance_refusal_help c actual expected =
     (case actual of
        TNamed an aa \<Rightarrow>
          (case expected of
             TNamed bn ba \<Rightarrow>
               if an \<noteq> bn \<or> length aa \<noteq> length ba then None
               else (case find_refused c an 0 (zip aa ba) of
                       None \<Rightarrow> None
                     | Some (i, wider) \<Rightarrow>
                         map_option (\<lambda>cause. (an, cause_text cause, show_ty False actual,
                           show_ty False expected, show_ty False wider)) (ck_invariance_cause c an i))
           | _ \<Rightarrow> None)
      | _ \<Rightarrow> None)"

lemma find_refused_Some:
  "find_refused c n i ps = Some (j, b) \<Longrightarrow>
   \<exists>k a. j = i + k \<and> k < length ps \<and> ps ! k = (a, b) \<and> \<not> ck_covariant_arg c n j \<and> ck_widens_only c a b"
proof (induction c n i ps rule: find_refused.induct)
  case (2 c n i a b' rest)
  show ?case
  proof (cases "\<not> ck_covariant_arg c n i \<and> ck_widens_only c a b'")
    case True
    with 2(2) show ?thesis by (intro exI [of _ 0] exI [of _ a]) auto
  next
    case False
    with 2 obtain k x where "j = Suc i + k" "k < length rest" "rest ! k = (x, b)"
      "\<not> ck_covariant_arg c n j" "ck_widens_only c x b" by auto
    then show ?thesis by (intro exI [of _ "Suc k"] exI [of _ x]) auto
  qed
qed simp

lemma widens_only_not_dyn: "\<not> widens_only TDyn b r"
  by (cases b) (simp_all add: widens_only_def subtype_at.simps [of r _ TDyn] walk_simps)

lemma named_refused:
  assumes "\<not> subtype_at r (w \<and> covariant_arg r n k) (aa ! k) (ba ! k)" and "aa ! k \<noteq> TDyn"
    and "k < length aa" and "length aa = length ba"
  shows "\<not> subtype_at r w (TNamed n aa) (TNamed n ba)"
  using assms by (subst subtype_at.simps) (auto simp: is_gradual_def enumerate_zip_all)

text \<open>
  The help line appears only on a mismatch: whenever \<open>variance_refusal_help\<close> names a cause for a
  pair, the pair is not assignable, and making the type covariant everywhere would have let that
  argument through. An accepted program never gets the message.
\<close>

theorem refusal_help_only_on_refusal:
  assumes "variance_refusal_help c actual expected = Some (n, cause, a, e, s)"
  shows "\<not> assignable c actual expected \<and>
    (\<exists>aa ba k. actual = TNamed n aa \<and> expected = TNamed n ba \<and> k < length aa \<and> length aa = length ba \<and>
       \<not> ck_covariant_arg c n k \<and> assignable c (aa ! k) (ba ! k) \<and> s = show_ty False (ba ! k))"
proof -
  from assms obtain aa ba k x where an: "actual = TNamed n aa" "expected = TNamed n ba" "length aa = length ba"
    and find: "find_refused c n 0 (zip aa ba) = Some (k, x)" and s: "s = show_ty False x"
    by (auto simp: variance_refusal_help_def split: ty.splits if_splits option.splits)
  from find_refused_Some [OF find] an(3) have k: "k < length aa" "x = ba ! k" "\<not> ck_covariant_arg c n k"
    and wo: "ck_widens_only c (aa ! k) (ba ! k)" by auto
  from wo have "\<not> subtype_at (CheckerRules c) False (aa ! k) (ba ! k)"
    and sub: "subtype_at (CheckerRules c) True (aa ! k) (ba ! k)"
    by (simp_all add: ck_widens_only_def widens_only_def)
  moreover have "aa ! k \<noteq> TDyn" using wo widens_only_not_dyn by (auto simp: ck_widens_only_def)
  ultimately have "\<not> subtype_at (CheckerRules c) True (TNamed n aa) (TNamed n ba)"
    using k an(3) by (intro named_refused [of _ _ _ k]) (simp_all add: CheckerRules_def)
  with an k s sub show ?thesis by (auto simp: assignable_def subtype_with_def)
qed

text \<open>A registry with \<open>class Box2<T> { mut v: T }\<close> declared and \<open>Dog\<close> implementing the trait \<open>Speak\<close>.\<close>

definition box_program :: "stmt list" where
  "box_program = [SClass \<lparr>td_name = ''Box2'', td_type_params = [''T''],
     td_fields = [\<lparr>fd_name = ''v'', fd_mut = True, fd_ty = Some (RNamed ''T'' [] (Span 0 0 0))\<rparr>],
     td_methods = []\<rparr>]"

definition box_checker :: checker where
  "box_checker = \<lparr>sym_arg_variance = Map.empty, sym_method_receiver = Map.empty,
     sym_type_kinds = Map.empty, sym_trait_impls = Map.empty,
     sym_user_trait_impls = [''Dog'' \<mapsto> [''Speak'']], imp_extern_types = Map.empty,
     native_traits = \<lambda>_. []\<rparr>"

definition box_rules :: checker where
  "box_rules = box_checker\<lparr>sym_arg_variance := (known_table Map.empty)(''Box2'' \<mapsto> [Some (MutField ''v'')])\<rparr>"

lemma box_computed: "compute_arg_variance box_checker box_program = Some box_rules"
proof -
  have shapes: "collect_shapes box_checker box_program =
      [(''Box2'', \<lparr>ds_kind = KClass, ds_params = [''T''],
         ds_fields = [(''v'', True, RNamed ''T'' [] (Span 0 0 0))], ds_methods = []\<rparr>)]"
    by (simp add: collect_shapes_def box_program_def collect_decl_def collect_impl_def shape_of_def
        map_filter_def)
  show ?thesis
    unfolding compute_arg_variance_def Let_def shapes
    by (simp add: variance_loop.simps initial_table_def declared_table_def scan_def box_rules_def
        box_checker_def)
qed

theorem refusal_help_only_on_refusal_witness:
  "\<not> assignable box_rules (TNamed ''Box2'' [TNamed ''Dog'' []]) (TNamed ''Box2'' [TDynTrait ''Speak''])"
proof -
  have "variance_refusal_help box_rules (TNamed ''Box2'' [TNamed ''Dog'' []]) (TNamed ''Box2'' [TDynTrait ''Speak'']) =
      Some (''Box2'', ''stores it in the `mut` field `v`'', ''Box2<Dog>'', ''Box2<dyn Speak>'', ''dyn Speak'')"
    by code_simp
  from refusal_help_only_on_refusal [OF this] show ?thesis by simp
qed

end
