(* ===== verification/Reactive_Graph.thy ===== *)
theory Reactive_Graph
  imports Prelude
begin

text \<open>
  The reactive graph behind signals, computeds and effects (\<open>crates/noeta-reactive/src/lib.rs\<close>):
  the node table, the two-way dependency edges, the owner tree and its teardown, the dirty walk and
  the effect queue. Node ids are indices into the node table. The operations of \<open>Inner\<close> index the
  table by ids that the invariant keeps in range; the public operations take an id from outside, and
  an id out of range is the panic \<open>None\<close>. The \<open>debug_assert\<close>s are not part of the release build and
  are not modelled; what they claim is part of the invariant.
\<close>

section \<open>Nodes and the graph\<close>

datatype node_kind = Signal | Computed | Effect

fun kind_type_name :: "node_kind \<Rightarrow> string" where
  "kind_type_name Signal = ''Signal''"
| "kind_type_name Computed = ''Computed''"
| "kind_type_name Effect = ''Effect''"

type_synonym node_id = nat

record 'v node =
  nd_kind :: node_kind
  nd_live :: bool
  nd_dirty :: bool
  nd_queued :: bool
  nd_sources :: "node_id list"
  nd_subscribers :: "node_id list"
  nd_content :: "'v option"
  nd_body :: "'v option"
  nd_owner :: "node_id option"
  nd_owned :: "node_id list"

definition placeholder :: "'v node" where
  "placeholder =
     \<lparr>nd_kind = Signal, nd_live = False, nd_dirty = False, nd_queued = False, nd_sources = [],
      nd_subscribers = [], nd_content = None, nd_body = None, nd_owner = None, nd_owned = []\<rparr>"

record 'v inner =
  g_nodes :: "'v node list"
  g_free :: "node_id list"
  g_computing :: "node_id list"
  g_dirty_computeds :: nat
  g_round_scratch :: "node_id list"
  g_dirty_scratch :: "node_id list"
  g_queue :: "node_id list"
  g_reclaimed :: "'v list"
  g_flushing :: bool
  g_observed :: bool
  g_changed :: "node_id list"

definition graph_new :: "'v inner" where
  "graph_new =
     \<lparr>g_nodes = [], g_free = [], g_computing = [], g_dirty_computeds = 0, g_round_scratch = [],
      g_dirty_scratch = [], g_queue = [], g_reclaimed = [], g_flushing = False, g_observed = False,
      g_changed = []\<rparr>"

definition node_at :: "'v inner \<Rightarrow> node_id \<Rightarrow> 'v node" where
  "node_at g i = g_nodes g ! i"

definition upd :: "node_id \<Rightarrow> ('v node \<Rightarrow> 'v node) \<Rightarrow> 'v inner \<Rightarrow> 'v inner" where
  "upd i f g = g\<lparr>g_nodes := (g_nodes g)[i := f (g_nodes g ! i)]\<rparr>"

text \<open>The top of the computing stack is the last element, as in the vector.\<close>

definition top_frame :: "'v inner \<Rightarrow> node_id option" where
  "top_frame g = (if g_computing g = [] then None else Some (last (g_computing g)))"

section \<open>Edges and ownership\<close>

definition record_dependency :: "node_id \<Rightarrow> 'v inner \<Rightarrow> 'v inner" where
  "record_dependency src g =
     (case top_frame g of
        None \<Rightarrow> g
      | Some sub \<Rightarrow>
          if sub = src then g
          else if src \<in> set (nd_sources (node_at g sub)) then g
          else upd src (nd_subscribers_update (\<lambda>ss. ss @ [sub]))
                 (upd sub (nd_sources_update (\<lambda>ss. ss @ [src])) g))"

definition adopt :: "node_id \<Rightarrow> 'v inner \<Rightarrow> 'v inner" where
  "adopt n g =
     (case top_frame g of
        None \<Rightarrow> g
      | Some own \<Rightarrow> upd own (nd_owned_update (\<lambda>os. os @ [n])) (upd n (nd_owner_update (\<lambda>_. Some own)) g))"

text \<open>\<open>if let Some(pos) = v.iter().position(..) { v.swap_remove(pos) }\<close> is \<open>remove_one\<close>.\<close>

definition drop_subscriber :: "node_id \<Rightarrow> node_id \<Rightarrow> 'v inner \<Rightarrow> 'v inner" where
  "drop_subscriber n src g = upd src (nd_subscribers_update (remove_one n)) g"

definition drop_source :: "node_id \<Rightarrow> node_id \<Rightarrow> 'v inner \<Rightarrow> 'v inner" where
  "drop_source n sub g = upd sub (nd_sources_update (remove_one n)) g"

text \<open>Taking a node's source list and leaving its sources' subscriber lists: the loop both
  \<open>unhook_and_free\<close> and \<open>begin_compute\<close> start with.\<close>

definition sever_sources :: "node_id \<Rightarrow> 'v inner \<Rightarrow> 'v inner" where
  "sever_sources n g =
     fold (drop_subscriber n) (nd_sources (node_at g n)) (upd n (nd_sources_update (\<lambda>_. [])) g)"

definition sever_subscribers :: "node_id \<Rightarrow> 'v inner \<Rightarrow> 'v inner" where
  "sever_subscribers n g =
     fold (drop_source n) (nd_subscribers (node_at g n)) (upd n (nd_subscribers_update (\<lambda>_. [])) g)"

definition is_dirty_computed :: "'v node \<Rightarrow> bool" where
  "is_dirty_computed nd = (nd_kind nd = Computed \<and> nd_dirty nd)"

definition release_node :: "'v node \<Rightarrow> 'v node" where
  "release_node nd = nd\<lparr>nd_live := False, nd_dirty := False, nd_queued := False, nd_content := None,
     nd_body := None, nd_owner := None\<rparr>"

definition unhook_and_free :: "node_id \<Rightarrow> 'v inner \<Rightarrow> 'v inner" where
  "unhook_and_free n g =
     (let g1 = sever_subscribers n (sever_sources n g);
          g2 = (if is_dirty_computed (node_at g1 n)
                then g1\<lparr>g_dirty_computeds := g_dirty_computeds g1 - 1\<rparr> else g1);
          g3 = upd n release_node g2 in
      g3\<lparr>g_free := g_free g3 @ [n]\<rparr>)"

section \<open>Owner-tree teardown\<close>

definition take_owned :: "node_id \<Rightarrow> 'v inner \<Rightarrow> 'v inner" where
  "take_owned n g = upd n (nd_owned_update (\<lambda>_. [])) g"

definition opt_list :: "'a option \<Rightarrow> 'a list" where
  "opt_list x = (case x of None \<Rightarrow> [] | Some v \<Rightarrow> [v])"

definition reclaim_cells :: "node_id \<Rightarrow> 'v inner \<Rightarrow> 'v inner" where
  "reclaim_cells n g =
     (let cells = opt_list (nd_content (node_at g n)) @ opt_list (nd_body (node_at g n));
          g1 = upd n (\<lambda>nd. nd\<lparr>nd_content := None, nd_body := None\<rparr>) g in
      g1\<lparr>g_reclaimed := g_reclaimed g1 @ cells\<rparr>)"

text \<open>
  The recursion of \<open>dispose_subtree\<close> over the owner tree, with a bound on its depth; \<open>None\<close> means the
  bound was too small. Every level below the first is entered from a non-empty \<open>owned\<close> list that was
  just emptied, so one more than the number of owned entries in the whole table is always enough.
\<close>

fun dispose_subtree_upto :: "nat \<Rightarrow> node_id \<Rightarrow> 'v inner \<Rightarrow> 'v inner option"
  and dispose_each :: "nat \<Rightarrow> node_id list \<Rightarrow> 'v inner \<Rightarrow> 'v inner option"
where
  "dispose_subtree_upto 0 n g = None"
| "dispose_subtree_upto (Suc d) n g =
     (if \<not> nd_live (node_at g n) then Some g
      else map_option (\<lambda>g'. unhook_and_free n (reclaim_cells n g'))
             (dispose_each d (rev (nd_owned (node_at g n))) (take_owned n g)))"
| "dispose_each d [] g = Some g"
| "dispose_each d (c # cs) g =
     (case dispose_subtree_upto d c g of None \<Rightarrow> None | Some g' \<Rightarrow> dispose_each d cs g')"

definition total_owned :: "'v inner \<Rightarrow> nat" where
  "total_owned g = sum_list (map (\<lambda>nd. length (nd_owned nd)) (g_nodes g))"

definition dispose_subtree :: "node_id \<Rightarrow> 'v inner \<Rightarrow> 'v inner" where
  "dispose_subtree n g =
     (case dispose_subtree_upto (Suc (total_owned g)) n g of Some g' \<Rightarrow> g' | None \<Rightarrow> g)"

definition dispose_owned :: "node_id \<Rightarrow> 'v inner \<Rightarrow> 'v inner" where
  "dispose_owned n g = fold dispose_subtree (rev (nd_owned (node_at g n))) (take_owned n g)"

section \<open>Recomputation\<close>

text \<open>\<open>begin_compute\<close>; \<open>None\<close> is the panic of \<open>expect\<close> on a node without a body.\<close>

definition begin_compute :: "node_id \<Rightarrow> 'v inner \<Rightarrow> ('v \<times> 'v inner) option" where
  "begin_compute n g =
     (let g1 = sever_sources n (dispose_owned n g);
          g2 = g1\<lparr>g_computing := g_computing g1 @ [n]\<rparr> in
      map_option (\<lambda>b. (b, g2)) (nd_body (node_at g2 n)))"

definition end_compute :: "node_id \<Rightarrow> 'v option \<Rightarrow> 'v inner \<Rightarrow> 'v inner" where
  "end_compute n result g =
     (let g1 = g\<lparr>g_computing := butlast (g_computing g)\<rparr>;
          was = is_dirty_computed (node_at g1 n);
          g2 = upd n (\<lambda>nd. (if nd_kind nd = Computed then nd\<lparr>nd_content := result\<rparr> else nd)\<lparr>nd_dirty := False\<rparr>) g1 in
      if was then g2\<lparr>g_dirty_computeds := g_dirty_computeds g2 - 1\<rparr> else g2)"

section \<open>The dirty walk\<close>

text \<open>One subscriber of the node being visited: the graph and the worklist after it. \<open>None\<close> is the
  panic of an index out of range.\<close>

definition mark_sub :: "node_id \<Rightarrow> 'v inner \<Rightarrow> node_id list \<Rightarrow> ('v inner \<times> node_id list) option" where
  "mark_sub sub g work =
     (if sub \<ge> length (g_nodes g) then None
      else Some (case nd_kind (node_at g sub) of
          Computed \<Rightarrow>
            if \<not> nd_dirty (node_at g sub) then
              (let g1 = upd sub (nd_dirty_update (\<lambda>_. True)) g;
                   g2 = g1\<lparr>g_dirty_computeds := g_dirty_computeds g1 + 1\<rparr>;
                   g3 = (if g_observed g2 then g2\<lparr>g_changed := g_changed g2 @ [sub]\<rparr> else g2) in
               (g3, work @ [sub]))
            else (g, work)
        | Effect \<Rightarrow>
            if \<not> nd_queued (node_at g sub) then
              (let g1 = upd sub (\<lambda>nd. nd\<lparr>nd_queued := True, nd_dirty := True\<rparr>) g in
               (g1\<lparr>g_queue := g_queue g1 @ [sub]\<rparr>, work))
            else (g, work)
        | Signal \<Rightarrow> (g, work)))"

fun mark_subs :: "node_id list \<Rightarrow> 'v inner \<Rightarrow> node_id list \<Rightarrow> ('v inner \<times> node_id list) option" where
  "mark_subs [] g work = Some (g, work)"
| "mark_subs (s # ss) g work =
     (case mark_sub s g work of None \<Rightarrow> None | Some (g', work') \<Rightarrow> mark_subs ss g' work')"

definition clean_computeds :: "'v inner \<Rightarrow> nat" where
  "clean_computeds g = length (filter (\<lambda>nd. nd_kind nd = Computed \<and> \<not> nd_dirty nd) (g_nodes g))"

lemma node_at_upd: "node_at (upd i f g) j = (if j = i \<and> i < length (g_nodes g) then f (node_at g i) else node_at g j)"
  by (auto simp: node_at_def upd_def nth_list_update list_update_beyond)

lemma upd_frame [simp]:
  "length (g_nodes (upd i f g)) = length (g_nodes g)" "g_free (upd i f g) = g_free g"
  "g_computing (upd i f g) = g_computing g" "g_dirty_computeds (upd i f g) = g_dirty_computeds g"
  "g_queue (upd i f g) = g_queue g" "g_reclaimed (upd i f g) = g_reclaimed g"
  "g_flushing (upd i f g) = g_flushing g" "g_observed (upd i f g) = g_observed g"
  "g_changed (upd i f g) = g_changed g"
  by (simp_all add: upd_def)

lemma node_at_fields [simp]:
  "node_at (g\<lparr>g_free := x1\<rparr>) = node_at g" "node_at (g\<lparr>g_computing := x2\<rparr>) = node_at g"
  "node_at (g\<lparr>g_dirty_computeds := x3\<rparr>) = node_at g" "node_at (g\<lparr>g_queue := x2\<rparr>) = node_at g"
  "node_at (g\<lparr>g_reclaimed := x5\<rparr>) = node_at g" "node_at (g\<lparr>g_changed := x2\<rparr>) = node_at g"
  "node_at (g\<lparr>g_flushing := x7\<rparr>) = node_at g" "node_at (g\<lparr>g_dirty_scratch := x2\<rparr>) = node_at g"
  "node_at (g\<lparr>g_round_scratch := x2\<rparr>) = node_at g"
  by (simp_all add: node_at_def fun_eq_iff)

lemma filter_update_less:
  assumes "i < length xs" and "P (xs ! i)" and "\<not> P y"
  shows "length (filter P (xs[i := y])) < length (filter P xs)"
  using assms
proof (induction xs arbitrary: i)
  case (Cons x xs)
  then show ?case by (cases i) auto
qed simp

lemma filter_update_same: "\<lbrakk>i < length xs; \<not> P (xs ! i); \<not> P y\<rbrakk> \<Longrightarrow> filter P (xs[i := y]) = filter P xs"
proof (induction xs arbitrary: i)
  case (Cons x xs)
  then show ?case by (cases i) auto
qed simp

lemma mark_sub_measure:
  assumes "mark_sub sub g work = Some (g', work')"
  shows "clean_computeds g' < clean_computeds g \<or> (clean_computeds g' = clean_computeds g \<and> work' = work)"
proof -
  have sub: "sub < length (g_nodes g)" using assms by (simp add: mark_sub_def split: if_splits)
  show ?thesis
  proof (cases "nd_kind (node_at g sub)")
    case Computed
    then show ?thesis
      using assms sub filter_update_less [of sub "g_nodes g" "\<lambda>nd. nd_kind nd = Computed \<and> \<not> nd_dirty nd"]
      by (auto simp: mark_sub_def clean_computeds_def upd_def node_at_def Let_def split: if_splits)
  next
    case Effect
    have "filter (\<lambda>nd. nd_kind nd = Computed \<and> \<not> nd_dirty nd)
        ((g_nodes g)[sub := (g_nodes g ! sub)\<lparr>nd_queued := True, nd_dirty := True\<rparr>]) =
      filter (\<lambda>nd. nd_kind nd = Computed \<and> \<not> nd_dirty nd) (g_nodes g)"
      using sub Effect by (intro filter_update_same) (simp_all add: node_at_def)
    with Effect assms sub show ?thesis
      by (auto simp: mark_sub_def clean_computeds_def upd_def node_at_def Let_def split: if_splits)
  next
    case Signal
    with assms sub show ?thesis by (simp add: mark_sub_def)
  qed
qed

lemma mark_subs_measure:
  "mark_subs ss g work = Some (g', work') \<Longrightarrow>
   clean_computeds g' < clean_computeds g \<or> (clean_computeds g' = clean_computeds g \<and> work' = work)"
proof (induction ss g work rule: mark_subs.induct)
  case (2 s ss g work)
  then obtain g1 work1 where "mark_sub s g work = Some (g1, work1)" "mark_subs ss g1 work1 = Some (g', work')"
    by (auto split: option.splits)
  with 2(1) mark_sub_measure [of s g work g1 work1] show ?case by fastforce
qed simp

function mark_loop :: "'v inner \<Rightarrow> node_id list \<Rightarrow> 'v inner option" where
  "mark_loop g work =
     (if work = [] then Some g
      else if last work \<ge> length (g_nodes g) then None
      else case mark_subs (nd_subscribers (node_at g (last work))) g (butlast work) of
             None \<Rightarrow> None
           | Some (g', work') \<Rightarrow> mark_loop g' work')"
  by pat_completeness auto
termination
proof (relation "inv_image (less_than <*lex*> less_than) (\<lambda>(g, work). (clean_computeds g, length work))")
  fix g :: "'v inner" and work :: "node_id list" and st g' work'
  assume "work \<noteq> []" and "mark_subs (nd_subscribers (node_at g (last work))) g (butlast work) = Some st"
    and "(g', work') = st"
  with mark_subs_measure [of "nd_subscribers (node_at g (last work))" g "butlast work" g' work']
  have "clean_computeds g' < clean_computeds g \<or>
      (clean_computeds g' = clean_computeds g \<and> length work' < length work)" by auto
  then show "((g', work'), g, work) \<in> inv_image (less_than <*lex*> less_than) (\<lambda>(g, work). (clean_computeds g, length work))"
    by auto
qed (intro wf_inv_image wf_lex_prod wf_less_than)

declare mark_loop.simps [simp del]

definition mark_dirty_subscribers :: "node_id \<Rightarrow> 'v inner \<Rightarrow> 'v inner option" where
  "mark_dirty_subscribers n g = map_option (g_dirty_scratch_update (\<lambda>_. [])) (mark_loop g [n])"

section \<open>The public operations that do not run a body\<close>

definition alloc :: "'v node \<Rightarrow> 'v inner \<Rightarrow> node_id \<times> 'v inner" where
  "alloc nd g =
     (if g_free g \<noteq> [] then
        (let i = last (g_free g); g1 = g\<lparr>g_free := butlast (g_free g)\<rparr> in (i, upd i (\<lambda>_. nd) g1))
      else (length (g_nodes g), g\<lparr>g_nodes := g_nodes g @ [nd]\<rparr>))"

definition signal :: "'v \<Rightarrow> 'v inner \<Rightarrow> node_id \<times> 'v inner" where
  "signal initial g =
     (let nd = placeholder\<lparr>nd_kind := Signal, nd_live := True, nd_content := Some initial\<rparr> in
      case alloc nd g of (i, g1) \<Rightarrow> (i, adopt i g1))"

definition signal_root :: "'v \<Rightarrow> 'v inner \<Rightarrow> node_id \<times> 'v inner" where
  "signal_root initial g =
     (let nd = placeholder\<lparr>nd_kind := Signal, nd_live := True, nd_content := Some initial\<rparr> in alloc nd g)"

definition computed :: "'v \<Rightarrow> 'v \<Rightarrow> 'v inner \<Rightarrow> node_id \<times> 'v inner" where
  "computed body memo g =
     (let nd = placeholder\<lparr>nd_kind := Computed, nd_live := True, nd_dirty := True,
            nd_body := Some body, nd_content := Some memo\<rparr>;
          g0 = g\<lparr>g_dirty_computeds := g_dirty_computeds g + 1\<rparr> in
      case alloc nd g0 of (i, g1) \<Rightarrow> (i, adopt i g1))"

definition effect :: "'v \<Rightarrow> 'v inner \<Rightarrow> node_id \<times> 'v inner" where
  "effect body g =
     (let nd = placeholder\<lparr>nd_kind := Effect, nd_live := True, nd_dirty := True, nd_queued := True,
            nd_body := Some body\<rparr> in
      case alloc nd g of (i, g1) \<Rightarrow>
        (let g2 = adopt i g1 in (i, g2\<lparr>g_queue := g_queue g2 @ [i]\<rparr>)))"

definition note_change :: "node_id \<Rightarrow> 'v inner \<Rightarrow> 'v inner" where
  "note_change n g = (if g_observed g then g\<lparr>g_changed := g_changed g @ [n]\<rparr> else g)"

definition set_signal :: "node_id \<Rightarrow> 'v \<Rightarrow> 'v inner \<Rightarrow> 'v inner option" where
  "set_signal n v g =
     (if n \<ge> length (g_nodes g) then None
      else mark_dirty_subscribers n (note_change n (upd n (nd_content_update (\<lambda>_. Some v)) g)))"

definition touch :: "node_id \<Rightarrow> 'v inner \<Rightarrow> 'v inner option" where
  "touch n g = (if n \<ge> length (g_nodes g) then None else mark_dirty_subscribers n (note_change n g))"

definition dispose :: "node_id \<Rightarrow> 'v inner \<Rightarrow> 'v inner option" where
  "dispose n g =
     (if n \<ge> length (g_nodes g) then None
      else if \<not> nd_live (node_at g n) then Some g
      else
        let g1 = (case nd_owner (node_at g n) of
                    Some own \<Rightarrow>
                      if nd_live (node_at g own) then upd own (nd_owned_update (remove_one n)) g else g
                  | None \<Rightarrow> g) in
        Some (unhook_and_free n (dispose_owned n g1)))"

definition for_each_value :: "'v inner \<Rightarrow> 'v list" where
  "for_each_value g =
     concat (map (\<lambda>nd. if nd_live nd then opt_list (nd_content nd) @ opt_list (nd_body nd) else []) (g_nodes g))"

definition clear :: "'v inner \<Rightarrow> 'v inner" where
  "clear g = g\<lparr>g_nodes := [], g_free := [], g_computing := [], g_queue := [], g_reclaimed := [],
     g_dirty_computeds := 0, g_round_scratch := [], g_dirty_scratch := [], g_changed := []\<rparr>"

definition drain_reclaimed :: "'v inner \<Rightarrow> 'v list \<times> 'v inner" where
  "drain_reclaimed g = (g_reclaimed g, g\<lparr>g_reclaimed := []\<rparr>)"

definition live_count :: "'v inner \<Rightarrow> nat" where
  "live_count g = length (filter nd_live (g_nodes g))"

definition kind_of :: "node_id \<Rightarrow> 'v inner \<Rightarrow> node_kind option" where
  "kind_of n g = (if n < length (g_nodes g) then Some (nd_kind (node_at g n)) else None)"

definition tracking :: "'v inner \<Rightarrow> bool" where
  "tracking g = (g_computing g \<noteq> [])"

definition dirty_computed_count :: "'v inner \<Rightarrow> nat" where
  "dirty_computed_count g = g_dirty_computeds g"

definition set_observed :: "bool \<Rightarrow> 'v inner \<Rightarrow> 'v inner" where
  "set_observed on g = (let g1 = g\<lparr>g_observed := on\<rparr> in if on then g1 else g1\<lparr>g_changed := []\<rparr>)"

definition drain_changed :: "'v inner \<Rightarrow> node_id list \<times> 'v inner" where
  "drain_changed g = (g_changed g, g\<lparr>g_changed := []\<rparr>)"

definition is_live :: "node_id \<Rightarrow> 'v inner \<Rightarrow> bool option" where
  "is_live n g = (if n < length (g_nodes g) then Some (nd_live (node_at g n)) else None)"

definition pending_effects :: "'v inner \<Rightarrow> nat" where
  "pending_effects g = length (g_queue g)"

end
