(* ===== verification/Reactive_Invariant.thy ===== *)
theory Reactive_Invariant
  imports Reactive_Graph
begin

text \<open>
  The structural invariant of the reactive graph and its preservation by every operation: edges are
  symmetric and in range, a disposed slot holds nothing and is on the free list exactly once, the
  kinds have the cells they need, and \<open>dirty_computeds\<close> counts the stale memos.
\<close>

section \<open>The invariant\<close>

definition node_ok :: "nat \<Rightarrow> node_id \<Rightarrow> 'v node \<Rightarrow> bool" where
  "node_ok n i nd =
     (distinct (nd_sources nd) \<and> distinct (nd_subscribers nd) \<and>
      i \<notin> set (nd_sources nd) \<and> set (nd_sources nd) \<subseteq> {..<n} \<and> set (nd_subscribers nd) \<subseteq> {..<n} \<and>
      set (nd_owned nd) \<subseteq> {..<n} \<and> set_option (nd_owner nd) \<subseteq> {..<n} \<and>
      (\<not> nd_live nd \<longrightarrow> nd_sources nd = [] \<and> nd_subscribers nd = [] \<and> nd_content nd = None \<and>
         nd_body nd = None \<and> \<not> nd_dirty nd \<and> \<not> nd_queued nd) \<and>
      (nd_live nd \<longrightarrow>
         (nd_kind nd = Signal \<longrightarrow> nd_sources nd = [] \<and> \<not> nd_dirty nd \<and> \<not> nd_queued nd \<and>
            nd_content nd \<noteq> None \<and> nd_body nd = None) \<and>
         (nd_kind nd = Computed \<longrightarrow> \<not> nd_queued nd \<and> nd_content nd \<noteq> None \<and> nd_body nd \<noteq> None) \<and>
         (nd_kind nd = Effect \<longrightarrow> nd_content nd = None \<and> nd_body nd \<noteq> None)))"

definition symmetric :: "nat \<Rightarrow> (node_id \<Rightarrow> 'v node) \<Rightarrow> bool" where
  "symmetric n N =
     (\<forall>i < n. \<forall>j < n. j \<in> set (nd_sources (N i)) \<longleftrightarrow> i \<in> set (nd_subscribers (N j)))"

definition dirty_set :: "nat \<Rightarrow> (node_id \<Rightarrow> 'v node) \<Rightarrow> node_id set" where
  "dirty_set n N = {i. i < n \<and> is_dirty_computed (N i)}"

definition graph_ok :: "'v inner \<Rightarrow> bool" where
  "graph_ok g =
     (let n = length (g_nodes g); N = node_at g in
      (\<forall>i < n. node_ok n i (N i)) \<and> symmetric n N \<and>
      distinct (g_free g) \<and> set (g_free g) = {i. i < n \<and> \<not> nd_live (N i)} \<and>
      g_dirty_computeds g = card (dirty_set n N) \<and>
      set (g_queue g) \<subseteq> {..<n})"

text \<open>The computing stack holds live nodes that can have sources.\<close>

definition frames_ok :: "'v inner \<Rightarrow> bool" where
  "frames_ok g =
     (\<forall>c \<in> set (g_computing g). c < length (g_nodes g) \<and> nd_live (node_at g c) \<and> nd_kind (node_at g c) \<noteq> Signal)"

lemma graph_okD:
  assumes "graph_ok g"
  shows "i < length (g_nodes g) \<Longrightarrow> node_ok (length (g_nodes g)) i (node_at g i)"
    and "symmetric (length (g_nodes g)) (node_at g)"
    and "distinct (g_free g)" "set (g_free g) = {i. i < length (g_nodes g) \<and> \<not> nd_live (node_at g i)}"
    and "g_dirty_computeds g = card (dirty_set (length (g_nodes g)) (node_at g))"
    and "set (g_queue g) \<subseteq> {..<length (g_nodes g)}"
  using assms by (auto simp: graph_ok_def Let_def)

lemma finite_dirty_set [simp]: "finite (dirty_set n N)"
  by (simp add: dirty_set_def)

text \<open>Rewriting one node, when its edges, its kind and its liveness stay.\<close>

definition keeps_shape :: "'v node \<Rightarrow> 'v node \<Rightarrow> bool" where
  "keeps_shape nd nd' =
     (nd_sources nd' = nd_sources nd \<and> nd_subscribers nd' = nd_subscribers nd \<and>
      nd_kind nd' = nd_kind nd \<and> nd_live nd' = nd_live nd)"

lemma symmetric_cong:
  assumes "\<And>i. i < n \<Longrightarrow> nd_sources (N' i) = nd_sources (N i)"
    and "\<And>i. i < n \<Longrightarrow> nd_subscribers (N' i) = nd_subscribers (N i)"
  shows "symmetric n N' = symmetric n N"
  using assms by (simp add: symmetric_def)

section \<open>Severing edges\<close>

lemma fold_drop_subscriber:
  assumes "distinct ss"
  shows "node_at (fold (drop_subscriber n) ss g) j =
      (if j \<in> set ss \<and> j < length (g_nodes g)
       then nd_subscribers_update (remove_one n) (node_at g j) else node_at g j) \<and>
    length (g_nodes (fold (drop_subscriber n) ss g)) = length (g_nodes g)"
  using assms
proof (induction ss arbitrary: g)
  case (Cons s ss)
  then show ?case by (auto simp: drop_subscriber_def node_at_upd)
qed simp

lemma fold_drop_source:
  assumes "distinct ss"
  shows "node_at (fold (drop_source n) ss g) j =
      (if j \<in> set ss \<and> j < length (g_nodes g)
       then nd_sources_update (remove_one n) (node_at g j) else node_at g j) \<and>
    length (g_nodes (fold (drop_source n) ss g)) = length (g_nodes g)"
  using assms
proof (induction ss arbitrary: g)
  case (Cons s ss)
  then show ?case by (auto simp: drop_source_def node_at_upd)
qed simp

lemma fold_drop_frame:
  "g_free (fold (drop_subscriber n) ss g) = g_free g \<and> g_computing (fold (drop_subscriber n) ss g) = g_computing g \<and>
   g_dirty_computeds (fold (drop_subscriber n) ss g) = g_dirty_computeds g \<and> g_queue (fold (drop_subscriber n) ss g) = g_queue g \<and>
   g_reclaimed (fold (drop_subscriber n) ss g) = g_reclaimed g \<and> g_flushing (fold (drop_subscriber n) ss g) = g_flushing g"
  "g_free (fold (drop_source n) ss g) = g_free g \<and> g_computing (fold (drop_source n) ss g) = g_computing g \<and>
   g_dirty_computeds (fold (drop_source n) ss g) = g_dirty_computeds g \<and> g_queue (fold (drop_source n) ss g) = g_queue g \<and>
   g_reclaimed (fold (drop_source n) ss g) = g_reclaimed g \<and> g_flushing (fold (drop_source n) ss g) = g_flushing g"
  by (induction ss arbitrary: g) (simp_all add: drop_subscriber_def drop_source_def)

lemma node_ok_edges:
  assumes "node_ok n i nd"
  shows "distinct (nd_sources nd)" "distinct (nd_subscribers nd)" "i \<notin> set (nd_sources nd)"
    "set (nd_sources nd) \<subseteq> {..<n}" "set (nd_subscribers nd) \<subseteq> {..<n}"
  using assms by (auto simp: node_ok_def)

lemma no_self_subscriber:
  assumes "graph_ok g" and "i < length (g_nodes g)"
  shows "i \<notin> set (nd_subscribers (node_at g i))"
  using node_ok_edges(3) [OF graph_okD(1) [OF assms]] graph_okD(2) [OF assms(1)] assms(2)
  by (auto simp: symmetric_def)

lemma remove_edge:
  assumes "graph_ok g" and "i < length (g_nodes g)"
  shows "set (remove_one n (nd_subscribers (node_at g i))) = set (nd_subscribers (node_at g i)) - {n}"
    "set (remove_one n (nd_sources (node_at g i))) = set (nd_sources (node_at g i)) - {n}"
  using node_ok_edges(1,2) [OF graph_okD(1) [OF assms]] by (simp_all add: set_remove_one)

lemma sever_sources_nodes:
  assumes "graph_ok g" and "n < length (g_nodes g)"
  shows "node_at (sever_sources n g) j =
      (if j = n then (node_at g n)\<lparr>nd_sources := []\<rparr>
       else if j \<in> set (nd_sources (node_at g n)) then nd_subscribers_update (remove_one n) (node_at g j)
       else node_at g j)"
    and "length (g_nodes (sever_sources n g)) = length (g_nodes g)"
  using node_ok_edges [OF graph_okD(1) [OF assms]] assms(2)
  by (auto simp: sever_sources_def fold_drop_subscriber node_at_upd subset_iff)

lemma sever_subscribers_nodes:
  assumes "graph_ok g" and "n < length (g_nodes g)"
  shows "node_at (sever_subscribers n g) j =
      (if j = n then (node_at g n)\<lparr>nd_subscribers := []\<rparr>
       else if j \<in> set (nd_subscribers (node_at g n)) then nd_sources_update (remove_one n) (node_at g j)
       else node_at g j)"
    and "length (g_nodes (sever_subscribers n g)) = length (g_nodes g)"
  using node_ok_edges [OF graph_okD(1) [OF assms]] assms(2) no_self_subscriber [OF assms]
  by (auto simp: sever_subscribers_def fold_drop_source node_at_upd subset_iff)

lemma sever_frame [simp]:
  "g_free (sever_sources n g) = g_free g" "g_computing (sever_sources n g) = g_computing g"
  "g_dirty_computeds (sever_sources n g) = g_dirty_computeds g" "g_queue (sever_sources n g) = g_queue g"
  "g_reclaimed (sever_sources n g) = g_reclaimed g" "g_flushing (sever_sources n g) = g_flushing g"
  "g_free (sever_subscribers n g) = g_free g" "g_computing (sever_subscribers n g) = g_computing g"
  "g_dirty_computeds (sever_subscribers n g) = g_dirty_computeds g" "g_queue (sever_subscribers n g) = g_queue g"
  "g_reclaimed (sever_subscribers n g) = g_reclaimed g" "g_flushing (sever_subscribers n g) = g_flushing g"
  by (simp_all add: sever_sources_def sever_subscribers_def fold_drop_frame)

text \<open>An update that only removes edges, symmetrically, keeps the invariant.\<close>

lemma graph_ok_shrink:
  assumes "graph_ok g" and "length (g_nodes g') = length (g_nodes g)"
    and "\<And>i. i < length (g_nodes g) \<Longrightarrow> \<exists>ss us. node_at g' i = (node_at g i)\<lparr>nd_sources := ss, nd_subscribers := us\<rparr> \<and>
       distinct ss \<and> distinct us \<and> set ss \<subseteq> set (nd_sources (node_at g i)) \<and> set us \<subseteq> set (nd_subscribers (node_at g i))"
    and "symmetric (length (g_nodes g)) (node_at g')"
    and "g_free g' = g_free g" "g_dirty_computeds g' = g_dirty_computeds g" "g_queue g' = g_queue g"
  shows "graph_ok g'"
proof -
  let ?n = "length (g_nodes g)"
  have ok: "node_ok ?n i (node_at g' i)" and same: "nd_live (node_at g' i) = nd_live (node_at g i)"
    and dirty: "is_dirty_computed (node_at g' i) = is_dirty_computed (node_at g i)" if i: "i < ?n" for i
  proof -
    from assms(3) [OF i] obtain ss us where e: "node_at g' i = (node_at g i)\<lparr>nd_sources := ss, nd_subscribers := us\<rparr>"
      "distinct ss" "distinct us" "set ss \<subseteq> set (nd_sources (node_at g i))" "set us \<subseteq> set (nd_subscribers (node_at g i))"
      by blast
    have ok: "node_ok ?n i (node_at g i)" by (rule graph_okD(1) [OF assms(1) i])
    show "node_ok ?n i (node_at g' i)"
      unfolding e(1) using e(2-5) ok by (cases "nd_kind (node_at g i)") (auto simp: node_ok_def)
    show "nd_live (node_at g' i) = nd_live (node_at g i)"
      "is_dirty_computed (node_at g' i) = is_dirty_computed (node_at g i)"
      by (simp_all add: e(1) is_dirty_computed_def)
  qed
  have "dirty_set ?n (node_at g') = dirty_set ?n (node_at g)" using dirty by (auto simp: dirty_set_def)
  with ok same assms graph_okD [OF assms(1)] show ?thesis by (auto simp: graph_ok_def Let_def)
qed

lemma sever_sources_ok:
  assumes "graph_ok g" and "n < length (g_nodes g)"
  shows "graph_ok (sever_sources n g)"
proof (rule graph_ok_shrink [OF assms(1)])
  fix i assume i: "i < length (g_nodes g)"
  note e = node_ok_edges [OF graph_okD(1) [OF assms(1) i]]
  show "\<exists>ss us. node_at (sever_sources n g) i = (node_at g i)\<lparr>nd_sources := ss, nd_subscribers := us\<rparr> \<and>
       distinct ss \<and> distinct us \<and> set ss \<subseteq> set (nd_sources (node_at g i)) \<and> set us \<subseteq> set (nd_subscribers (node_at g i))"
    unfolding sever_sources_nodes(1) [OF assms]
    by (intro exI [of _ "if i = n then [] else nd_sources (node_at g i)"]
        exI [of _ "if i \<noteq> n \<and> i \<in> set (nd_sources (node_at g n)) then remove_one n (nd_subscribers (node_at g i))
          else nd_subscribers (node_at g i)"])
      (use e in \<open>auto simp: distinct_remove_one dest: subsetD [OF set_remove_one_subset]\<close>)
next
  show "symmetric (length (g_nodes g)) (node_at (sever_sources n g))"
    using graph_okD(2) [OF assms(1)] no_self_subscriber [OF assms] assms(2)
    unfolding symmetric_def sever_sources_nodes(1) [OF assms]
    by (auto simp: remove_edge [OF assms(1)])
qed (simp_all add: sever_sources_nodes(2) [OF assms])

lemma sever_subscribers_ok:
  assumes "graph_ok g" and "n < length (g_nodes g)"
  shows "graph_ok (sever_subscribers n g)"
proof (rule graph_ok_shrink [OF assms(1)])
  fix i assume i: "i < length (g_nodes g)"
  note e = node_ok_edges [OF graph_okD(1) [OF assms(1) i]]
  show "\<exists>ss us. node_at (sever_subscribers n g) i = (node_at g i)\<lparr>nd_sources := ss, nd_subscribers := us\<rparr> \<and>
       distinct ss \<and> distinct us \<and> set ss \<subseteq> set (nd_sources (node_at g i)) \<and> set us \<subseteq> set (nd_subscribers (node_at g i))"
    unfolding sever_subscribers_nodes(1) [OF assms]
    by (intro exI [of _ "if i \<noteq> n \<and> i \<in> set (nd_subscribers (node_at g n)) then remove_one n (nd_sources (node_at g i))
          else nd_sources (node_at g i)"] exI [of _ "if i = n then [] else nd_subscribers (node_at g i)"])
      (use e in \<open>auto simp: distinct_remove_one dest: subsetD [OF set_remove_one_subset]\<close>)
next
  show "symmetric (length (g_nodes g)) (node_at (sever_subscribers n g))"
    using graph_okD(2) [OF assms(1)] no_self_subscriber [OF assms] assms(2)
    unfolding symmetric_def sever_subscribers_nodes(1) [OF assms]
    by (auto simp: remove_edge [OF assms(1)])
qed (simp_all add: sever_subscribers_nodes(2) [OF assms])

section \<open>Freeing a node\<close>

definition isolate :: "node_id \<Rightarrow> 'v node \<Rightarrow> 'v node" where
  "isolate n nd = nd\<lparr>nd_sources := remove_one n (nd_sources nd), nd_subscribers := remove_one n (nd_subscribers nd)\<rparr>"

lemma sever_both:
  assumes "graph_ok g" and "n < length (g_nodes g)" and "j < length (g_nodes g)"
  shows "node_at (sever_subscribers n (sever_sources n g)) j =
    (if j = n then (node_at g n)\<lparr>nd_sources := [], nd_subscribers := []\<rparr> else isolate n (node_at g j))"
proof -
  have sym: "(n \<in> set (nd_subscribers (node_at g j))) = (j \<in> set (nd_sources (node_at g n)))"
    "(n \<in> set (nd_sources (node_at g j))) = (j \<in> set (nd_subscribers (node_at g n)))"
    using graph_okD(2) [OF assms(1)] assms(2,3) by (auto simp: symmetric_def)
  have self: "n \<notin> set (nd_sources (node_at g n))" using node_ok_edges(3) [OF graph_okD(1) [OF assms(1,2)]] .
  let ?g = "sever_sources n g"
  have g: "graph_ok ?g" "n < length (g_nodes ?g)"
    using assms by (simp_all add: sever_sources_ok sever_sources_nodes(2))
  show ?thesis
    unfolding sever_subscribers_nodes(1) [OF g] sever_sources_nodes(1) [OF assms(1,2)]
    using sym self by (auto simp: isolate_def)
qed

lemma unhook_frame [simp]:
  "g_computing (unhook_and_free n g) = g_computing g" "g_queue (unhook_and_free n g) = g_queue g"
  "g_reclaimed (unhook_and_free n g) = g_reclaimed g" "g_flushing (unhook_and_free n g) = g_flushing g"
  "g_free (unhook_and_free n g) = g_free g @ [n]"
  by (simp_all add: unhook_and_free_def Let_def)

lemma unhook_nodes:
  assumes "graph_ok g" and "n < length (g_nodes g)"
  shows "length (g_nodes (unhook_and_free n g)) = length (g_nodes g)"
    and "j < length (g_nodes g) \<Longrightarrow> node_at (unhook_and_free n g) j =
      (if j = n then release_node ((node_at g n)\<lparr>nd_sources := [], nd_subscribers := []\<rparr>)
       else isolate n (node_at g j))"
proof -
  have g: "graph_ok (sever_sources n g)" "n < length (g_nodes (sever_sources n g))"
    using assms by (simp_all add: sever_sources_ok sever_sources_nodes(2))
  have len: "length (g_nodes (sever_subscribers n (sever_sources n g))) = length (g_nodes g)"
    by (simp add: sever_subscribers_nodes(2) [OF g] sever_sources_nodes(2) [OF assms])
  then show "length (g_nodes (unhook_and_free n g)) = length (g_nodes g)"
    by (simp add: unhook_and_free_def Let_def)
  show "j < length (g_nodes g) \<Longrightarrow> node_at (unhook_and_free n g) j =
      (if j = n then release_node ((node_at g n)\<lparr>nd_sources := [], nd_subscribers := []\<rparr>)
       else isolate n (node_at g j))"
    using len assms(2) by (simp add: unhook_and_free_def Let_def node_at_upd sever_both [OF assms])
qed

lemma isolate_simps [simp]:
  "nd_live (isolate n nd) = nd_live nd" "nd_kind (isolate n nd) = nd_kind nd" "nd_dirty (isolate n nd) = nd_dirty nd"
  "nd_queued (isolate n nd) = nd_queued nd" "nd_content (isolate n nd) = nd_content nd"
  "nd_body (isolate n nd) = nd_body nd" "nd_owned (isolate n nd) = nd_owned nd" "nd_owner (isolate n nd) = nd_owner nd"
  "is_dirty_computed (isolate n nd) = is_dirty_computed nd"
  by (simp_all add: isolate_def is_dirty_computed_def)

lemma release_simps [simp]:
  "nd_live (release_node nd) = False" "nd_sources (release_node nd) = nd_sources nd"
  "nd_subscribers (release_node nd) = nd_subscribers nd" "nd_dirty (release_node nd) = False"
  "nd_owned (release_node nd) = nd_owned nd" "nd_content (release_node nd) = None" "nd_body (release_node nd) = None"
  "nd_queued (release_node nd) = False" "is_dirty_computed (release_node nd) = False" "nd_kind (release_node nd) = nd_kind nd"
  by (simp_all add: release_node_def is_dirty_computed_def)

lemma isolate_ok: "node_ok n i nd \<Longrightarrow> node_ok n i (isolate m nd)"
  using set_remove_one_subset [of m "nd_sources nd"] set_remove_one_subset [of m "nd_subscribers nd"]
  by (cases "nd_kind nd") (auto simp: node_ok_def isolate_def distinct_remove_one)

lemma unhook_ok:
  assumes "graph_ok g" and "n < length (g_nodes g)" and "nd_live (node_at g n)"
  shows "graph_ok (unhook_and_free n g)"
proof -
  let ?n = "length (g_nodes g)" and ?g = "unhook_and_free n g"
  note nodes = unhook_nodes [OF assms(1,2)]
  have ok: "node_ok ?n i (node_at ?g i)" if "i < ?n" for i
  proof (cases "i = n")
    case True
    with that graph_okD(1) [OF assms(1) that] show ?thesis by (simp add: nodes node_ok_def release_node_def)
  next
    case False
    with that isolate_ok [OF graph_okD(1) [OF assms(1) that]] show ?thesis by (simp add: nodes)
  qed
  have sym: "symmetric ?n (node_at ?g)"
    unfolding symmetric_def
  proof (intro allI impI)
    fix i j assume ij: "i < ?n" "j < ?n"
    with graph_okD(2) [OF assms(1)]
    have "j \<in> set (nd_sources (node_at g i)) \<longleftrightarrow> i \<in> set (nd_subscribers (node_at g j))"
      by (simp add: symmetric_def)
    with ij show "j \<in> set (nd_sources (node_at ?g i)) \<longleftrightarrow> i \<in> set (nd_subscribers (node_at ?g j))"
      by (cases "i = n"; cases "j = n") (simp_all add: nodes isolate_def remove_edge [OF assms(1)])
  qed
  have free: "distinct (g_free ?g)" "set (g_free ?g) = {i. i < ?n \<and> \<not> nd_live (node_at ?g i)}"
  proof -
    have "nd_live (node_at ?g i) = (i \<noteq> n \<and> nd_live (node_at g i))" if "i < ?n" for i
      using that by (simp add: nodes)
    then show "distinct (g_free ?g)" "set (g_free ?g) = {i. i < ?n \<and> \<not> nd_live (node_at ?g i)}"
      using graph_okD(3,4) [OF assms(1)] assms(2,3) by auto
  qed
  have dirty: "dirty_set ?n (node_at ?g) = dirty_set ?n (node_at g) - {n}"
  proof -
    have "is_dirty_computed (node_at ?g i) = (i \<noteq> n \<and> is_dirty_computed (node_at g i))" if "i < ?n" for i
      using that by (simp add: nodes)
    then show ?thesis by (auto simp: dirty_set_def)
  qed
  have count: "g_dirty_computeds ?g = card (dirty_set ?n (node_at ?g))"
  proof (cases "is_dirty_computed (node_at g n)")
    case True
    then have "n \<in> dirty_set ?n (node_at g)" using assms(2) by (simp add: dirty_set_def)
    moreover have "g_dirty_computeds ?g = g_dirty_computeds g - 1"
      using True sever_both [OF assms(1,2,2)] by (simp add: unhook_and_free_def Let_def is_dirty_computed_def)
    ultimately show ?thesis using graph_okD(5) [OF assms(1)] by (simp add: dirty card_Diff_singleton)
  next
    case False
    then have "g_dirty_computeds ?g = g_dirty_computeds g"
      using sever_both [OF assms(1,2,2)] by (auto simp: unhook_and_free_def Let_def is_dirty_computed_def)
    moreover have "n \<notin> dirty_set ?n (node_at g)" using False by (simp add: dirty_set_def)
    ultimately show ?thesis using graph_okD(5) [OF assms(1)] by (simp add: dirty)
  qed
  from ok sym free count graph_okD(6) [OF assms(1)] show ?thesis by (simp add: graph_ok_def Let_def nodes(1))
qed

section \<open>Teardown\<close>

lemma graph_ok_owned:
  assumes "graph_ok g" and "\<And>xs. set (f xs) \<subseteq> set xs \<union> {..<length (g_nodes g)}"
  shows "graph_ok (upd n (nd_owned_update f) g)"
proof -
  let ?g = "upd n (nd_owned_update f) g"
  have same: "nd_sources (node_at ?g i) = nd_sources (node_at g i)"
    "nd_subscribers (node_at ?g i) = nd_subscribers (node_at g i)"
    "nd_live (node_at ?g i) = nd_live (node_at g i)"
    "is_dirty_computed (node_at ?g i) = is_dirty_computed (node_at g i)" for i
    by (simp_all add: node_at_upd is_dirty_computed_def)
  have "node_ok (length (g_nodes g)) i (node_at ?g i)" if "i < length (g_nodes g)" for i
    using graph_okD(1) [OF assms(1) that] assms(2) [of "nd_owned (node_at g n)"]
    by (auto simp: node_at_upd node_ok_def)
  with assms(1) same show ?thesis by (simp add: graph_ok_def Let_def symmetric_def dirty_set_def)
qed

lemma inner_eqI:
  assumes "length (g_nodes g) = length (g_nodes h)"
    and "\<And>i. i < length (g_nodes h) \<Longrightarrow> node_at g i = node_at h i"
    and "g\<lparr>g_nodes := []\<rparr> = h\<lparr>g_nodes := []\<rparr>"
  shows "g = h"
proof -
  have "g_nodes g = g_nodes h" using assms(1,2) by (simp add: node_at_def list_eq_iff_nth_eq)
  with assms(3) show ?thesis by (cases g; cases h) simp
qed

text \<open>
  Reclaiming the cells before freeing the node is freeing it and appending the cells: the release
  clears them anyway, and no edge depends on them.
\<close>

definition node_cells :: "'v node \<Rightarrow> 'v list" where
  "node_cells nd = opt_list (nd_content nd) @ opt_list (nd_body nd)"

lemma upd_upd_comm: "i \<noteq> j \<Longrightarrow> upd i f (upd j h g) = upd j h (upd i f g)"
  by (simp add: upd_def list_update_swap)

lemma upd_upd_same: "(\<And>nd. f (h nd) = h (f nd)) \<Longrightarrow> upd i f (upd i h g) = upd i h (upd i f g)"
  by (cases "i < length (g_nodes g)") (simp_all add: upd_def list_update_beyond)

lemma upd_clear_cells_comm:
  assumes "\<And>nd. f (nd\<lparr>nd_content := None, nd_body := None\<rparr>) = (f nd)\<lparr>nd_content := None, nd_body := None\<rparr>"
  shows "upd i f (upd n (\<lambda>nd. nd\<lparr>nd_content := None, nd_body := None\<rparr>) g) =
    upd n (\<lambda>nd. nd\<lparr>nd_content := None, nd_body := None\<rparr>) (upd i f g)"
  by (cases "i = n") (simp_all add: upd_upd_comm upd_upd_same assms)

definition clear_cells :: "node_id \<Rightarrow> 'v inner \<Rightarrow> 'v inner" where
  "clear_cells n g = upd n (\<lambda>nd. nd\<lparr>nd_content := None, nd_body := None\<rparr>) g"

lemma node_at_clear_cells [simp]:
  "nd_sources (node_at (clear_cells n g) i) = nd_sources (node_at g i)"
  "nd_subscribers (node_at (clear_cells n g) i) = nd_subscribers (node_at g i)"
  "is_dirty_computed (node_at (clear_cells n g) i) = is_dirty_computed (node_at g i)"
  by (simp_all add: clear_cells_def node_at_upd is_dirty_computed_def)

lemma drop_clear_comm:
  "drop_subscriber m s (clear_cells n g) = clear_cells n (drop_subscriber m s g)"
  "drop_source m s (clear_cells n g) = clear_cells n (drop_source m s g)"
  by (simp_all add: drop_subscriber_def drop_source_def clear_cells_def upd_clear_cells_comm)

lemma fold_drop_clear_comm:
  "fold (drop_subscriber m) ss (clear_cells n g) = clear_cells n (fold (drop_subscriber m) ss g)"
  "fold (drop_source m) ss (clear_cells n g) = clear_cells n (fold (drop_source m) ss g)"
  by (induction ss arbitrary: g) (simp_all add: drop_clear_comm)

lemma sever_clear_comm:
  "sever_sources m (clear_cells n g) = clear_cells n (sever_sources m g)"
  "sever_subscribers m (clear_cells n g) = clear_cells n (sever_subscribers m g)"
  unfolding sever_sources_def sever_subscribers_def
  by (simp_all add: clear_cells_def upd_clear_cells_comm flip: fold_drop_clear_comm [unfolded clear_cells_def])
    (simp_all add: node_at_upd)

lemma upd_fields_comm:
  "upd i f (g\<lparr>g_reclaimed := x\<rparr>) = (upd i f g)\<lparr>g_reclaimed := x\<rparr>"
  "upd i f (g\<lparr>g_dirty_computeds := y\<rparr>) = (upd i f g)\<lparr>g_dirty_computeds := y\<rparr>"
  by (simp_all add: upd_def)

lemma fold_drop_reclaimed:
  "fold (drop_subscriber m) ss (g\<lparr>g_reclaimed := x\<rparr>) = (fold (drop_subscriber m) ss g)\<lparr>g_reclaimed := x\<rparr>"
  "fold (drop_source m) ss (g\<lparr>g_reclaimed := x\<rparr>) = (fold (drop_source m) ss g)\<lparr>g_reclaimed := x\<rparr>"
  by (induction ss arbitrary: g) (simp_all add: drop_subscriber_def drop_source_def upd_fields_comm)

lemma sever_reclaimed:
  "sever_sources m (g\<lparr>g_reclaimed := x\<rparr>) = (sever_sources m g)\<lparr>g_reclaimed := x\<rparr>"
  "sever_subscribers m (g\<lparr>g_reclaimed := x\<rparr>) = (sever_subscribers m g)\<lparr>g_reclaimed := x\<rparr>"
  by (simp_all add: sever_sources_def sever_subscribers_def upd_fields_comm fold_drop_reclaimed)

lemma release_clear: "upd n release_node (clear_cells n g) = upd n release_node g"
  by (cases "n < length (g_nodes g)") (simp_all add: clear_cells_def upd_def release_node_def list_update_beyond)

lemma unhook_reclaim:
  "unhook_and_free n (reclaim_cells n g) =
   (unhook_and_free n g)\<lparr>g_reclaimed := g_reclaimed g @ node_cells (node_at g n)\<rparr>"
proof -
  have "reclaim_cells n g = (clear_cells n g)\<lparr>g_reclaimed := g_reclaimed g @ node_cells (node_at g n)\<rparr>"
    by (simp add: reclaim_cells_def clear_cells_def node_cells_def Let_def)
  then show ?thesis
    by (simp add: unhook_and_free_def Let_def sever_reclaimed sever_clear_comm release_clear upd_fields_comm)
      (simp add: clear_cells_def release_clear [unfolded clear_cells_def] upd_fields_comm)
qed

lemma take_owned_ok: "graph_ok g \<Longrightarrow> graph_ok (take_owned n g)"
  unfolding take_owned_def by (rule graph_ok_owned) auto

lemma node_at_take_owned:
  "node_at (take_owned n g) i = (if i = n \<and> n < length (g_nodes g) then (node_at g n)\<lparr>nd_owned := []\<rparr> else node_at g i)"
  by (simp add: take_owned_def node_at_upd)

lemma take_owned_frame [simp]:
  "length (g_nodes (take_owned n g)) = length (g_nodes g)" "g_computing (take_owned n g) = g_computing g"
  "g_queue (take_owned n g) = g_queue g" "g_reclaimed (take_owned n g) = g_reclaimed g"
  "g_flushing (take_owned n g) = g_flushing g"
  by (simp_all add: take_owned_def)

text \<open>The cells the graph holds, as a sum over the table.\<close>

definition live_cells :: "'v node \<Rightarrow> 'v multiset" where
  "live_cells nd = (if nd_live nd then mset (node_cells nd) else {#})"

definition held :: "'v inner \<Rightarrow> 'v multiset" where
  "held g = (\<Sum>i < length (g_nodes g). live_cells (node_at g i))"

lemma held_values: "mset (for_each_value g) = held g"
proof -
  have "mset (for_each_value g) = sum_list (map live_cells (g_nodes g))"
    unfolding for_each_value_def live_cells_def node_cells_def
    by (simp add: mset_concat comp_def if_distrib [of mset] cong: if_cong)
  also have "\<dots> = held g"
    by (simp add: held_def node_at_def sum_list_sum_nth atLeast0LessThan)
  finally show ?thesis .
qed

lemma held_take_owned [simp]: "held (take_owned n g) = held g"
  unfolding held_def by (intro sum.cong) (simp_all add: node_at_take_owned live_cells_def node_cells_def)

lemma held_unhook:
  assumes "graph_ok g" and "n < length (g_nodes g)" and "nd_live (node_at g n)"
  shows "held g = held (unhook_and_free n g) + mset (node_cells (node_at g n))"
proof -
  let ?A = "{..<length (g_nodes g)}" and ?g = "unhook_and_free n g"
  note nodes = unhook_nodes [OF assms(1,2)]
  have "held g = live_cells (node_at g n) + (\<Sum>i \<in> ?A - {n}. live_cells (node_at g i))"
    unfolding held_def using assms(2) by (intro sum.remove) auto
  also have "(\<Sum>i \<in> ?A - {n}. live_cells (node_at g i)) = (\<Sum>i \<in> ?A - {n}. live_cells (node_at ?g i))"
    by (intro sum.cong) (simp_all add: nodes live_cells_def node_cells_def)
  also have "\<dots> = held ?g"
  proof -
    have "held ?g = live_cells (node_at ?g n) + (\<Sum>i \<in> ?A - {n}. live_cells (node_at ?g i))"
      unfolding held_def nodes(1) using assms(2) by (intro sum.remove) auto
    moreover have "live_cells (node_at ?g n) = {#}" using assms(2) by (simp add: nodes live_cells_def)
    ultimately show ?thesis by simp
  qed
  finally show ?thesis using assms(3) by (simp add: live_cells_def)
qed

lemma total_owned_sum: "total_owned g = (\<Sum>i < length (g_nodes g). length (nd_owned (node_at g i)))"
  by (simp add: total_owned_def node_at_def sum_list_sum_nth atLeast0LessThan)

lemma total_owned_take:
  assumes "n < length (g_nodes g)"
  shows "total_owned g = total_owned (take_owned n g) + length (nd_owned (node_at g n))"
proof -
  let ?A = "{..<length (g_nodes g)}"
  have "total_owned g = length (nd_owned (node_at g n)) + (\<Sum>i \<in> ?A - {n}. length (nd_owned (node_at g i)))"
    unfolding total_owned_sum using assms by (intro sum.remove) auto
  also have "(\<Sum>i \<in> ?A - {n}. length (nd_owned (node_at g i))) = total_owned (take_owned n g)"
    unfolding total_owned_sum using assms
    by (subst sum.remove [of _ n]) (auto simp: node_at_take_owned intro!: sum.cong)
  finally show ?thesis by simp
qed

lemma total_owned_unhook:
  assumes "graph_ok g" and "n < length (g_nodes g)"
  shows "total_owned (unhook_and_free n g) = total_owned g"
  unfolding total_owned_sum unhook_nodes(1) [OF assms]
  by (intro sum.cong) (simp_all add: unhook_nodes(2) [OF assms])

text \<open>
  What a teardown may change: nodes die, edges to dead nodes go, and the cells of the dead nodes move
  to \<open>reclaimed\<close>. Everything a surviving node holds, the stack and the queue stay.
\<close>

definition survives :: "'v node \<Rightarrow> 'v node \<Rightarrow> bool" where
  "survives nd nd' =
     (nd_live nd \<and> nd_kind nd' = nd_kind nd \<and> nd_dirty nd' = nd_dirty nd \<and> nd_queued nd' = nd_queued nd \<and>
      nd_content nd' = nd_content nd \<and> nd_body nd' = nd_body nd \<and>
      set (nd_sources nd') \<subseteq> set (nd_sources nd) \<and> set (nd_subscribers nd') \<subseteq> set (nd_subscribers nd))"

definition torn_down :: "'v inner \<Rightarrow> 'v inner \<Rightarrow> bool" where
  "torn_down g g' =
     (graph_ok g' \<and> length (g_nodes g') = length (g_nodes g) \<and> g_computing g' = g_computing g \<and>
      g_queue g' = g_queue g \<and> g_flushing g' = g_flushing g \<and> total_owned g' \<le> total_owned g \<and>
      held g' + mset (g_reclaimed g') = held g + mset (g_reclaimed g) \<and>
      (\<forall>i < length (g_nodes g). nd_live (node_at g' i) \<longrightarrow> survives (node_at g i) (node_at g' i)))"

lemma torn_down_trans: "torn_down g h \<Longrightarrow> torn_down h k \<Longrightarrow> torn_down g k"
  unfolding torn_down_def survives_def by (auto; blast)

lemma torn_down_refl: "graph_ok g \<Longrightarrow> torn_down g g"
  by (simp add: torn_down_def survives_def)

lemma torn_down_take_owned:
  assumes "graph_ok g"
  shows "torn_down g (take_owned n g)"
proof (cases "n < length (g_nodes g)")
  case True
  with assms show ?thesis
    using total_owned_take [OF True] by (simp add: torn_down_def take_owned_ok survives_def node_at_take_owned)
next
  case False
  then have "take_owned n g = g" by (simp add: take_owned_def upd_def list_update_beyond)
  with assms show ?thesis by (simp add: torn_down_refl)
qed

lemma torn_down_free:
  assumes "graph_ok g" and "n < length (g_nodes g)" and "nd_live (node_at g n)"
  shows "torn_down g (unhook_and_free n (reclaim_cells n g))"
    and "\<not> nd_live (node_at (unhook_and_free n (reclaim_cells n g)) n)"
proof -
  let ?h = "unhook_and_free n g"
  have ok: "graph_ok ?h" by (rule unhook_ok [OF assms])
  have eq: "unhook_and_free n (reclaim_cells n g) = ?h\<lparr>g_reclaimed := g_reclaimed g @ node_cells (node_at g n)\<rparr>"
    by (rule unhook_reclaim)
  have "survives (node_at g i) (node_at ?h i)" if "i < length (g_nodes g)" "nd_live (node_at ?h i)" for i
    using that set_remove_one_subset [of n "nd_sources (node_at g i)"]
      set_remove_one_subset [of n "nd_subscribers (node_at g i)"]
    by (auto simp: unhook_nodes [OF assms(1,2)] survives_def isolate_def split: if_splits)
  moreover have "graph_ok (?h\<lparr>g_reclaimed := x\<rparr>) = graph_ok ?h" "held (?h\<lparr>g_reclaimed := x\<rparr>) = held ?h"
    "total_owned (?h\<lparr>g_reclaimed := x\<rparr>) = total_owned ?h" for x
    by (simp_all add: graph_ok_def held_def total_owned_def)
  ultimately show "torn_down g (unhook_and_free n (reclaim_cells n g))"
    using ok held_unhook [OF assms] total_owned_unhook [OF assms(1,2)] unhook_nodes(1) [OF assms(1,2)]
    unfolding eq torn_down_def by simp
  show "\<not> nd_live (node_at (unhook_and_free n (reclaim_cells n g)) n)"
    using assms(2) by (simp add: eq unhook_nodes(2) [OF assms(1,2)])
qed

section \<open>The owner forest\<close>

definition owns :: "'v inner \<Rightarrow> (node_id \<times> node_id) set" where
  "owns g = {(i, c). i < length (g_nodes g) \<and> c \<in> set (nd_owned (node_at g i))}"

definition forest_ok :: "'v inner \<Rightarrow> bool" where
  "forest_ok g =
     ((\<forall>i < length (g_nodes g). (\<not> nd_live (node_at g i) \<longrightarrow> nd_owned (node_at g i) = []) \<and>
        distinct (nd_owned (node_at g i)) \<and>
        (\<forall>c \<in> set (nd_owned (node_at g i)). c < length (g_nodes g) \<and> nd_live (node_at g c) \<and>
           nd_owner (node_at g c) = Some i)) \<and>
      acyclic (owns g))"

lemma forest_okD:
  assumes "forest_ok g" and "i < length (g_nodes g)"
  shows "\<not> nd_live (node_at g i) \<Longrightarrow> nd_owned (node_at g i) = []"
    "c \<in> set (nd_owned (node_at g i)) \<Longrightarrow> c < length (g_nodes g)"
    "c \<in> set (nd_owned (node_at g i)) \<Longrightarrow> nd_live (node_at g c)"
    "c \<in> set (nd_owned (node_at g i)) \<Longrightarrow> nd_owner (node_at g c) = Some i"
    "distinct (nd_owned (node_at g i))"
  using assms unfolding forest_ok_def by blast+

definition unowned :: "node_id \<Rightarrow> 'v inner \<Rightarrow> bool" where
  "unowned n g = (\<forall>i < length (g_nodes g). n \<notin> set (nd_owned (node_at g i)))"

text \<open>
  A teardown of the roots \<open>ns\<close>: nothing outside their subtrees dies, a node that dies takes all it
  owned with it, and a node that lives keeps its children.
\<close>

definition fate :: "node_id set \<Rightarrow> 'v inner \<Rightarrow> 'v inner \<Rightarrow> node_id \<Rightarrow> bool" where
  "fate ns g g' i =
     (if nd_live (node_at g' i)
      then nd_owned (node_at g' i) = nd_owned (node_at g i) \<and> nd_owner (node_at g' i) = nd_owner (node_at g i)
      else (\<forall>c \<in> set (nd_owned (node_at g i)). \<not> nd_live (node_at g' c)) \<and> (\<exists>c \<in> ns. (c, i) \<in> (owns g)\<^sup>*))"

definition teardown :: "node_id set \<Rightarrow> 'v inner \<Rightarrow> 'v inner \<Rightarrow> bool" where
  "teardown ns g g' =
     (graph_ok g \<and> torn_down g g' \<and> forest_ok g' \<and>
      (\<forall>i < length (g_nodes g). nd_live (node_at g i) \<longrightarrow> fate ns g g' i))"

lemma teardownD:
  assumes "teardown ns g g'"
  shows "graph_ok g" "torn_down g g'" "graph_ok g'" "forest_ok g'" "length (g_nodes g') = length (g_nodes g)"
    "i < length (g_nodes g) \<Longrightarrow> nd_live (node_at g' i) \<Longrightarrow> nd_live (node_at g i)"
    "i < length (g_nodes g) \<Longrightarrow> nd_live (node_at g i) \<Longrightarrow> fate ns g g' i"
  using assms by (auto simp: teardown_def torn_down_def survives_def)

lemma teardown_owned:
  assumes "teardown ns g g'" and "i < length (g_nodes g)"
  shows "nd_owned (node_at g' i) = (if nd_live (node_at g' i) then nd_owned (node_at g i) else [])"
proof (cases "nd_live (node_at g' i)")
  case True
  then show ?thesis using teardownD(6,7) [OF assms] by (simp add: fate_def)
next
  case False
  then show ?thesis using forest_okD(1) [OF teardownD(4) [OF assms(1)]] assms(2) teardownD(5) [OF assms(1)] by simp
qed

lemma teardown_owns:
  assumes "teardown ns g g'"
  shows "owns g' \<subseteq> owns g"
  unfolding owns_def teardownD(5) [OF assms] using teardown_owned [OF assms] by (auto split: if_splits)

lemma teardown_unowned:
  assumes "teardown ns g g'" and "unowned n g"
  shows "unowned n g'"
  unfolding unowned_def teardownD(5) [OF assms(1)]
proof (intro allI impI)
  fix i assume "i < length (g_nodes g)"
  then show "n \<notin> set (nd_owned (node_at g' i))"
    using assms(2) teardown_owned [OF assms(1), of i] by (simp add: unowned_def)
qed

lemma fate_trans:
  assumes gh: "teardown ns g h" and hk: "teardown ms h k"
    and i: "i < length (g_nodes g)" "nd_live (node_at g i)"
  shows "fate (ns \<union> ms) g k i"
proof (cases "nd_live (node_at h i)")
  case True
  with teardownD(7) [OF gh i] have same: "nd_owned (node_at h i) = nd_owned (node_at g i)"
    "nd_owner (node_at h i) = nd_owner (node_at g i)" by (simp_all add: fate_def)
  have "(owns h)\<^sup>* \<subseteq> (owns g)\<^sup>*" using teardown_owns [OF gh] by (rule rtrancl_mono)
  moreover have "fate ms h k i" using teardownD(7) [OF hk] True i teardownD(5) [OF gh] by simp
  ultimately show ?thesis unfolding fate_def same by (auto split: if_splits)
next
  case False
  with teardownD(7) [OF gh i] have h: "\<forall>c \<in> set (nd_owned (node_at g i)). \<not> nd_live (node_at h c)"
    "\<exists>c \<in> ns. (c, i) \<in> (owns g)\<^sup>*" by (simp_all add: fate_def)
  have dead: "\<not> nd_live (node_at k j)" if "j < length (g_nodes g)" "\<not> nd_live (node_at h j)" for j
    using teardownD(6) [OF hk] teardownD(5) [OF gh] that by metis
  have "c < length (g_nodes g)" if "c \<in> set (nd_owned (node_at g i))" for c
    using graph_okD(1) [OF teardownD(1) [OF gh] i(1)] that by (auto simp: node_ok_def)
  with h dead i(1) False show ?thesis unfolding fate_def by auto
qed

lemma teardown_trans: "teardown ns g h \<Longrightarrow> teardown ms h k \<Longrightarrow> teardown (ns \<union> ms) g k"
  using fate_trans [of ns g h ms k] torn_down_trans [of g h k] unfolding teardown_def by blast

lemma teardown_refl: "graph_ok g \<Longrightarrow> forest_ok g \<Longrightarrow> teardown {} g g"
  by (simp add: teardown_def torn_down_refl fate_def)

lemma owns_take_owned: "owns (take_owned n g) \<subseteq> owns g"
  by (auto simp: owns_def node_at_take_owned split: if_splits)

lemma forest_take_owned:
  assumes "forest_ok g"
  shows "forest_ok (take_owned n g)"
proof -
  have "acyclic (owns (take_owned n g))"
    using assms owns_take_owned by (auto simp: forest_ok_def intro: acyclic_subset)
  moreover have "nd_owned (node_at (take_owned n g) i) = []"
    if "i < length (g_nodes g)" "\<not> nd_live (node_at (take_owned n g) i)" for i
    using that forest_okD(1) [OF assms that(1)] by (auto simp: node_at_take_owned split: if_splits)
  moreover have "c < length (g_nodes g) \<and> nd_live (node_at (take_owned n g) c) \<and>
      nd_owner (node_at (take_owned n g) c) = Some i"
    if i: "i < length (g_nodes g)" "c \<in> set (nd_owned (node_at (take_owned n g) i))" for i c
  proof -
    have "c \<in> set (nd_owned (node_at g i))" using i by (auto simp: node_at_take_owned split: if_splits)
    with forest_okD(2-4) [OF assms i(1)] show ?thesis by (auto simp: node_at_take_owned)
  qed
  moreover have "distinct (nd_owned (node_at (take_owned n g) i))" if "i < length (g_nodes g)" for i
    using forest_okD(5) [OF assms that] by (simp add: node_at_take_owned)
  ultimately show ?thesis unfolding forest_ok_def take_owned_frame by blast
qed

lemma owns_unhook:
  assumes "graph_ok g" and "n < length (g_nodes g)"
  shows "owns (unhook_and_free n (reclaim_cells n g)) = owns g"
  unfolding owns_def unhook_reclaim by (auto simp: unhook_nodes [OF assms] split: if_splits)

lemma node_at_free:
  assumes "graph_ok g" and "n < length (g_nodes g)" and "i < length (g_nodes g)"
  shows "nd_live (node_at (unhook_and_free n (reclaim_cells n g)) i) = (i \<noteq> n \<and> nd_live (node_at g i))"
    "nd_owned (node_at (unhook_and_free n (reclaim_cells n g)) i) = nd_owned (node_at g i)"
    "i \<noteq> n \<Longrightarrow> nd_owner (node_at (unhook_and_free n (reclaim_cells n g)) i) = nd_owner (node_at g i)"
  using assms(3) by (simp_all add: unhook_reclaim unhook_nodes [OF assms(1,2)])

lemma forest_free:
  assumes "graph_ok g" and "forest_ok g" and "n < length (g_nodes g)" and "nd_owned (node_at g n) = []"
    and "unowned n g"
  shows "forest_ok (unhook_and_free n (reclaim_cells n g))"
proof -
  let ?h = "unhook_and_free n (reclaim_cells n g)"
  have len: "length (g_nodes ?h) = length (g_nodes g)"
    by (simp add: unhook_reclaim unhook_nodes(1) [OF assms(1,3)])
  have "acyclic (owns ?h)" using assms(2) by (simp add: owns_unhook [OF assms(1,3)] forest_ok_def)
  moreover have "nd_owned (node_at ?h i) = []" if "i < length (g_nodes g)" "\<not> nd_live (node_at ?h i)" for i
    using that forest_okD(1) [OF assms(2) that(1)] assms(4) by (auto simp: node_at_free [OF assms(1,3)])
  moreover have "c < length (g_nodes g) \<and> nd_live (node_at ?h c) \<and> nd_owner (node_at ?h c) = Some i"
    if i: "i < length (g_nodes g)" "c \<in> set (nd_owned (node_at ?h i))" for i c
  proof -
    have c: "c \<in> set (nd_owned (node_at g i))" using i by (simp add: node_at_free [OF assms(1,3)])
    then have "c \<noteq> n" using assms(5) i(1) by (auto simp: unowned_def)
    with forest_okD(2-4) [OF assms(2) i(1) c] show ?thesis by (simp add: node_at_free [OF assms(1,3)])
  qed
  moreover have "distinct (nd_owned (node_at ?h i))" if "i < length (g_nodes g)" for i
    using forest_okD(5) [OF assms(2) that] that by (simp add: node_at_free [OF assms(1,3)])
  ultimately show ?thesis unfolding forest_ok_def len by blast
qed

lemma children_unowned:
  assumes "forest_ok g" and "n < length (g_nodes g)" and "c \<in> set (nd_owned (node_at g n))"
  shows "unowned c (take_owned n g)"
  unfolding unowned_def
proof (intro allI impI notI)
  fix i assume i: "i < length (g_nodes (take_owned n g))" "c \<in> set (nd_owned (node_at (take_owned n g) i))"
  then have "i \<noteq> n" "c \<in> set (nd_owned (node_at g i))" by (auto simp: node_at_take_owned split: if_splits)
  with i forest_okD(4) [OF assms(1), of i c] forest_okD(4) [OF assms(1,2), of c] assms(3)
  show False by simp
qed

lemma dispose_node_step:
  assumes "graph_ok g" and "forest_ok g" and "n < length (g_nodes g)" and "unowned n g" and "nd_live (node_at g n)"
    and each: "teardown (set (nd_owned (node_at g n))) (take_owned n g) h"
    and dead: "\<forall>c \<in> set (nd_owned (node_at g n)). \<not> nd_live (node_at h c)"
  shows "teardown {n} g (unhook_and_free n (reclaim_cells n h)) \<and>
    \<not> nd_live (node_at (unhook_and_free n (reclaim_cells n h)) n)"
proof -
  let ?g1 = "take_owned n g" and ?k = "unhook_and_free n (reclaim_cells n h)"
  let ?cs = "set (nd_owned (node_at g n))"
  have ok: "graph_ok h" "forest_ok h" and len: "length (g_nodes h) = length (g_nodes g)"
    using teardownD [OF each] by simp_all
  have sub: "(owns ?g1)\<^sup>* \<subseteq> (owns g)\<^sup>*" using owns_take_owned by (rule rtrancl_mono)
  have edge: "(n, c) \<in> owns g" if "c \<in> ?cs" for c using that assms(3) by (simp add: owns_def)
  have live: "nd_live (node_at h n)"
  proof (rule ccontr)
    assume "\<not> nd_live (node_at h n)"
    with teardownD(7) [OF each, of n] assms(3,5) obtain c where "c \<in> ?cs" "(c, n) \<in> (owns ?g1)\<^sup>*"
      by (auto simp: fate_def node_at_take_owned)
    with edge sub have "(n, n) \<in> (owns g)\<^sup>+" by (meson rtrancl_into_trancl2 subsetD)
    with assms(2) show False by (simp add: forest_ok_def acyclic_def)
  qed
  have n: "n < length (g_nodes h)" using assms(3) len by simp
  have "unowned n h"
    using assms(4) by (intro teardown_unowned [OF each]) (auto simp: unowned_def node_at_take_owned)
  moreover have "nd_owned (node_at h n) = []"
    using teardown_owned [OF each, of n] assms(3) live by (simp add: node_at_take_owned)
  ultimately have fk: "forest_ok ?k" using ok n by (intro forest_free)
  have td: "torn_down g ?k"
    using torn_down_take_owned [OF assms(1)] teardownD(2) [OF each] torn_down_free(1) [OF ok(1) n live]
    by (meson torn_down_trans)
  have "fate {n} g ?k i" if i: "i < length (g_nodes g)" "nd_live (node_at g i)" for i
  proof (cases "i = n")
    case True
    have "\<not> nd_live (node_at ?k c)" if "c \<in> ?cs" for c
      using dead that forest_okD(2) [OF assms(2,3) that] len by (simp add: node_at_free [OF ok(1) n])
    with True n show ?thesis by (simp add: fate_def node_at_free [OF ok(1) n])
  next
    case False
    have f: "fate ?cs ?g1 h i" using teardownD(7) [OF each, of i] i False by (simp add: node_at_take_owned)
    have rng: "c < length (g_nodes h)" if "c \<in> set (nd_owned (node_at g i))" for c
      using forest_okD(2) [OF assms(2) i(1) that] len by simp
    have up: "(c, i) \<in> (owns ?g1)\<^sup>* \<Longrightarrow> c \<in> ?cs \<Longrightarrow> (n, i) \<in> (owns g)\<^sup>*" for c
      using edge sub by (meson converse_rtrancl_into_rtrancl subsetD)
    show ?thesis
      using f False i len rng up unfolding fate_def
      by (auto simp: node_at_free [OF ok(1) n] node_at_take_owned split: if_splits)
  qed
  with td fk assms(1) have "teardown {n} g ?k" by (simp add: teardown_def)
  moreover have "\<not> nd_live (node_at ?k n)" using n by (simp add: node_at_free [OF ok(1) n])
  ultimately show ?thesis ..
qed

lemma dispose_upto_teardown:
  "\<lbrakk>dispose_subtree_upto d n g = Some g'; graph_ok g; forest_ok g; n < length (g_nodes g); unowned n g\<rbrakk> \<Longrightarrow>
     teardown {n} g g' \<and> \<not> nd_live (node_at g' n)"
  "\<lbrakk>dispose_each d cs g = Some g'; graph_ok g; forest_ok g;
    \<forall>c \<in> set cs. c < length (g_nodes g) \<and> unowned c g\<rbrakk> \<Longrightarrow>
     teardown (set cs) g g' \<and> (\<forall>c \<in> set cs. \<not> nd_live (node_at g' c))"
proof (induction d n g and d cs g arbitrary: g' and g' rule: dispose_subtree_upto_dispose_each.induct)
  case (2 d n g)
  show ?case
  proof (cases "nd_live (node_at g n)")
    case True
    with 2(2) obtain h where h: "dispose_each d (rev (nd_owned (node_at g n))) (take_owned n g) = Some h"
      and g': "g' = unhook_and_free n (reclaim_cells n h)" by auto
    have "teardown (set (nd_owned (node_at g n))) (take_owned n g) h \<and>
        (\<forall>c \<in> set (nd_owned (node_at g n)). \<not> nd_live (node_at h c))"
      using 2(1) [OF _ h] True take_owned_ok [OF 2(3)] forest_take_owned [OF 2(4)] children_unowned [OF 2(4,5)]
        forest_okD(2) [OF 2(4,5)] by simp
    then show ?thesis using dispose_node_step [OF 2(3-6) True] unfolding g' by blast
  next
    case False
    with 2 show ?thesis by (auto simp: teardown_def torn_down_refl fate_def)
  qed
next
  case (3 d g)
  then show ?case by (simp add: teardown_refl)
next
  case (4 d c cs g)
  then obtain h where h: "dispose_subtree_upto d c g = Some h" "dispose_each d cs h = Some g'"
    by (auto split: option.splits)
  from 4(1) [OF h(1)] 4(4-6) have c: "teardown {c} g h" "\<not> nd_live (node_at h c)" by auto
  have "\<forall>c \<in> set cs. c < length (g_nodes h) \<and> unowned c h"
    using 4(6) teardownD(5) [OF c(1)] teardown_unowned [OF c(1)] by simp
  with 4(2) [OF h] teardownD(3,4) [OF c(1)]
  have cs: "teardown (set cs) h g'" "\<forall>c \<in> set cs. \<not> nd_live (node_at g' c)" by auto
  have "c < length (g_nodes h)" using 4(6) teardownD(5) [OF c(1)] by simp
  with c(2) have "\<not> nd_live (node_at g' c)" using teardownD(6) [OF cs(1)] by blast
  with teardown_trans [OF c(1) cs(1)] cs(2) show ?case by simp
qed simp

lemma dispose_depth:
  "\<lbrakk>graph_ok g; forest_ok g; n < length (g_nodes g); unowned n g; total_owned g < d\<rbrakk> \<Longrightarrow>
     dispose_subtree_upto d n g \<noteq> None"
  "\<lbrakk>graph_ok g; forest_ok g; \<forall>c \<in> set cs. c < length (g_nodes g) \<and> unowned c g; total_owned g < d \<or> cs = []\<rbrakk> \<Longrightarrow>
     dispose_each d cs g \<noteq> None"
proof (induction d n g and d cs g rule: dispose_subtree_upto_dispose_each.induct)
  case (2 d n g)
  let ?cs = "rev (nd_owned (node_at g n))"
  have "total_owned (take_owned n g) < d \<or> ?cs = []"
    using total_owned_take [OF 2(4)] 2(6) by (cases "nd_owned (node_at g n)") auto
  moreover have "\<forall>c \<in> set ?cs. c < length (g_nodes (take_owned n g)) \<and> unowned c (take_owned n g)"
    using forest_okD(2) [OF 2(3,4)] children_unowned [OF 2(3,4)] by simp
  ultimately have "dispose_each d ?cs (take_owned n g) \<noteq> None" if "nd_live (node_at g n)"
    using 2(1) that take_owned_ok [OF 2(2)] forest_take_owned [OF 2(3)] by simp
  then show ?case by simp
next
  case (4 d c cs g)
  then obtain h where h: "dispose_subtree_upto d c g = Some h" by fastforce
  with dispose_upto_teardown(1) [OF h] 4 have t: "teardown {c} g h" by simp
  then have "total_owned h < d" using 4(6) by (auto simp: teardown_def torn_down_def)
  moreover have "\<forall>c \<in> set cs. c < length (g_nodes h) \<and> unowned c h"
    using 4(5) teardownD(5) [OF t] teardown_unowned [OF t] by simp
  ultimately show ?case using 4(2) [OF h] teardownD(3,4) [OF t] h by simp
qed simp_all

lemma dispose_subtree_teardown:
  assumes "graph_ok g" and "forest_ok g" and "n < length (g_nodes g)" and "unowned n g"
  shows "dispose_subtree_upto (Suc (total_owned g)) n g = Some (dispose_subtree n g)"
    and "teardown {n} g (dispose_subtree n g)" and "\<not> nd_live (node_at (dispose_subtree n g) n)"
proof -
  from dispose_depth(1) [OF assms, of "Suc (total_owned g)"]
  obtain h where h: "dispose_subtree_upto (Suc (total_owned g)) n g = Some h" by auto
  then show "dispose_subtree_upto (Suc (total_owned g)) n g = Some (dispose_subtree n g)"
    by (simp add: dispose_subtree_def)
  then show "teardown {n} g (dispose_subtree n g)" "\<not> nd_live (node_at (dispose_subtree n g) n)"
    using dispose_upto_teardown(1) [OF _ assms] by blast+
qed

lemma fold_dispose_teardown:
  "\<lbrakk>graph_ok g; forest_ok g; \<forall>c \<in> set cs. c < length (g_nodes g) \<and> unowned c g\<rbrakk> \<Longrightarrow>
     teardown (set cs) g (fold dispose_subtree cs g) \<and>
     (\<forall>c \<in> set cs. \<not> nd_live (node_at (fold dispose_subtree cs g) c))"
proof (induction cs arbitrary: g)
  case (Cons c cs)
  let ?h = "dispose_subtree c g"
  from Cons.prems dispose_subtree_teardown(2,3) [of g c]
  have c: "teardown {c} g ?h" "\<not> nd_live (node_at ?h c)" by auto
  have "\<forall>c \<in> set cs. c < length (g_nodes ?h) \<and> unowned c ?h"
    using Cons.prems(3) teardownD(5) [OF c(1)] teardown_unowned [OF c(1)] by simp
  with Cons.IH [OF teardownD(3,4) [OF c(1)]]
  have cs: "teardown (set cs) ?h (fold dispose_subtree cs ?h)"
    "\<forall>c \<in> set cs. \<not> nd_live (node_at (fold dispose_subtree cs ?h) c)" by auto
  have "c < length (g_nodes ?h)" using Cons.prems(3) teardownD(5) [OF c(1)] by simp
  with c(2) have "\<not> nd_live (node_at (fold dispose_subtree cs ?h) c)" using teardownD(6) [OF cs(1)] by blast
  with teardown_trans [OF c(1) cs(1)] cs(2) show ?case by simp
qed (simp add: teardown_refl)

lemma dispose_owned_torn:
  assumes "graph_ok g" and "forest_ok g" and "n < length (g_nodes g)"
  shows "teardown (set (nd_owned (node_at g n))) (take_owned n g) (dispose_owned n g)"
    and "c \<in> set (nd_owned (node_at g n)) \<Longrightarrow> \<not> nd_live (node_at (dispose_owned n g) c)"
    and "torn_down g (dispose_owned n g)" and "graph_ok (dispose_owned n g)" and "forest_ok (dispose_owned n g)"
proof -
  have "\<forall>c \<in> set (rev (nd_owned (node_at g n))). c < length (g_nodes (take_owned n g)) \<and> unowned c (take_owned n g)"
    using forest_okD(2) [OF assms(2,3)] children_unowned [OF assms(2,3)] by simp
  from fold_dispose_teardown [OF take_owned_ok [OF assms(1)] forest_take_owned [OF assms(2)] this]
  show t: "teardown (set (nd_owned (node_at g n))) (take_owned n g) (dispose_owned n g)"
    and "c \<in> set (nd_owned (node_at g n)) \<Longrightarrow> \<not> nd_live (node_at (dispose_owned n g) c)"
    by (simp_all add: dispose_owned_def)
  show "torn_down g (dispose_owned n g)"
    using torn_down_take_owned [OF assms(1)] teardownD(2) [OF t] by (rule torn_down_trans)
  show "graph_ok (dispose_owned n g)" "forest_ok (dispose_owned n g)" using teardownD(3,4) [OF t] .
qed

text \<open>Disposing what a node owns kills exactly its proper descendants.\<close>

lemma dispose_owned_exact:
  assumes "graph_ok g" and "forest_ok g" and "n < length (g_nodes g)"
    and "i < length (g_nodes g)" and "nd_live (node_at g i)"
  shows "nd_live (node_at (dispose_owned n g) i) \<longleftrightarrow> (n, i) \<notin> (owns g)\<^sup>+"
proof -
  let ?h = "dispose_owned n g" and ?cs = "set (nd_owned (node_at g n))"
  note t = dispose_owned_torn [OF assms(1-3)]
  have acyc: "acyclic (owns g)" using assms(2) by (simp add: forest_ok_def)
  have "\<not> nd_live (node_at ?h j)" if "(n, j) \<in> (owns g)\<^sup>+" for j
    using that
  proof (induction rule: trancl_induct)
    case (base j)
    then show ?case using t(2) by (simp add: owns_def)
  next
    case (step j k)
    have j: "j < length (g_nodes g)" and k: "k \<in> set (nd_owned (node_at g j))"
      using step.hyps(2) by (simp_all add: owns_def)
    have "j \<noteq> n" using acyc step.hyps(1) by (auto simp: acyclic_def)
    moreover have "nd_live (node_at g j)" using forest_okD(1) [OF assms(2) j] k by (cases "nd_live (node_at g j)") auto
    ultimately have "fate ?cs (take_owned n g) ?h j"
      using teardownD(7) [OF t(1), of j] j by (simp add: node_at_take_owned)
    with step.IH k \<open>j \<noteq> n\<close> show ?case by (simp add: fate_def node_at_take_owned)
  qed
  moreover have "(n, i) \<in> (owns g)\<^sup>+" if "\<not> nd_live (node_at ?h i)"
  proof -
    have "nd_live (node_at (take_owned n g) i)" using assms(5) by (auto simp: node_at_take_owned)
    with that teardownD(7) [OF t(1), of i] assms(4) obtain c where "c \<in> ?cs" "(c, i) \<in> (owns (take_owned n g))\<^sup>*"
      by (auto simp: fate_def)
    moreover from this have "(n, c) \<in> owns g" using assms(3) by (simp add: owns_def)
    ultimately show ?thesis using rtrancl_mono [OF owns_take_owned] by (meson rtrancl_into_trancl2 subsetD)
  qed
  ultimately show ?thesis by blast
qed

section \<open>Explicit disposal\<close>

definition detach_owner :: "node_id \<Rightarrow> 'v inner \<Rightarrow> 'v inner" where
  "detach_owner n g =
     (case nd_owner (node_at g n) of
        Some own \<Rightarrow> if nd_live (node_at g own) then upd own (nd_owned_update (remove_one n)) g else g
      | None \<Rightarrow> g)"

lemma dispose_alt:
  "\<lbrakk>n < length (g_nodes g); nd_live (node_at g n)\<rbrakk> \<Longrightarrow>
   dispose n g = Some (unhook_and_free n (dispose_owned n (detach_owner n g)))"
  by (simp add: dispose_def detach_owner_def)

lemma detach_owner_nodes:
  "\<exists>f. node_at (detach_owner n g) i = (node_at g i)\<lparr>nd_owned := f\<rparr> \<and> set f \<subseteq> set (nd_owned (node_at g i)) \<and>
     (distinct (nd_owned (node_at g i)) \<longrightarrow> distinct f)"
  using set_remove_one_subset [of n] distinct_remove_one [of _ n]
  by (intro exI [of _ "nd_owned (node_at (detach_owner n g) i)"])
    (auto simp: detach_owner_def node_at_upd split: option.splits)

lemma detach_owner_same [simp]:
  "nd_live (node_at (detach_owner n g) i) = nd_live (node_at g i)"
  "nd_owner (node_at (detach_owner n g) i) = nd_owner (node_at g i)"
  "node_cells (node_at (detach_owner n g) i) = node_cells (node_at g i)"
  using detach_owner_nodes [of n g i] by (auto simp: node_cells_def)

lemma detach_owner_frame [simp]:
  "length (g_nodes (detach_owner n g)) = length (g_nodes g)" "g_computing (detach_owner n g) = g_computing g"
  "g_queue (detach_owner n g) = g_queue g" "g_reclaimed (detach_owner n g) = g_reclaimed g"
  "held (detach_owner n g) = held g"
proof -
  show "length (g_nodes (detach_owner n g)) = length (g_nodes g)" "g_computing (detach_owner n g) = g_computing g"
    "g_queue (detach_owner n g) = g_queue g" "g_reclaimed (detach_owner n g) = g_reclaimed g"
    by (simp_all add: detach_owner_def split: option.split)
  then show "held (detach_owner n g) = held g"
    unfolding held_def by (intro sum.cong) (simp_all add: live_cells_def)
qed

lemma detach_owner_ok: "graph_ok g \<Longrightarrow> graph_ok (detach_owner n g)"
  unfolding detach_owner_def using set_remove_one_subset [of n]
  by (auto split: option.split intro!: graph_ok_owned)

lemma detach_owner_owns: "owns (detach_owner n g) \<subseteq> owns g"
  using detach_owner_nodes [of n g] by (fastforce simp: owns_def)

lemma detach_owner_forest:
  assumes "forest_ok g"
  shows "forest_ok (detach_owner n g)"
proof -
  have "acyclic (owns (detach_owner n g))"
    using assms detach_owner_owns by (auto simp: forest_ok_def intro: acyclic_subset)
  moreover have "set (nd_owned (node_at (detach_owner n g) i)) \<subseteq> set (nd_owned (node_at g i)) \<and>
      (distinct (nd_owned (node_at g i)) \<longrightarrow> distinct (nd_owned (node_at (detach_owner n g) i)))" for i
    using detach_owner_nodes [of n g i] by auto
  ultimately show ?thesis
    using forest_okD [OF assms] unfolding forest_ok_def detach_owner_same detach_owner_frame
    by (metis empty_subsetI set_empty subset_antisym subsetD)
qed

lemma detach_owner_unowned:
  assumes "forest_ok g" and "n < length (g_nodes g)"
  shows "unowned n (detach_owner n g)"
  unfolding unowned_def detach_owner_frame
proof (intro allI impI notI)
  fix i assume i: "i < length (g_nodes g)" and mem: "n \<in> set (nd_owned (node_at (detach_owner n g) i))"
  then have own: "n \<in> set (nd_owned (node_at g i))" using detach_owner_nodes [of n g i] by auto
  then have "nd_owner (node_at g n) = Some i" "nd_live (node_at g i)" "distinct (nd_owned (node_at g i))"
    using forest_okD [OF assms(1) i] by (auto, fastforce)
  with mem i show False by (simp add: detach_owner_def node_at_upd set_remove_one)
qed

end
