(* ===== verification/Reactive_Laws.thy ===== *)
theory Reactive_Laws
  imports Reactive_Invariant
begin

text \<open>
  What the reactive graph promises: explicit disposal removes exactly a node's owner subtree and
  loses no cell, every public operation keeps the invariant, and so do all interleavings of them
  with running bodies.
\<close>

section \<open>Disposal is exact\<close>

lemma reclaimed_irrelevant [simp]:
  "graph_ok (g\<lparr>g_reclaimed := x\<rparr>) = graph_ok g" "forest_ok (g\<lparr>g_reclaimed := x\<rparr>) = forest_ok g"
  "owns (g\<lparr>g_reclaimed := x\<rparr>) = owns g" "held (g\<lparr>g_reclaimed := x\<rparr>) = held g"
  by (simp_all add: graph_ok_def forest_ok_def owns_def held_def)

lemma detach_descendants:
  assumes "forest_ok g"
  shows "(n, i) \<in> (owns (detach_owner n g))\<^sup>+ \<longleftrightarrow> (n, i) \<in> (owns g)\<^sup>+"
proof
  show "(n, i) \<in> (owns (detach_owner n g))\<^sup>+ \<Longrightarrow> (n, i) \<in> (owns g)\<^sup>+"
    by (erule trancl_mono, rule detach_owner_owns)
next
  have acyc: "(n, n) \<notin> (owns g)\<^sup>+" using assms by (simp add: forest_ok_def acyclic_def)
  have keep: "(j, k) \<in> owns (detach_owner n g)" if "(j, k) \<in> owns g" "k \<noteq> n" for j k
  proof -
    have jk: "j < length (g_nodes g)" "k \<in> set (nd_owned (node_at g j))" using that(1) by (simp_all add: owns_def)
    have "set (remove_one n (nd_owned (node_at g j))) = set (nd_owned (node_at g j)) - {n}"
      using forest_okD(5) [OF assms jk(1)] by (rule set_remove_one)
    with jk that(2) show ?thesis
      by (auto simp: owns_def detach_owner_def node_at_upd split: option.split)
  qed
  assume "(n, i) \<in> (owns g)\<^sup>+"
  then show "(n, i) \<in> (owns (detach_owner n g))\<^sup>+"
  proof (induction rule: trancl_induct)
    case (base k)
    with acyc have "k \<noteq> n" by auto
    with base keep show ?case by blast
  next
    case (step j k)
    with acyc have "k \<noteq> n" by (meson trancl_into_trancl)
    with step keep show ?case by (meson trancl_into_trancl)
  qed
qed

lemma dispose_spec:
  assumes "graph_ok g" and "forest_ok g" and "n < length (g_nodes g)" and "nd_live (node_at g n)"
  obtains g' where "dispose n g = Some g'" and "graph_ok g'" and "forest_ok g'"
    and "length (g_nodes g') = length (g_nodes g)" and "g_computing g' = g_computing g" and "g_queue g' = g_queue g"
    and "\<And>i. i < length (g_nodes g) \<Longrightarrow> nd_live (node_at g i) \<Longrightarrow>
      nd_live (node_at g' i) \<longleftrightarrow> (n, i) \<notin> (owns g)\<^sup>*"
    and "\<And>i. i < length (g_nodes g) \<Longrightarrow> nd_live (node_at g' i) \<Longrightarrow> nd_live (node_at g i)"
    and "\<And>i. i < length (g_nodes g) \<Longrightarrow> nd_live (node_at g' i) \<Longrightarrow> nd_kind (node_at g' i) = nd_kind (node_at g i)"
    and "held g' + mset (g_reclaimed g') + mset (node_cells (node_at g n)) = held g + mset (g_reclaimed g)"
proof -
  let ?g1 = "detach_owner n g"
  let ?g2 = "dispose_owned n ?g1"
  let ?g3 = "unhook_and_free n ?g2"
  have n1: "n < length (g_nodes ?g1)" using assms(3) by simp
  note ok1 = detach_owner_ok [OF assms(1), of n] detach_owner_forest [OF assms(2), of n] n1
  note t = dispose_owned_torn [OF ok1]
  have len: "length (g_nodes ?g2) = length (g_nodes g)" using t(3) by (simp add: torn_down_def)
  have live2: "nd_live (node_at ?g2 i) \<longleftrightarrow> (n, i) \<notin> (owns g)\<^sup>+" if "i < length (g_nodes g)" "nd_live (node_at g i)" for i
    using dispose_owned_exact [OF ok1, of i] that detach_descendants [OF assms(2)] by simp
  have "(n, n) \<notin> (owns g)\<^sup>+" using assms(2) by (simp add: forest_ok_def acyclic_def)
  with live2 assms(3,4) have n2: "nd_live (node_at ?g2 n)" by simp
  have sub: "nd_live (node_at ?g2 i) \<Longrightarrow> survives (node_at ?g1 i) (node_at ?g2 i)" if "i < length (g_nodes g)" for i
    using t(3) that by (simp add: torn_down_def)
  have nl: "n < length (g_nodes ?g2)" using len assms(3) by simp
  have node3: "node_at ?g3 i = (if i = n then release_node ((node_at ?g2 n)\<lparr>nd_sources := [], nd_subscribers := []\<rparr>)
      else isolate n (node_at ?g2 i))" if "i < length (g_nodes g)" for i
    using unhook_nodes(2) [OF t(4) nl] that len by simp
  have cells: "nd_content (node_at ?g2 n) = nd_content (node_at ?g1 n)" "nd_body (node_at ?g2 n) = nd_body (node_at ?g1 n)"
    using sub [OF assms(3) n2] by (simp_all add: survives_def)
  have un: "unowned n ?g2"
    using detach_owner_unowned [OF assms(2,3)]
    by (intro teardown_unowned [OF t(1)]) (auto simp: unowned_def node_at_take_owned)
  have owned: "nd_owned (node_at ?g2 n) = []"
    using teardown_owned [OF t(1), of n] assms(3) by (simp add: node_at_take_owned)
  have f3: "forest_ok ?g3"
    using forest_free [OF t(4,5) nl owned un] by (simp add: unhook_reclaim)
  show thesis
  proof
    show "dispose n g = Some ?g3" using assms(3,4) by (rule dispose_alt)
    show "graph_ok ?g3" using t(4) nl n2 by (rule unhook_ok)
    show "forest_ok ?g3" by (rule f3)
    show "length (g_nodes ?g3) = length (g_nodes g)" using unhook_nodes(1) [OF t(4) nl] len by simp
    show "g_computing ?g3 = g_computing g" "g_queue ?g3 = g_queue g" using t(3) by (simp_all add: torn_down_def)
    fix i assume i: "i < length (g_nodes g)"
    have l3: "nd_live (node_at ?g3 i) \<longleftrightarrow> i \<noteq> n \<and> nd_live (node_at ?g2 i)" using node3 [OF i] by simp
    show "nd_live (node_at g i) \<Longrightarrow> nd_live (node_at ?g3 i) \<longleftrightarrow> (n, i) \<notin> (owns g)\<^sup>*"
      using live2 [OF i] l3 by (auto simp: rtrancl_eq_or_trancl)
    show "nd_live (node_at ?g3 i) \<Longrightarrow> nd_live (node_at g i)"
      using l3 sub [OF i] by (auto simp: survives_def)
    have "nd_kind (node_at ?g1 i) = nd_kind (node_at g i)" using detach_owner_nodes [of n g i] by auto
    then show "nd_live (node_at ?g3 i) \<Longrightarrow> nd_kind (node_at ?g3 i) = nd_kind (node_at g i)"
      using l3 sub [OF i] node3 [OF i] by (auto simp: survives_def)
  next
    have "held ?g2 = held ?g3 + mset (node_cells (node_at ?g2 n))" using t(4) nl n2 by (rule held_unhook)
    moreover have "node_cells (node_at ?g2 n) = node_cells (node_at g n)"
      using cells detach_owner_same(3) [of n g n] by (simp add: node_cells_def)
    moreover have "held ?g2 + mset (g_reclaimed ?g2) = held g + mset (g_reclaimed g)"
      using t(3) by (simp add: torn_down_def)
    ultimately show "held ?g3 + mset (g_reclaimed ?g3) + mset (node_cells (node_at g n)) = held g + mset (g_reclaimed g)"
      by (simp add: ac_simps)
  qed
qed

text \<open>
  C16: explicit disposal is exact. On a well-formed graph, disposing a live node succeeds, kills
  exactly the node and everything it transitively owns, severs every edge of the dead nodes (the
  invariant has symmetric edges and none at a dead slot), and loses no cell: what the graph held is
  still held, waiting in \<open>reclaimed\<close>, or one of the node's own cells, which are left to the caller.
\<close>

theorem dispose_exact:
  assumes "graph_ok g" and "forest_ok g" and "n < length (g_nodes g)" and "nd_live (node_at g n)"
  shows "\<exists>g'. dispose n g = Some g' \<and> graph_ok g' \<and> forest_ok g' \<and>
    (\<forall>i < length (g_nodes g). nd_live (node_at g' i) \<longleftrightarrow> nd_live (node_at g i) \<and> (n, i) \<notin> (owns g)\<^sup>*) \<and>
    mset (for_each_value g') + mset (g_reclaimed g') + mset (node_cells (node_at g n)) =
      mset (for_each_value g) + mset (g_reclaimed g)"
proof (rule dispose_spec [OF assms])
  fix g' assume g': "dispose n g = Some g'" "graph_ok g'" "forest_ok g'"
    and live: "\<And>i. i < length (g_nodes g) \<Longrightarrow> nd_live (node_at g i) \<Longrightarrow> nd_live (node_at g' i) \<longleftrightarrow> (n, i) \<notin> (owns g)\<^sup>*"
      "\<And>i. i < length (g_nodes g) \<Longrightarrow> nd_live (node_at g' i) \<Longrightarrow> nd_live (node_at g i)"
    and cells: "held g' + mset (g_reclaimed g') + mset (node_cells (node_at g n)) = held g + mset (g_reclaimed g)"
  have "\<forall>i < length (g_nodes g). nd_live (node_at g' i) \<longleftrightarrow> nd_live (node_at g i) \<and> (n, i) \<notin> (owns g)\<^sup>*"
    using live by blast
  with g' cells show ?thesis by (auto simp: held_values)
qed

section \<open>Creating nodes\<close>

definition reactive_ok :: "'v inner \<Rightarrow> bool" where
  "reactive_ok g = (graph_ok g \<and> forest_ok g \<and> frames_ok g)"

text \<open>A node as the constructors build it: live, with no edges and no place in the owner tree.\<close>

definition fresh_node :: "'v node \<Rightarrow> bool" where
  "fresh_node nd =
     (nd_live nd \<and> nd_sources nd = [] \<and> nd_subscribers nd = [] \<and> nd_owned nd = [] \<and> nd_owner nd = None \<and>
      (\<forall>n i. node_ok n i nd))"

lemma node_ok_mono: "node_ok n i nd \<Longrightarrow> n \<le> m \<Longrightarrow> node_ok m i nd"
  by (auto simp: node_ok_def)

lemma butlast_distinct:
  "distinct xs \<Longrightarrow> xs \<noteq> [] \<Longrightarrow> distinct (butlast xs) \<and> set (butlast xs) = set xs - {last xs}"
  by (cases xs rule: rev_cases) auto

text \<open>What \<open>alloc\<close> does: the id is a dead slot or one past the end, and only that slot changes.\<close>

definition allocated :: "'v node \<Rightarrow> 'v inner \<Rightarrow> node_id \<Rightarrow> 'v inner \<Rightarrow> bool" where
  "allocated nd g i g' =
     (i < length (g_nodes g') \<and> length (g_nodes g) \<le> length (g_nodes g') \<and>
      (\<forall>j < length (g_nodes g'). node_at g' j = (if j = i then nd else node_at g j)) \<and>
      (\<forall>j < length (g_nodes g'). j \<noteq> i \<longrightarrow> j < length (g_nodes g)) \<and>
      (i < length (g_nodes g) \<longrightarrow> \<not> nd_live (node_at g i)) \<and>
      distinct (g_free g') \<and> set (g_free g') = set (g_free g) - {i} \<and>
      g_computing g' = g_computing g \<and> g_queue g' = g_queue g \<and>
      g_dirty_computeds g' = g_dirty_computeds g \<and> g_reclaimed g' = g_reclaimed g)"

lemma alloc_allocated:
  assumes "graph_ok g" and "alloc nd g = (i, g')"
  shows "allocated nd g i g'"
proof (cases "g_free g = []")
  case True
  with assms(2) have "i = length (g_nodes g)" "g' = g\<lparr>g_nodes := g_nodes g @ [nd]\<rparr>"
    by (auto simp: alloc_def)
  with True show ?thesis by (auto simp: allocated_def node_at_def nth_append)
next
  case False
  note free = graph_okD(3,4) [OF assms(1)]
  let ?i = "last (g_free g)"
  have i: "?i < length (g_nodes g)" "\<not> nd_live (node_at g ?i)" using False free(2) last_in_set by blast+
  from False assms(2) have "i = ?i" "g' = upd ?i (\<lambda>_. nd) (g\<lparr>g_free := butlast (g_free g)\<rparr>)"
    by (auto simp: alloc_def Let_def)
  with i butlast_distinct [OF free(1) False] show ?thesis
    by (simp add: allocated_def node_at_upd)
qed

lemma allocatedD:
  assumes "allocated nd g i g'"
  shows "i < length (g_nodes g')" "length (g_nodes g) \<le> length (g_nodes g')"
    "j < length (g_nodes g') \<Longrightarrow> node_at g' j = (if j = i then nd else node_at g j)"
    "j < length (g_nodes g') \<Longrightarrow> j \<noteq> i \<Longrightarrow> j < length (g_nodes g)"
    "i < length (g_nodes g) \<Longrightarrow> \<not> nd_live (node_at g i)"
    "distinct (g_free g')" "set (g_free g') = set (g_free g) - {i}"
    "g_computing g' = g_computing g" "g_queue g' = g_queue g"
    "g_dirty_computeds g' = g_dirty_computeds g" "g_reclaimed g' = g_reclaimed g"
  using assms unfolding allocated_def by blast+

text \<open>No edge and no owner entry leads to the slot before it is used.\<close>

lemma slot_isolated:
  assumes "graph_ok g" and "allocated nd g i g'" and "j < length (g_nodes g)"
  shows "i \<notin> set (nd_sources (node_at g j))" "i \<notin> set (nd_subscribers (node_at g j))"
proof -
  have out: "i \<notin> set (nd_sources (node_at g j)) \<and> i \<notin> set (nd_subscribers (node_at g j))" if "\<not> i < length (g_nodes g)"
    using node_ok_edges(4,5) [OF graph_okD(1) [OF assms(1,3)]] that by auto
  have dead: "i \<notin> set (nd_sources (node_at g j)) \<and> i \<notin> set (nd_subscribers (node_at g j))" if i: "i < length (g_nodes g)"
  proof -
    have "nd_sources (node_at g i) = []" "nd_subscribers (node_at g i) = []"
      using graph_okD(1) [OF assms(1) i] allocatedD(5) [OF assms(2) i] by (simp_all add: node_ok_def)
    then show ?thesis using graph_okD(2) [OF assms(1)] i assms(3) unfolding symmetric_def by force
  qed
  from out dead show "i \<notin> set (nd_sources (node_at g j))" "i \<notin> set (nd_subscribers (node_at g j))" by blast+
qed

lemma allocated_graph:
  assumes "graph_ok g" and "fresh_node nd" and a: "allocated nd g i g'"
  shows "graph_ok (g'\<lparr>g_dirty_computeds := g_dirty_computeds g + (if is_dirty_computed nd then 1 else 0)\<rparr>)"
proof -
  let ?n = "length (g_nodes g')"
  note A = allocatedD [OF a]
  have ok: "node_ok ?n j (node_at g' j)" if "j < ?n" for j
  proof (cases "j = i")
    case True
    then show ?thesis using A(3) [OF that] assms(2) by (simp add: fresh_node_def)
  next
    case False
    then have "node_ok (length (g_nodes g)) j (node_at g j)" using graph_okD(1) [OF assms(1)] A(4) that by blast
    then show ?thesis using A(2) A(3) [OF that] False by (simp add: node_ok_mono)
  qed
  have sym: "symmetric ?n (node_at g')"
    unfolding symmetric_def
  proof (intro allI impI)
    fix j k assume jk: "j < ?n" "k < ?n"
    have fresh: "nd_sources nd = []" "nd_subscribers nd = []" using assms(2) by (simp_all add: fresh_node_def)
    show "k \<in> set (nd_sources (node_at g' j)) \<longleftrightarrow> j \<in> set (nd_subscribers (node_at g' k))"
    proof (cases "j = i \<or> k = i")
      case True
      then show ?thesis
        using jk fresh slot_isolated [OF assms(1) a] A(4) by (auto simp: A(3))
    next
      case False
      then show ?thesis
        using jk A(4) graph_okD(2) [OF assms(1)] by (auto simp: A(3) symmetric_def)
    qed
  qed
  have nl: "nd_live nd" using assms(2) by (simp add: fresh_node_def)
  have free: "set (g_free g') = {j. j < ?n \<and> \<not> nd_live (node_at g' j)}"
  proof (rule set_eqI)
    fix j
    have "j \<in> set (g_free g') \<longleftrightarrow> j \<noteq> i \<and> j < length (g_nodes g) \<and> \<not> nd_live (node_at g j)"
      unfolding A(7) graph_okD(4) [OF assms(1)] by blast
    also have "\<dots> \<longleftrightarrow> j \<noteq> i \<and> j < ?n \<and> \<not> nd_live (node_at g j)" using A(2) A(4) [of j] by auto
    also have "\<dots> \<longleftrightarrow> j < ?n \<and> \<not> nd_live (node_at g' j)" using A(3) [of j] nl by (cases "j = i") auto
    finally show "j \<in> set (g_free g') \<longleftrightarrow> j \<in> {j. j < ?n \<and> \<not> nd_live (node_at g' j)}" by simp
  qed
  have old: "i \<notin> dirty_set (length (g_nodes g)) (node_at g)"
    using graph_okD(1) [OF assms(1), of i] A(5) by (auto simp: dirty_set_def is_dirty_computed_def node_ok_def)
  have "dirty_set ?n (node_at g') = dirty_set (length (g_nodes g)) (node_at g) \<union> (if is_dirty_computed nd then {i} else {})"
    using A(1,2,4) old by (auto simp: dirty_set_def A(3) split: if_splits)
  then have "card (dirty_set ?n (node_at g')) = g_dirty_computeds g + (if is_dirty_computed nd then 1 else 0)"
    using old graph_okD(5) [OF assms(1)] by simp
  moreover have "set (g_queue g') \<subseteq> {..<?n}" using graph_okD(6) [OF assms(1)] A(2,9) by auto
  ultimately show ?thesis using ok sym free A(6) by (simp add: graph_ok_def Let_def)
qed

lemma allocated_forest:
  assumes "graph_ok g" and "forest_ok g" and "fresh_node nd" and a: "allocated nd g i g'"
  shows "forest_ok g'" and "unowned i g'" and "owns g' = owns g"
proof -
  note A = allocatedD [OF a]
  have nd: "nd_owned nd = []" "nd_live nd" using assms(3) by (simp_all add: fresh_node_def)
  have ne: "c \<noteq> i" if "j < length (g_nodes g)" "c \<in> set (nd_owned (node_at g j))" for j c
    using forest_okD(2,3) [OF assms(2) that] A(5) by blast
  have old: "nd_owned (node_at g i) = []" if "i < length (g_nodes g)"
    using forest_okD(1) [OF assms(2) that] A(5) [OF that] by blast
  show owns: "owns g' = owns g"
    using A(1,2,4) nd old by (auto simp: owns_def A(3) split: if_splits)
  show "unowned i g'"
    using ne A(4) nd by (auto simp: unowned_def A(3))
  have "distinct (nd_owned (node_at g' j)) \<and> (\<not> nd_live (node_at g' j) \<longrightarrow> nd_owned (node_at g' j) = []) \<and>
    (\<forall>c \<in> set (nd_owned (node_at g' j)). c < length (g_nodes g') \<and> nd_live (node_at g' c) \<and> nd_owner (node_at g' c) = Some j)"
    if j: "j < length (g_nodes g')" for j
  proof (cases "j = i")
    case True
    then show ?thesis using A(3) [OF j] nd by simp
  next
    case False
    then have jg: "j < length (g_nodes g)" using A(4) j by blast
    have "c < length (g_nodes g') \<and> nd_live (node_at g' c) \<and> nd_owner (node_at g' c) = Some j"
      if c: "c \<in> set (nd_owned (node_at g j))" for c
      using forest_okD(2-4) [OF assms(2) jg c] ne [OF jg c] A(2) A(3) [of c] by simp
    then show ?thesis using forest_okD(1,5) [OF assms(2) jg] A(3) [OF j] False by simp
  qed
  moreover have "acyclic (owns g')" using assms(2) owns by (simp add: forest_ok_def)
  ultimately show "forest_ok g'" unfolding forest_ok_def by blast
qed

lemma top_frame_mem: "top_frame g = Some f \<Longrightarrow> f \<in> set (g_computing g)"
  by (auto simp: top_frame_def split: if_splits)

lemma adopt_nodes:
  "length (g_nodes (adopt i g)) = length (g_nodes g)" "g_computing (adopt i g) = g_computing g"
  "g_queue (adopt i g) = g_queue g" "g_free (adopt i g) = g_free g"
  "g_dirty_computeds (adopt i g) = g_dirty_computeds g"
  "nd_live (node_at (adopt i g) j) = nd_live (node_at g j)" "nd_kind (node_at (adopt i g) j) = nd_kind (node_at g j)"
  "nd_sources (node_at (adopt i g) j) = nd_sources (node_at g j)"
  "nd_subscribers (node_at (adopt i g) j) = nd_subscribers (node_at g j)"
  "is_dirty_computed (node_at (adopt i g) j) = is_dirty_computed (node_at g j)"
  by (simp_all add: adopt_def node_at_upd is_dirty_computed_def split: option.split)

lemma adopt_graph:
  assumes "graph_ok g" and "frames_ok g" and "i < length (g_nodes g)"
  shows "graph_ok (adopt i g)"
proof -
  have own: "own < length (g_nodes g)" if "top_frame g = Some own" for own
    using assms(2) top_frame_mem [OF that] by (simp add: frames_ok_def)
  have "node_ok (length (g_nodes g)) j (node_at (adopt i g) j)" if "j < length (g_nodes g)" for j
    using graph_okD(1) [OF assms(1) that] assms(3) own
    by (auto simp: adopt_def node_at_upd node_ok_def split: option.split)
  with assms(1) show ?thesis
    by (simp add: graph_ok_def Let_def symmetric_def dirty_set_def adopt_nodes)
qed

lemma adopt_forest:
  assumes "forest_ok g" and "frames_ok g" and "i < length (g_nodes g)" and "nd_live (node_at g i)"
    and "unowned i g" and "nd_owned (node_at g i) = []" and "i \<notin> set (g_computing g)"
  shows "forest_ok (adopt i g)"
proof (cases "top_frame g")
  case None
  with assms(1) show ?thesis by (simp add: adopt_def)
next
  case (Some own)
  let ?h = "adopt i g"
  from Some top_frame_mem have mem: "own \<in> set (g_computing g)" by blast
  with assms(2,7) have own: "own < length (g_nodes g)" "nd_live (node_at g own)" "own \<noteq> i"
    by (auto simp: frames_ok_def)
  have nodes: "nd_owned (node_at ?h j) = (if j = own then nd_owned (node_at g own) @ [i] else nd_owned (node_at g j))"
    "nd_owner (node_at ?h j) = (if j = i then Some own else nd_owner (node_at g j))" for j
    using own assms(3) by (simp_all add: adopt_def Some node_at_upd)
  have owns: "owns ?h = insert (own, i) (owns g)"
    using own(1) by (auto simp: owns_def nodes adopt_nodes split: if_splits)
  have "(i, own) \<notin> (owns g)\<^sup>*"
  proof
    assume "(i, own) \<in> (owns g)\<^sup>*"
    then show False
    proof (cases rule: converse_rtranclE)
      case base
      with own(3) show False by simp
    next
      case (step c)
      with assms(6) show False by (simp add: owns_def)
    qed
  qed
  then have "acyclic (owns ?h)" using assms(1) by (simp add: owns forest_ok_def)
  moreover have "distinct (nd_owned (node_at ?h j)) \<and> (\<not> nd_live (node_at ?h j) \<longrightarrow> nd_owned (node_at ?h j) = []) \<and>
    (\<forall>c \<in> set (nd_owned (node_at ?h j)). c < length (g_nodes g) \<and> nd_live (node_at ?h c) \<and> nd_owner (node_at ?h c) = Some j)"
    if j: "j < length (g_nodes g)" for j
  proof -
    have "i \<notin> set (nd_owned (node_at g j))" using assms(5) j by (simp add: unowned_def)
    with forest_okD [OF assms(1) j] own assms(3,4) show ?thesis
      by (auto simp: nodes adopt_nodes)
  qed
  ultimately show ?thesis unfolding forest_ok_def adopt_nodes by blast
qed

lemma frames_allocated:
  assumes "frames_ok g" and "allocated nd g i g'"
  shows "frames_ok g'" and "i \<notin> set (g_computing g')"
proof -
  note A = allocatedD [OF assms(2)]
  have c: "c < length (g_nodes g) \<and> nd_live (node_at g c) \<and> nd_kind (node_at g c) \<noteq> Signal \<and> c \<noteq> i"
    if "c \<in> set (g_computing g)" for c
    using assms(1) that A(5) by (auto simp: frames_ok_def)
  then show "i \<notin> set (g_computing g')" using A(8) by auto
  show "frames_ok g'"
    unfolding frames_ok_def A(8)
  proof
    fix k assume k: "k \<in> set (g_computing g)"
    with c [OF k] A(2) have "k < length (g_nodes g')" by simp
    with c [OF k] A(3) show "k < length (g_nodes g') \<and> nd_live (node_at g' k) \<and> nd_kind (node_at g' k) \<noteq> Signal"
      by simp
  qed
qed

lemma frames_adopt: "frames_ok (adopt i g) = frames_ok g"
  by (simp add: frames_ok_def adopt_nodes)

lemma reactive_okD:
  assumes "reactive_ok g"
  shows "graph_ok g" "forest_ok g" "frames_ok g"
  using assms by (simp_all add: reactive_ok_def)

lemma dirty_count_irrelevant [simp]:
  "forest_ok (g\<lparr>g_dirty_computeds := x\<rparr>) = forest_ok g" "frames_ok (g\<lparr>g_dirty_computeds := x\<rparr>) = frames_ok g"
  "unowned i (g\<lparr>g_dirty_computeds := x\<rparr>) = unowned i g"
  by (simp_all add: forest_ok_def frames_ok_def owns_def unowned_def)

lemma alloc_dirty_count:
  "alloc nd g = (i, g') \<Longrightarrow>
   alloc nd (g\<lparr>g_dirty_computeds := x\<rparr>) = (i, g'\<lparr>g_dirty_computeds := x\<rparr>)"
  by (auto simp: alloc_def Let_def upd_def)

lemma created_ok:
  assumes ok: "reactive_ok g" and nd: "fresh_node nd"
    and alloc: "alloc nd (g\<lparr>g_dirty_computeds := g_dirty_computeds g + (if is_dirty_computed nd then 1 else 0)\<rparr>) = (i, g2)"
  shows "reactive_ok g2" and "reactive_ok (adopt i g2)" and "i < length (g_nodes g2)"
proof -
  note ok = reactive_okD [OF ok]
  obtain j g1 where ag: "alloc nd g = (j, g1)" by force
  with alloc have g2: "i = j" "g2 = g1\<lparr>g_dirty_computeds := g_dirty_computeds g + (if is_dirty_computed nd then 1 else 0)\<rparr>"
    by (simp_all add: alloc_dirty_count)
  from alloc_allocated [OF ok(1) ag] g2(1) have a: "allocated nd g i g1" by simp
  note A = allocatedD [OF a]
  have gr: "graph_ok g2" unfolding g2(2) by (rule allocated_graph [OF ok(1) nd a])
  have fo: "forest_ok g2" "unowned i g2" using allocated_forest [OF ok(1,2) nd a] by (simp_all add: g2(2))
  have fr: "frames_ok g2" "i \<notin> set (g_computing g2)" using frames_allocated [OF ok(3) a] by (simp_all add: g2(2))
  have node: "node_at g2 i = nd" using A(1) A(3) [of i] g2(2) by simp
  show len: "i < length (g_nodes g2)" using A(1) g2(2) by simp
  from gr fo fr show "reactive_ok g2" by (simp add: reactive_ok_def)
  have "nd_live nd" "nd_owned nd = []" using nd by (simp_all add: fresh_node_def)
  with node have n2: "nd_live (node_at g2 i)" "nd_owned (node_at g2 i) = []" by simp_all
  have "graph_ok (adopt i g2)" using gr fr(1) len by (rule adopt_graph)
  moreover have "forest_ok (adopt i g2)" using fo(1) fr(1) len n2(1) fo(2) n2(2) fr(2) by (rule adopt_forest)
  moreover have "frames_ok (adopt i g2)" using fr(1) unfolding frames_adopt .
  ultimately show "reactive_ok (adopt i g2)" unfolding reactive_ok_def by blast
qed

lemma fresh_nodes:
  "fresh_node (placeholder\<lparr>nd_kind := Signal, nd_live := True, nd_content := Some v\<rparr>)"
  "fresh_node (placeholder\<lparr>nd_kind := Computed, nd_live := True, nd_dirty := True, nd_body := Some b, nd_content := Some m\<rparr>)"
  "fresh_node (placeholder\<lparr>nd_kind := Effect, nd_live := True, nd_dirty := True, nd_queued := True, nd_body := Some b\<rparr>)"
  by (simp_all add: fresh_node_def placeholder_def node_ok_def)

lemma queue_irrelevant [simp]:
  "forest_ok (g\<lparr>g_queue := x\<rparr>) = forest_ok g" "frames_ok (g\<lparr>g_queue := x\<rparr>) = frames_ok g"
  "owns (g\<lparr>g_queue := x\<rparr>) = owns g"
  unfolding forest_ok_def frames_ok_def owns_def by simp_all

lemma graph_ok_queue: "graph_ok g \<Longrightarrow> set q \<subseteq> {..<length (g_nodes g)} \<Longrightarrow> graph_ok (g\<lparr>g_queue := q\<rparr>)"
  unfolding graph_ok_def Let_def by simp

lemma enqueue_ok:
  assumes "reactive_ok g" and "i < length (g_nodes g)"
  shows "reactive_ok (g\<lparr>g_queue := g_queue g @ [i]\<rparr>)"
  unfolding reactive_ok_def
  using reactive_okD [OF assms(1)] graph_okD(6) [OF reactive_okD(1) [OF assms(1)]] assms(2)
  by (simp add: graph_ok_queue)

lemma dirty_count_same [simp]: "g\<lparr>g_dirty_computeds := g_dirty_computeds g\<rparr> = g"
  by (rule inner.equality) simp_all

lemma signal_ok:
  assumes "reactive_ok g"
  shows "signal v g = (i, g') \<Longrightarrow> reactive_ok g'" and "signal_root v g = (i, g') \<Longrightarrow> reactive_ok g'"
  using created_ok [OF assms fresh_nodes(1)]
  by (auto simp: signal_def signal_root_def Let_def is_dirty_computed_def split: prod.splits)

lemma computed_ok: "reactive_ok g \<Longrightarrow> computed b m g = (i, g') \<Longrightarrow> reactive_ok g'"
  using created_ok [OF _ fresh_nodes(2)]
  by (auto simp: computed_def Let_def is_dirty_computed_def split: prod.splits)

lemma effect_ok:
  assumes "reactive_ok g" and "effect b g = (i, g')"
  shows "reactive_ok g'"
proof -
  obtain g1 where g1: "alloc (placeholder\<lparr>nd_kind := Effect, nd_live := True, nd_dirty := True, nd_queued := True,
      nd_body := Some b\<rparr>) g = (i, g1)" "g' = (adopt i g1)\<lparr>g_queue := g_queue (adopt i g1) @ [i]\<rparr>"
    using assms(2) by (auto simp: effect_def Let_def split: prod.splits)
  with created_ok [OF assms(1) fresh_nodes(3), of b i g1]
  have "reactive_ok (adopt i g1)" "i < length (g_nodes g1)" by (simp_all add: is_dirty_computed_def)
  then show ?thesis unfolding g1(2) by (intro enqueue_ok) (simp_all add: adopt_nodes)
qed

end
