(* ===== verification/Reactive_Marking.thy ===== *)
theory Reactive_Marking
  imports Reactive_Laws
begin

text \<open>
  The dirty walk of \<open>set\<close> and \<open>touch\<close> (\<open>mark_dirty_subscribers\<close>): it terminates, never indexes out of
  range on a well-formed graph, changes nothing but flags, and reaches exactly the transitive
  dependents that were not already stale.
\<close>

section \<open>What one marking step changes\<close>

text \<open>Two nodes that differ at most in \<open>dirty\<close> and \<open>queued\<close>.\<close>

definition same_but_flags :: "'v node \<Rightarrow> 'v node \<Rightarrow> bool" where
  "same_but_flags nd nd' = (\<exists>d q. nd' = nd\<lparr>nd_dirty := d, nd_queued := q\<rparr>)"

lemma same_but_flagsD:
  assumes "same_but_flags nd nd'"
  shows "nd_kind nd' = nd_kind nd" "nd_live nd' = nd_live nd" "nd_sources nd' = nd_sources nd"
    "nd_subscribers nd' = nd_subscribers nd" "nd_content nd' = nd_content nd" "nd_body nd' = nd_body nd"
    "nd_owner nd' = nd_owner nd" "nd_owned nd' = nd_owned nd"
  using assms by (auto simp: same_but_flags_def)

lemma same_but_flags_refl [simp]: "same_but_flags nd nd"
  unfolding same_but_flags_def by (intro exI [of _ "nd_dirty nd"] exI [of _ "nd_queued nd"]) simp

lemma same_but_flags_upd [simp]: "same_but_flags nd (nd\<lparr>nd_dirty := d, nd_queued := q\<rparr>)"
  unfolding same_but_flags_def by blast

lemma same_but_flags_trans: "same_but_flags a b \<Longrightarrow> same_but_flags b c \<Longrightarrow> same_but_flags a c"
  unfolding same_but_flags_def by (elim exE) (simp, blast)

text \<open>The graphs a walk passes through: flags only go up, and only on computeds and effects.\<close>

definition marked :: "'v inner \<Rightarrow> 'v inner \<Rightarrow> bool" where
  "marked g g' =
     (length (g_nodes g') = length (g_nodes g) \<and> g_free g' = g_free g \<and> g_computing g' = g_computing g \<and>
      g_reclaimed g' = g_reclaimed g \<and> g_flushing g' = g_flushing g \<and> g_observed g' = g_observed g \<and>
      (\<forall>i < length (g_nodes g). same_but_flags (node_at g i) (node_at g' i) \<and>
         (nd_dirty (node_at g i) \<longrightarrow> nd_dirty (node_at g' i)) \<and>
         (nd_queued (node_at g i) \<longrightarrow> nd_queued (node_at g' i))))"

lemma marked_refl: "marked g g"
  by (simp add: marked_def)

lemma marked_trans: "marked g h \<Longrightarrow> marked h k \<Longrightarrow> marked g k"
  unfolding marked_def using same_but_flags_trans by fastforce

lemma markedD:
  assumes "marked g g'" and "i < length (g_nodes g)"
  shows "same_but_flags (node_at g i) (node_at g' i)"
    "nd_dirty (node_at g i) \<Longrightarrow> nd_dirty (node_at g' i)" "nd_queued (node_at g i) \<Longrightarrow> nd_queued (node_at g' i)"
  using assms by (auto simp: marked_def)

lemma marked_same:
  assumes "marked g g'" and "i < length (g_nodes g)"
  shows "nd_kind (node_at g' i) = nd_kind (node_at g i)" "nd_live (node_at g' i) = nd_live (node_at g i)"
    "nd_sources (node_at g' i) = nd_sources (node_at g i)" "nd_subscribers (node_at g' i) = nd_subscribers (node_at g i)"
    "nd_owned (node_at g' i) = nd_owned (node_at g i)" "nd_owner (node_at g' i) = nd_owner (node_at g i)"
    "nd_content (node_at g' i) = nd_content (node_at g i)" "nd_body (node_at g' i) = nd_body (node_at g i)"
  by (rule same_but_flagsD [OF markedD(1) [OF assms]])+

lemma marked_length: "marked g g' \<Longrightarrow> length (g_nodes g') = length (g_nodes g)"
  by (simp add: marked_def)

text \<open>Setting the flags of one live node keeps the whole invariant, the counter adjusted.\<close>

lemma flag_update_ok:
  assumes ok: "graph_ok g" and s: "s < length (g_nodes g)" and live: "nd_live (node_at g s)"
    and kind: "nd_kind (node_at g s) = Computed \<and> q = nd_queued (node_at g s) \<or> nd_kind (node_at g s) = Effect"
    and count: "c = card (dirty_set (length (g_nodes g)) (node_at (upd s (\<lambda>nd. nd\<lparr>nd_dirty := d, nd_queued := q\<rparr>) g)))"
  shows "graph_ok ((upd s (\<lambda>nd. nd\<lparr>nd_dirty := d, nd_queued := q\<rparr>) g)\<lparr>g_dirty_computeds := c\<rparr>)"
proof -
  let ?g = "upd s (\<lambda>nd. nd\<lparr>nd_dirty := d, nd_queued := q\<rparr>) g"
  let ?n = "length (g_nodes g)"
  have same: "nd_sources (node_at ?g i) = nd_sources (node_at g i)"
    "nd_subscribers (node_at ?g i) = nd_subscribers (node_at g i)"
    "nd_live (node_at ?g i) = nd_live (node_at g i)" for i
    by (simp_all add: node_at_upd)
  have "node_ok ?n i (node_at ?g i)" if "i < ?n" for i
    using graph_okD(1) [OF ok that] live kind s by (auto simp: node_at_upd node_ok_def)
  moreover have "symmetric ?n (node_at ?g)"
    using graph_okD(2) [OF ok] same by (simp add: symmetric_def)
  ultimately show ?thesis
    using graph_okD(3,4,6) [OF ok] count same by (simp add: graph_ok_def Let_def)
qed

text \<open>An edge leads to a live node that has sources.\<close>

lemma subscriber_live:
  assumes "graph_ok g" and "n < length (g_nodes g)" and "s \<in> set (nd_subscribers (node_at g n))"
  shows "s < length (g_nodes g)" "nd_live (node_at g s)" "nd_kind (node_at g s) \<noteq> Signal"
    "n \<in> set (nd_sources (node_at g s))"
proof -
  show s: "s < length (g_nodes g)"
    using node_ok_edges(5) [OF graph_okD(1) [OF assms(1,2)]] assms(3) by auto
  then show src: "n \<in> set (nd_sources (node_at g s))"
    using graph_okD(2) [OF assms(1)] assms(2,3) by (simp add: symmetric_def)
  show "nd_live (node_at g s)" "nd_kind (node_at g s) \<noteq> Signal"
    using graph_okD(1) [OF assms(1) s] src by (auto simp: node_ok_def)
qed

section \<open>The nodes a walk reaches\<close>

text \<open>A node that the walk has nothing to do for: a stale computed, a queued effect.\<close>

definition reached :: "'v node \<Rightarrow> bool" where
  "reached nd = (nd_live nd \<and> (nd_kind nd = Computed \<longrightarrow> nd_dirty nd) \<and> (nd_kind nd = Effect \<longrightarrow> nd_queued nd))"

definition clean_computed :: "'v node \<Rightarrow> bool" where
  "clean_computed nd = (nd_kind nd = Computed \<and> \<not> nd_dirty nd)"

lemma marked_reached: "marked g g' \<Longrightarrow> i < length (g_nodes g) \<Longrightarrow> reached (node_at g i) \<Longrightarrow> reached (node_at g' i)"
  using markedD [of g g' i] same_but_flagsD(1,2) [of "node_at g i" "node_at g' i"] by (auto simp: reached_def)

definition flagged :: "'v node \<Rightarrow> 'v node" where
  "flagged nd =
     (if clean_computed nd then nd\<lparr>nd_dirty := True\<rparr>
      else if nd_kind nd = Effect \<and> \<not> nd_queued nd then nd\<lparr>nd_dirty := True, nd_queued := True\<rparr> else nd)"

lemma flagged_simps [simp]:
  "nd_live nd \<Longrightarrow> reached (flagged nd)" "reached nd \<Longrightarrow> flagged nd = nd" "flagged (flagged nd) = flagged nd"
  "clean_computed (flagged nd) = False" "nd_kind (flagged nd) = nd_kind nd" "nd_live (flagged nd) = nd_live nd"
  "nd_subscribers (flagged nd) = nd_subscribers nd"
  "nd_kind nd = Effect \<Longrightarrow> nd_queued (flagged nd)"
  by (auto simp: reached_def flagged_def clean_computed_def)

text \<open>What the visit of one subscriber \<open>s\<close> does to the graph and the worklist.\<close>

definition visited :: "node_id \<Rightarrow> 'v inner \<Rightarrow> node_id list \<Rightarrow> 'v inner \<Rightarrow> node_id list \<Rightarrow> bool" where
  "visited s g work g' work' =
     (graph_ok g' \<and> marked g g' \<and> (\<forall>i. node_at g' i = (if i = s then flagged (node_at g i) else node_at g i)) \<and>
      work' = work @ (if clean_computed (node_at g s) then [s] else []) \<and>
      g_queue g' = g_queue g @ (if nd_kind (node_at g s) = Effect \<and> \<not> nd_queued (node_at g s) then [s] else []))"

lemma mark_sub_visited:
  assumes ok: "graph_ok g" and s: "s < length (g_nodes g)" "nd_live (node_at g s)" "nd_kind (node_at g s) \<noteq> Signal"
  shows "\<exists>g' work'. mark_sub s g work = Some (g', work') \<and> visited s g work g' work'"
proof -
  let ?n = "length (g_nodes g)"
  have marked: "marked g (upd s (\<lambda>nd. nd\<lparr>nd_dirty := True, nd_queued := q\<rparr>) g)"
    if "nd_queued (node_at g s) \<longrightarrow> q" for q
    using that unfolding marked_def by (auto simp: node_at_upd)
  consider (old) "reached (node_at g s)" | (comp) "clean_computed (node_at g s)" |
      (eff) "nd_kind (node_at g s) = Effect" "\<not> nd_queued (node_at g s)"
    using s(2,3) by (cases "nd_kind (node_at g s)") (auto simp: reached_def clean_computed_def)
  then show ?thesis
  proof cases
    case old
    then have "mark_sub s g work = Some (g, work)"
      using s by (cases "nd_kind (node_at g s)") (simp_all add: mark_sub_def reached_def)
    with old ok s show ?thesis by (auto simp: visited_def marked_refl) (auto simp: reached_def clean_computed_def)
  next
    case comp
    let ?g1 = "upd s (\<lambda>nd. nd\<lparr>nd_dirty := True, nd_queued := nd_queued (node_at g s)\<rparr>) g"
    let ?g2 = "?g1\<lparr>g_dirty_computeds := g_dirty_computeds g + 1\<rparr>"
    let ?g3 = "if g_observed g then ?g2\<lparr>g_changed := g_changed g @ [s]\<rparr> else ?g2"
    have eq: "upd s (nd_dirty_update (\<lambda>_. True)) g = ?g1"
      by (simp add: upd_def node_at_def)
    have "dirty_set ?n (node_at ?g1) = insert s (dirty_set ?n (node_at g))"
      using comp s by (auto simp: dirty_set_def node_at_upd is_dirty_computed_def clean_computed_def)
    moreover have "s \<notin> dirty_set ?n (node_at g)"
      using comp by (simp add: dirty_set_def is_dirty_computed_def clean_computed_def)
    ultimately have "graph_ok ?g2"
      using comp graph_okD(5) [OF ok] by (intro flag_update_ok [OF ok s(1,2)]) (simp_all add: clean_computed_def)
    then have ok3: "graph_ok ?g3" by (simp add: graph_ok_def Let_def)
    have "mark_sub s g work = Some (?g3, work @ [s])"
      using comp s(1) by (simp add: mark_sub_def clean_computed_def eq Let_def)
    moreover have "visited s g work ?g3 (work @ [s])"
      using ok3 comp s marked [of "nd_queued (node_at g s)"]
      by (auto simp: visited_def marked_def flagged_def clean_computed_def node_at_upd)
    ultimately show ?thesis by blast
  next
    case eff
    let ?g1 = "upd s (\<lambda>nd. nd\<lparr>nd_dirty := True, nd_queued := True\<rparr>) g"
    let ?g2 = "?g1\<lparr>g_queue := g_queue g @ [s]\<rparr>"
    have "dirty_set ?n (node_at ?g1) = dirty_set ?n (node_at g)"
      using eff by (auto simp: dirty_set_def node_at_upd is_dirty_computed_def split: if_splits)
    with flag_update_ok [OF ok s(1,2), of True "g_dirty_computeds g" True] eff graph_okD(5) [OF ok]
    have "graph_ok (?g1\<lparr>g_dirty_computeds := g_dirty_computeds g\<rparr>)" by simp
    then have "graph_ok ?g1" using dirty_count_same [of ?g1] by (simp only: upd_frame)
    then have ok2: "graph_ok ?g2"
      using graph_okD(6) [OF ok] s(1) graph_ok_queue [of ?g1 "g_queue g @ [s]"] by simp
    have "(\<lambda>nd. nd\<lparr>nd_queued := True, nd_dirty := True\<rparr>) = (\<lambda>nd :: 'a node. nd\<lparr>nd_dirty := True, nd_queued := True\<rparr>)"
      by (rule ext, rule node.equality) simp_all
    then have "mark_sub s g work = Some (?g2, work)"
      using eff s(1) by (simp add: mark_sub_def Let_def)
    moreover have "visited s g work ?g2 work"
      using ok2 eff s marked [of True]
      by (auto simp: visited_def marked_def flagged_def clean_computed_def node_at_upd)
    ultimately show ?thesis by blast
  qed
qed

text \<open>The visits of a list of subscribers, one after the other.\<close>

definition swept :: "node_id list \<Rightarrow> 'v inner \<Rightarrow> node_id list \<Rightarrow> 'v inner \<Rightarrow> node_id list \<Rightarrow> bool" where
  "swept ss g work g' work' =
     (graph_ok g' \<and> marked g g' \<and>
      (\<forall>i. node_at g' i = (if i \<in> set ss then flagged (node_at g i) else node_at g i)) \<and>
      set work' = set work \<union> {s \<in> set ss. clean_computed (node_at g s)} \<and>
      set (g_queue g') = set (g_queue g) \<union> {s \<in> set ss. nd_kind (node_at g s) = Effect \<and> \<not> nd_queued (node_at g s)})"

lemma mark_subs_swept:
  "\<lbrakk>graph_ok g; \<forall>s \<in> set ss. s < length (g_nodes g) \<and> nd_live (node_at g s) \<and> nd_kind (node_at g s) \<noteq> Signal\<rbrakk> \<Longrightarrow>
   \<exists>g' work'. mark_subs ss g work = Some (g', work') \<and> swept ss g work g' work'"
proof (induction ss arbitrary: g work)
  case Nil
  then show ?case by (simp add: swept_def marked_refl)
next
  case (Cons s ss)
  then obtain h work1 where h: "mark_sub s g work = Some (h, work1)" and v: "visited s g work h work1"
    using mark_sub_visited [of g s work] by auto
  have vh: "graph_ok h" "marked g h" "\<And>i. node_at h i = (if i = s then flagged (node_at g i) else node_at g i)"
    using v by (simp_all add: visited_def)
  have "\<forall>s \<in> set ss. s < length (g_nodes h) \<and> nd_live (node_at h s) \<and> nd_kind (node_at h s) \<noteq> Signal"
    using Cons.prems(2) marked_same(1,2) [OF vh(2)] marked_length [OF vh(2)] by simp
  from Cons.IH [OF vh(1) this, of work1] obtain g' work'
    where g': "mark_subs ss h work1 = Some (g', work')" and w: "swept ss h work1 g' work'" by blast
  have "node_at g' i = (if i \<in> set ss then flagged (node_at h i) else node_at h i)" for i
    using w by (simp add: swept_def)
  then have nodes: "node_at g' i = (if i \<in> set (s # ss) then flagged (node_at g i) else node_at g i)" for i
    by (simp add: vh(3))
  have s': "\<not> clean_computed (node_at h s)" "\<not> (nd_kind (node_at h s) = Effect \<and> \<not> nd_queued (node_at h s))"
    by (auto simp: vh(3))
  have mid: "{t \<in> set ss. P (node_at h t)} = {t \<in> set ss. P (node_at g t)} - {s}" if "\<not> P (node_at h s)" for P
  proof (rule set_eqI)
    fix t
    show "t \<in> {t \<in> set ss. P (node_at h t)} \<longleftrightarrow> t \<in> {t \<in> set ss. P (node_at g t)} - {s}"
      using that vh(3) [of t] by (cases "t = s") auto
  qed
  have "work1 = work @ (if clean_computed (node_at g s) then [s] else [])"
    "set work' = set work1 \<union> {t \<in> set ss. clean_computed (node_at h t)}"
    using v w by (simp_all add: visited_def swept_def)
  then have work: "set work' = set work \<union> {t \<in> set (s # ss). clean_computed (node_at g t)}"
    using mid [of clean_computed] s'(1) by auto
  have "g_queue h = g_queue g @ (if nd_kind (node_at g s) = Effect \<and> \<not> nd_queued (node_at g s) then [s] else [])"
    "set (g_queue g') = set (g_queue h) \<union> {t \<in> set ss. nd_kind (node_at h t) = Effect \<and> \<not> nd_queued (node_at h t)}"
    using v w by (simp_all add: visited_def swept_def)
  then have queue: "set (g_queue g') = set (g_queue g) \<union>
      {t \<in> set (s # ss). nd_kind (node_at g t) = Effect \<and> \<not> nd_queued (node_at g t)}"
    using mid [of "\<lambda>nd. nd_kind nd = Effect \<and> \<not> nd_queued nd"] s'(2) by auto
  have "graph_ok g'" "marked h g'" using w by (simp_all add: swept_def)
  with nodes work queue marked_trans [OF vh(2)] have "swept (s # ss) g work g' work'"
    unfolding swept_def by blast
  with h g' show ?case by auto
qed

section \<open>The whole walk\<close>

text \<open>
  The nodes a change of \<open>n\<close> reaches: its subscribers, and the subscribers of the computeds that were
  clean when the change happened. A computed that is already stale stops the walk.
\<close>

inductive dirtied :: "'v inner \<Rightarrow> node_id \<Rightarrow> node_id \<Rightarrow> bool" for g n where
  direct: "s \<in> set (nd_subscribers (node_at g n)) \<Longrightarrow> dirtied g n s"
| through: "\<lbrakk>dirtied g n i; clean_computed (node_at g i); s \<in> set (nd_subscribers (node_at g i))\<rbrakk> \<Longrightarrow> dirtied g n s"

definition walk_inv :: "node_id \<Rightarrow> 'v inner \<Rightarrow> 'v inner \<Rightarrow> node_id list \<Rightarrow> bool" where
  "walk_inv n g0 g work =
     (graph_ok g \<and> marked g0 g \<and>
      (\<forall>i \<in> set work. i = n \<or> dirtied g0 n i \<and> clean_computed (node_at g0 i)) \<and>
      (\<forall>i. node_at g i = node_at g0 i \<or> dirtied g0 n i \<and> node_at g i = flagged (node_at g0 i)) \<and>
      (\<forall>i. i = n \<or> dirtied g0 n i \<and> clean_computed (node_at g0 i) \<and> \<not> clean_computed (node_at g i) \<longrightarrow>
         i \<in> set work \<or> (\<forall>s \<in> set (nd_subscribers (node_at g0 i)). reached (node_at g s))) \<and>
      set (g_queue g) = set (g_queue g0) \<union>
        {i. nd_kind (node_at g0 i) = Effect \<and> \<not> nd_queued (node_at g0 i) \<and> nd_queued (node_at g i)})"

lemma dirtied_live:
  assumes "graph_ok g" and "n < length (g_nodes g)" and "dirtied g n i"
  shows "i < length (g_nodes g)" "nd_live (node_at g i)" "nd_kind (node_at g i) \<noteq> Signal"
  using assms(3)
proof (induction rule: dirtied.induct)
  case (direct s)
  { case 1 then show ?case using subscriber_live [OF assms(1,2) direct] by blast }
  { case 2 then show ?case using subscriber_live [OF assms(1,2) direct] by blast }
  { case 3 then show ?case using subscriber_live [OF assms(1,2) direct] by blast }
next
  case (through i s)
  note sub = subscriber_live [OF assms(1) _ through.hyps(3)]
  { case 1 then show ?case using sub through.IH(1) by blast }
  { case 2 then show ?case using sub through.IH(1) by blast }
  { case 3 then show ?case using sub through.IH(1) by blast }
qed

lemma walk_step:
  assumes inv: "walk_inv n g0 g (work @ [i])" and n: "n < length (g_nodes g0)" and ok0: "graph_ok g0"
    and sw: "swept (nd_subscribers (node_at g i)) g work g' work'"
  shows "walk_inv n g0 g' work'"
proof -
  let ?ss = "nd_subscribers (node_at g i)"
  have inv: "graph_ok g" "marked g0 g"
    "\<And>j. j \<in> set (work @ [i]) \<Longrightarrow> j = n \<or> dirtied g0 n j \<and> clean_computed (node_at g0 j)"
    "\<And>j. node_at g j = node_at g0 j \<or> dirtied g0 n j \<and> node_at g j = flagged (node_at g0 j)"
    "\<And>j. j = n \<or> dirtied g0 n j \<and> clean_computed (node_at g0 j) \<and> \<not> clean_computed (node_at g j) \<Longrightarrow>
         j \<in> set (work @ [i]) \<or> (\<forall>s \<in> set (nd_subscribers (node_at g0 j)). reached (node_at g s))"
    "set (g_queue g) = set (g_queue g0) \<union>
        {i. nd_kind (node_at g0 i) = Effect \<and> \<not> nd_queued (node_at g0 i) \<and> nd_queued (node_at g i)}"
    using inv unfolding walk_inv_def by blast+
  have sw: "graph_ok g'" "marked g g'" "\<And>j. node_at g' j = (if j \<in> set ?ss then flagged (node_at g j) else node_at g j)"
    "set work' = set work \<union> {s \<in> set ?ss. clean_computed (node_at g s)}"
    "set (g_queue g') = set (g_queue g) \<union> {s \<in> set ?ss. nd_kind (node_at g s) = Effect \<and> \<not> nd_queued (node_at g s)}"
    using sw unfolding swept_def by blast+
  have i: "i = n \<or> dirtied g0 n i \<and> clean_computed (node_at g0 i)" using inv(3) by simp
  have subs: "nd_subscribers (node_at g j) = nd_subscribers (node_at g0 j)" for j
    using inv(4) [of j] by auto
  have reach: "dirtied g0 n s" if "s \<in> set ?ss" for s
    using i that unfolding subs by (blast intro: dirtied.intros)
  have live: "nd_live (node_at g s)" if "s \<in> set ?ss" for s
    using dirtied_live(2) [OF ok0 n reach [OF that]] inv(4) [of s] by auto
  have nodes: "node_at g' j = node_at g0 j \<or> dirtied g0 n j \<and> node_at g' j = flagged (node_at g0 j)" for j
    using inv(4) [of j] sw(3) [of j] reach [of j] by auto
  have worked: "j = n \<or> dirtied g0 n j \<and> clean_computed (node_at g0 j)" if "j \<in> set work'" for j
  proof (cases "j \<in> set work")
    case True
    then show ?thesis using inv(3) by simp
  next
    case False
    with that sw(4) have "j \<in> set ?ss" "clean_computed (node_at g j)" by auto
    then show ?thesis using reach inv(4) [of j] by auto
  qed
  have still: "reached (node_at g' s)" if "reached (node_at g s)" for s
    using that sw(3) [of s] by simp
  have todo: "j \<in> set work' \<or> (\<forall>s \<in> set (nd_subscribers (node_at g0 j)). reached (node_at g' s))"
    if j: "j = n \<or> dirtied g0 n j \<and> clean_computed (node_at g0 j) \<and> \<not> clean_computed (node_at g' j)" for j
  proof (cases "j = i")
    case True
    then show ?thesis using sw(3) live by (auto simp: subs)
  next
    case False
    show ?thesis
    proof (cases "clean_computed (node_at g j) \<and> j \<noteq> n")
      case True
      with j sw(3) [of j] have "j \<in> set ?ss" by (auto split: if_splits)
      with True sw(4) show ?thesis by blast
    next
      case clean: False
      with j inv(5) [of j] False have "j \<in> set work \<or> (\<forall>s \<in> set (nd_subscribers (node_at g0 j)). reached (node_at g s))"
        by auto
      with still sw(4) show ?thesis by blast
    qed
  qed
  have "set (g_queue g') = set (g_queue g0) \<union>
      {j. nd_kind (node_at g0 j) = Effect \<and> \<not> nd_queued (node_at g0 j) \<and> nd_queued (node_at g' j)}"
  proof (rule set_eqI)
    fix j
    show "j \<in> set (g_queue g') \<longleftrightarrow> j \<in> set (g_queue g0) \<union>
        {j. nd_kind (node_at g0 j) = Effect \<and> \<not> nd_queued (node_at g0 j) \<and> nd_queued (node_at g' j)}"
      unfolding sw(5) inv(6) using inv(4) [of j] sw(3) [of j] by (auto split: if_splits)
  qed
  with sw(1) marked_trans [OF inv(2) sw(2)] worked nodes todo show ?thesis unfolding walk_inv_def by blast
qed

lemma mark_loop_walk:
  "\<lbrakk>walk_inv n g0 g work; n < length (g_nodes g0); graph_ok g0\<rbrakk> \<Longrightarrow>
   \<exists>g'. mark_loop g work = Some g' \<and> walk_inv n g0 g' []"
proof (induction g work rule: mark_loop.induct)
  case (1 g work)
  show ?case
  proof (cases "work = []")
    case True
    with 1(2) show ?thesis by (subst mark_loop.simps) simp
  next
    case False
    let ?i = "last work"
    have ok: "graph_ok g" and len: "length (g_nodes g) = length (g_nodes g0)"
      and i: "?i = n \<or> dirtied g0 n ?i"
      using 1(2) False unfolding walk_inv_def marked_def by auto
    have il: "?i < length (g_nodes g)" using i dirtied_live(1) [OF 1(4,3)] 1(3) len by metis
    have "\<forall>s \<in> set (nd_subscribers (node_at g ?i)). s < length (g_nodes g) \<and> nd_live (node_at g s) \<and> nd_kind (node_at g s) \<noteq> Signal"
      using subscriber_live [OF ok il] by blast
    from mark_subs_swept [OF ok this, of "butlast work"] obtain g' work'
      where m: "mark_subs (nd_subscribers (node_at g ?i)) g (butlast work) = Some (g', work')"
        and sw: "swept (nd_subscribers (node_at g ?i)) g (butlast work) g' work'" by blast
    have "walk_inv n g0 g (butlast work @ [?i])" using 1(2) False by simp
    from walk_step [OF this 1(3,4) sw] have "walk_inv n g0 g' work'" .
    from 1(1) [OF False _ m refl this 1(3,4)] il obtain h where "mark_loop g' work' = Some h" "walk_inv n g0 h []" by auto
    then show ?thesis using False il m by (subst mark_loop.simps) simp
  qed
qed

lemma walk_start: "graph_ok g \<Longrightarrow> walk_inv n g g [n]"
  by (auto simp: walk_inv_def marked_refl)

lemma walk_end:
  assumes "walk_inv n g g' []" and "graph_ok g" and "n < length (g_nodes g)" and "dirtied g n i"
  shows "node_at g' i = flagged (node_at g i)"
proof -
  have inv: "\<And>j. node_at g' j = node_at g j \<or> dirtied g n j \<and> node_at g' j = flagged (node_at g j)"
    "\<And>j. j = n \<or> dirtied g n j \<and> clean_computed (node_at g j) \<and> \<not> clean_computed (node_at g' j) \<Longrightarrow>
         \<forall>s \<in> set (nd_subscribers (node_at g j)). reached (node_at g' s)"
    using assms(1) unfolding walk_inv_def by auto
  have "reached (node_at g' i)" using assms(4)
  proof (induction rule: dirtied.induct)
    case (direct s)
    then show ?case using inv(2) by blast
  next
    case (through i s)
    then have "\<not> clean_computed (node_at g' i)" by (auto simp: reached_def clean_computed_def)
    with through inv(2) show ?case by blast
  qed
  with inv(1) [of i] show ?thesis by (metis flagged_simps(2))
qed

section \<open>Setting and touching a node\<close>

lemma forest_ok_cong:
  assumes "length (g_nodes g') = length (g_nodes g)"
    and "\<And>i. i < length (g_nodes g) \<Longrightarrow> nd_live (node_at g' i) = nd_live (node_at g i) \<and>
      nd_owned (node_at g' i) = nd_owned (node_at g i) \<and> nd_owner (node_at g' i) = nd_owner (node_at g i)"
  shows "owns g' = owns g" and "forest_ok g \<Longrightarrow> forest_ok g'"
proof -
  show owns: "owns g' = owns g" using assms by (auto simp: owns_def)
  assume ok: "forest_ok g"
  show "forest_ok g'"
    unfolding forest_ok_def owns
  proof (intro conjI allI impI ballI)
    fix i assume i': "i < length (g_nodes g')"
    then have i: "i < length (g_nodes g)" using assms(1) by simp
    note same = assms(2) [OF i]
    note f = forest_okD [OF ok i]
    show "\<not> nd_live (node_at g' i) \<Longrightarrow> nd_owned (node_at g' i) = []" using same f(1) by simp
    show "distinct (nd_owned (node_at g' i))" using same f(5) by simp
    fix c assume "c \<in> set (nd_owned (node_at g' i))"
    with same f(2-4) [of c] have c: "c < length (g_nodes g)" "nd_live (node_at g c)" "nd_owner (node_at g c) = Some i" by auto
    with assms(1) assms(2) [OF c(1)] show "c < length (g_nodes g')" "nd_live (node_at g' c)" "nd_owner (node_at g' c) = Some i"
      by auto
  qed (use ok in \<open>simp add: forest_ok_def\<close>)
qed

lemma marked_reactive:
  assumes "marked g g'" and "reactive_ok g" and "graph_ok g'"
  shows "reactive_ok g'"
proof -
  have "forest_ok g'"
    using marked_length [OF assms(1)] marked_same [OF assms(1)] reactive_okD(2) [OF assms(2)]
    by (intro forest_ok_cong(2) [of g' g]) auto
  moreover have "frames_ok g'"
    using reactive_okD(3) [OF assms(2)] assms(1) marked_same(1,2) [OF assms(1)]
    unfolding frames_ok_def by (auto simp: marked_def)
  ultimately show ?thesis using assms(3) by (simp add: reactive_ok_def)
qed

text \<open>The outcome of a change of \<open>n\<close>: the transitive dependents are flagged, nothing else moves.\<close>

definition change_outcome :: "node_id \<Rightarrow> 'v inner \<Rightarrow> 'v inner \<Rightarrow> bool" where
  "change_outcome n g g' =
     (marked g g' \<and> (\<forall>i. node_at g' i = (if dirtied g n i then flagged (node_at g i) else node_at g i)) \<and>
      set (g_queue g') = set (g_queue g) \<union>
        {i. dirtied g n i \<and> nd_kind (node_at g i) = Effect \<and> \<not> nd_queued (node_at g i)})"

lemma mark_dirty_outcome:
  assumes "graph_ok g" and "n < length (g_nodes g)"
  shows "\<exists>g'. mark_dirty_subscribers n g = Some g' \<and> graph_ok g' \<and> change_outcome n g g'"
proof -
  from mark_loop_walk [OF walk_start [OF assms(1)] assms(2,1)] obtain h
    where h: "mark_loop g [n] = Some h" and inv: "walk_inv n g h []" by blast
  let ?h = "h\<lparr>g_dirty_scratch := []\<rparr>"
  have hi: "graph_ok h" "marked g h"
    "\<And>i. node_at h i = node_at g i \<or> dirtied g n i \<and> node_at h i = flagged (node_at g i)"
    "set (g_queue h) = set (g_queue g) \<union>
        {i. nd_kind (node_at g i) = Effect \<and> \<not> nd_queued (node_at g i) \<and> nd_queued (node_at h i)}"
    using inv unfolding walk_inv_def by auto
  have ok: "graph_ok ?h" using hi(1) by (simp add: graph_ok_def Let_def)
  have nodes: "node_at h i = (if dirtied g n i then flagged (node_at g i) else node_at g i)" for i
    using hi(3) [of i] walk_end [OF inv assms, of i] by auto
  have "set (g_queue h) = set (g_queue g) \<union>
      {i. dirtied g n i \<and> nd_kind (node_at g i) = Effect \<and> \<not> nd_queued (node_at g i)}"
    unfolding hi(4) using nodes by auto
  with nodes hi(2) have "change_outcome n g ?h" by (simp add: change_outcome_def marked_def)
  with ok h show ?thesis by (simp add: mark_dirty_subscribers_def)
qed

lemma note_change_frame [simp]:
  "node_at (note_change n g) = node_at g" "length (g_nodes (note_change n g)) = length (g_nodes g)"
  "graph_ok (note_change n g) = graph_ok g" "g_queue (note_change n g) = g_queue g"
  "g_free (note_change n g) = g_free g" "g_computing (note_change n g) = g_computing g"
  by (simp_all add: note_change_def graph_ok_def Let_def)

lemma marked_note_change [simp]: "marked (note_change n g) g' = marked g g'"
  unfolding marked_def by (simp add: note_change_def)

lemma dirtied_cong:
  assumes "\<And>i. nd_subscribers (node_at h i) = nd_subscribers (node_at g i)"
    and "\<And>i. clean_computed (node_at h i) = clean_computed (node_at g i)"
  shows "dirtied h n i = dirtied g n i"
proof
  show "dirtied h n i \<Longrightarrow> dirtied g n i"
    by (induction rule: dirtied.induct) (simp_all add: assms dirtied.direct, metis dirtied.through)
  show "dirtied g n i \<Longrightarrow> dirtied h n i"
    by (induction rule: dirtied.induct) (simp_all add: assms dirtied.direct, metis assms dirtied.through)
qed

lemma touch_outcome:
  assumes "reactive_ok g" and "n < length (g_nodes g)"
  shows "\<exists>g'. touch n g = Some g' \<and> reactive_ok g' \<and>
    (\<forall>i. node_at g' i = (if dirtied g n i then flagged (node_at g i) else node_at g i)) \<and>
    set (g_queue g') = set (g_queue g) \<union>
      {i. dirtied g n i \<and> nd_kind (node_at g i) = Effect \<and> \<not> nd_queued (node_at g i)} \<and> marked g g'"
proof -
  let ?g = "note_change n g"
  have d: "dirtied ?g n i = dirtied g n i" for i by (rule dirtied_cong) simp_all
  have ok: "graph_ok ?g" using reactive_okD(1) [OF assms(1)] by simp
  with mark_dirty_outcome [of ?g n] assms(2) obtain g'
    where g': "mark_dirty_subscribers n ?g = Some g'" "graph_ok g'" "change_outcome n ?g g'" by auto
  have m: "marked g g'"
    using g'(3) by (simp add: change_outcome_def)
  have "touch n g = Some g'" using g'(1) assms(2) by (simp add: touch_def)
  moreover have "reactive_ok g'" by (rule marked_reactive [OF m assms(1) g'(2)])
  ultimately show ?thesis using g'(3) m by (simp add: change_outcome_def d)
qed

lemma set_content_ok:
  assumes "reactive_ok g" and "n < length (g_nodes g)" and "nd_live (node_at g n)" and "nd_kind (node_at g n) = Signal"
  shows "reactive_ok (upd n (nd_content_update (\<lambda>_. Some v)) g)" (is "reactive_ok ?g")
proof -
  let ?n = "length (g_nodes g)"
  note ok = reactive_okD(1) [OF assms(1)]
  have same: "nd_sources (node_at ?g i) = nd_sources (node_at g i)"
    "nd_subscribers (node_at ?g i) = nd_subscribers (node_at g i)" "nd_live (node_at ?g i) = nd_live (node_at g i)"
    "nd_kind (node_at ?g i) = nd_kind (node_at g i)" "is_dirty_computed (node_at ?g i) = is_dirty_computed (node_at g i)"
    "nd_owned (node_at ?g i) = nd_owned (node_at g i)" "nd_owner (node_at ?g i) = nd_owner (node_at g i)" for i
    by (simp_all add: node_at_upd is_dirty_computed_def)
  have "node_ok ?n i (node_at ?g i)" if "i < ?n" for i
    using graph_okD(1) [OF ok that] assms(2-4) by (auto simp: node_at_upd node_ok_def)
  moreover have "symmetric ?n (node_at ?g)" using graph_okD(2) [OF ok] same by (simp add: symmetric_def)
  ultimately have "graph_ok ?g"
    using graph_okD(3-6) [OF ok] same by (simp add: graph_ok_def Let_def dirty_set_def)
  moreover have "forest_ok ?g" using reactive_okD(2) [OF assms(1)] same by (intro forest_ok_cong(2) [of ?g g]) simp_all
  moreover have "frames_ok ?g" using reactive_okD(3) [OF assms(1)] same by (simp add: frames_ok_def)
  ultimately show ?thesis by (simp add: reactive_ok_def)
qed

lemma set_is_touch:
  "n < length (g_nodes g) \<Longrightarrow> set_signal n v g = touch n (upd n (nd_content_update (\<lambda>_. Some v)) g)"
  by (simp add: set_signal_def touch_def)

text \<open>
  C10: a write reaches exactly the stale dependents. Setting a live signal succeeds, stores the value,
  and then flags precisely the nodes that depend on it through computeds that were clean: each such
  computed becomes dirty, each such effect becomes queued and enters the queue; every other node, every
  edge and every stored value is untouched, and the invariant holds afterwards.
\<close>

theorem set_flags_exactly_dependents:
  assumes "reactive_ok g" and "n < length (g_nodes g)" and "nd_live (node_at g n)" and "nd_kind (node_at g n) = Signal"
  shows "\<exists>g'. set_signal n v g = Some g' \<and> reactive_ok g' \<and>
    (\<forall>i. node_at g' i = (if i = n then (node_at g n)\<lparr>nd_content := Some v\<rparr>
                          else if dirtied g n i then flagged (node_at g i) else node_at g i)) \<and>
    set (g_queue g') = set (g_queue g) \<union>
      {i. dirtied g n i \<and> nd_kind (node_at g i) = Effect \<and> \<not> nd_queued (node_at g i)}"
proof -
  let ?g = "upd n (nd_content_update (\<lambda>_. Some v)) g"
  have ok: "reactive_ok ?g" by (rule set_content_ok [OF assms])
  have n: "n < length (g_nodes ?g)" using assms(2) by simp
  have d: "dirtied ?g n i = dirtied g n i" for i
    by (rule dirtied_cong) (simp_all add: node_at_upd clean_computed_def)
  have not: "\<not> dirtied g n n"
    using dirtied_live(3) [OF reactive_okD(1) [OF assms(1)] assms(2)] assms(4) by blast
  from touch_outcome [OF ok n] obtain g' where g': "touch n ?g = Some g'" "reactive_ok g'"
    "\<And>i. node_at g' i = (if dirtied g n i then flagged (node_at ?g i) else node_at ?g i)"
    "set (g_queue g') = set (g_queue g) \<union>
      {i. dirtied g n i \<and> nd_kind (node_at ?g i) = Effect \<and> \<not> nd_queued (node_at ?g i)}"
    unfolding d by auto
  have "node_at g' i = (if i = n then (node_at g n)\<lparr>nd_content := Some v\<rparr>
      else if dirtied g n i then flagged (node_at g i) else node_at g i)" for i
    using not assms(2) by (simp add: g'(3) node_at_upd)
  moreover have "{i. dirtied g n i \<and> nd_kind (node_at ?g i) = Effect \<and> \<not> nd_queued (node_at ?g i)} =
      {i. dirtied g n i \<and> nd_kind (node_at g i) = Effect \<and> \<not> nd_queued (node_at g i)}"
    by (auto simp: node_at_upd)
  ultimately show ?thesis using g' set_is_touch [OF assms(2)] by auto
qed

end
