(* ===== verification/Reactive_Steps.thy ===== *)
theory Reactive_Steps
  imports Reactive_Marking
begin

text \<open>
  Tracking and recomputation (\<open>record_dependency\<close>, \<open>begin_compute\<close>, \<open>end_compute\<close>), the step relation of
  the graph with bodies running in between, and the invariants of every reachable graph.
\<close>

section \<open>Recording an edge\<close>

text \<open>The edge a tracked read adds, when it adds one.\<close>

definition add_edge :: "node_id \<Rightarrow> node_id \<Rightarrow> 'v inner \<Rightarrow> 'v inner" where
  "add_edge sub src g =
     upd src (nd_subscribers_update (\<lambda>ss. ss @ [sub])) (upd sub (nd_sources_update (\<lambda>ss. ss @ [src])) g)"

lemma node_at_add_edge:
  "sub \<noteq> src \<Longrightarrow> sub < length (g_nodes g) \<Longrightarrow> src < length (g_nodes g) \<Longrightarrow>
   node_at (add_edge sub src g) i =
     (if i = src then nd_subscribers_update (\<lambda>ss. ss @ [sub]) (node_at g src)
      else if i = sub then nd_sources_update (\<lambda>ss. ss @ [src]) (node_at g sub) else node_at g i)"
  by (simp add: add_edge_def node_at_upd)

lemma add_edge_ok:
  assumes ok: "graph_ok g" and ne: "sub \<noteq> src" and len: "sub < length (g_nodes g)" "src < length (g_nodes g)"
    and live: "nd_live (node_at g sub)" "nd_live (node_at g src)" "nd_kind (node_at g sub) \<noteq> Signal"
    and new: "src \<notin> set (nd_sources (node_at g sub))"
  shows "graph_ok (add_edge sub src g)"
proof -
  let ?g = "add_edge sub src g" and ?n = "length (g_nodes g)"
  note node = node_at_add_edge [OF ne len]
  have new': "sub \<notin> set (nd_subscribers (node_at g src))"
    using graph_okD(2) [OF ok] len new by (simp add: symmetric_def)
  have "node_ok ?n i (node_at ?g i)" if "i < ?n" for i
    using graph_okD(1) [OF ok that] ne len live new new' by (auto simp: node node_ok_def)
  moreover have "symmetric ?n (node_at ?g)"
    using graph_okD(2) [OF ok] ne by (auto simp: symmetric_def node)
  moreover have "is_dirty_computed (node_at ?g i) = is_dirty_computed (node_at g i)"
    "nd_live (node_at ?g i) = nd_live (node_at g i)" for i
    by (simp_all add: node is_dirty_computed_def)
  ultimately show ?thesis
    using graph_okD(3-6) [OF ok] by (simp add: graph_ok_def Let_def dirty_set_def add_edge_def)
qed

lemma add_edge_reactive:
  assumes ok: "reactive_ok g" and ne: "sub \<noteq> src" and len: "sub < length (g_nodes g)" "src < length (g_nodes g)"
    and live: "nd_live (node_at g sub)" "nd_live (node_at g src)" "nd_kind (node_at g sub) \<noteq> Signal"
    and new: "src \<notin> set (nd_sources (node_at g sub))"
  shows "reactive_ok (add_edge sub src g)"
proof -
  let ?g = "add_edge sub src g"
  have same: "nd_live (node_at ?g i) = nd_live (node_at g i)" "nd_kind (node_at ?g i) = nd_kind (node_at g i)"
    "nd_owned (node_at ?g i) = nd_owned (node_at g i)" "nd_owner (node_at ?g i) = nd_owner (node_at g i)" for i
    by (simp_all add: node_at_add_edge [OF ne len])
  have "forest_ok ?g" using reactive_okD(2) [OF ok] same by (intro forest_ok_cong(2) [of ?g g]) (simp_all add: add_edge_def)
  moreover have "frames_ok ?g"
    using reactive_okD(3) [OF ok] unfolding frames_ok_def same by (simp add: add_edge_def)
  ultimately show ?thesis
    using add_edge_ok [OF reactive_okD(1) [OF ok] ne len live new] by (simp add: reactive_ok_def)
qed

lemma record_dependency_cases:
  obtains (none) "record_dependency src g = g"
  | (edge) sub where "top_frame g = Some sub" "sub \<noteq> src" "src \<notin> set (nd_sources (node_at g sub))"
      "record_dependency src g = add_edge sub src g"
proof (cases "top_frame g")
  case None
  then show thesis by (intro none) (simp add: record_dependency_def)
next
  case (Some sub)
  show thesis
  proof (cases "sub = src \<or> src \<in> set (nd_sources (node_at g sub))")
    case True
    with Some show thesis by (intro none) (auto simp: record_dependency_def)
  next
    case False
    with Some show thesis by (intro edge) (auto simp: record_dependency_def add_edge_def)
  qed
qed

lemma record_dependency_ok:
  assumes "reactive_ok g" and "src < length (g_nodes g)" and "nd_live (node_at g src)"
  shows "reactive_ok (record_dependency src g)"
proof (cases rule: record_dependency_cases [of src g])
  case none
  with assms(1) show ?thesis by simp
next
  case (edge sub)
  have "sub < length (g_nodes g)" "nd_live (node_at g sub)" "nd_kind (node_at g sub) \<noteq> Signal"
    using reactive_okD(3) [OF assms(1)] top_frame_mem [OF edge(1)] by (auto simp: frames_ok_def)
  then show ?thesis
    unfolding edge(4) using add_edge_reactive [OF assms(1) edge(2) _ assms(2) _ assms(3) _ edge(3)] by blast
qed

section \<open>Starting and finishing a computation\<close>

definition frame_free :: "node_id \<Rightarrow> 'v inner \<Rightarrow> bool" where
  "frame_free n g = (\<forall>c \<in> set (g_computing g). (n, c) \<notin> (owns g)\<^sup>+)"

lemma dispose_owned_self:
  assumes "graph_ok g" and "forest_ok g" and "n < length (g_nodes g)" and "nd_live (node_at g n)"
  shows "nd_live (node_at (dispose_owned n g) n)"
    "survives (node_at g n) (node_at (dispose_owned n g) n)"
    "length (g_nodes (dispose_owned n g)) = length (g_nodes g)"
proof -
  have "(n, n) \<notin> (owns g)\<^sup>+" using assms(2) by (simp add: forest_ok_def acyclic_def)
  then show l: "nd_live (node_at (dispose_owned n g) n)"
    using dispose_owned_exact [OF assms(1-3,3,4)] by blast
  have td: "torn_down g (dispose_owned n g)" by (rule dispose_owned_torn(3) [OF assms(1-3)])
  with l assms(3) show "survives (node_at g n) (node_at (dispose_owned n g) n)" by (simp add: torn_down_def)
  from td show "length (g_nodes (dispose_owned n g)) = length (g_nodes g)" by (simp add: torn_down_def)
qed

lemma dispose_owned_frames:
  assumes "reactive_ok g" and "n < length (g_nodes g)" and "frame_free n g"
  shows "frames_ok (dispose_owned n g)"
proof -
  let ?g = "dispose_owned n g"
  note ok = reactive_okD [OF assms(1)]
  have td: "torn_down g ?g" by (rule dispose_owned_torn(3) [OF ok(1,2) assms(2)])
  have "c < length (g_nodes ?g) \<and> nd_live (node_at ?g c) \<and> nd_kind (node_at ?g c) \<noteq> Signal"
    if c: "c \<in> set (g_computing g)" for c
  proof -
    have cl: "c < length (g_nodes g)" "nd_live (node_at g c)" "nd_kind (node_at g c) \<noteq> Signal"
      using ok(3) c by (auto simp: frames_ok_def)
    have "nd_live (node_at ?g c)"
      using dispose_owned_exact [OF ok(1,2) assms(2) cl(1,2)] assms(3) c by (simp add: frame_free_def)
    with td cl show ?thesis by (auto simp: torn_down_def survives_def)
  qed
  with td show ?thesis by (simp add: frames_ok_def torn_down_def)
qed

lemma sever_sources_reactive:
  assumes "reactive_ok g" and "n < length (g_nodes g)"
  shows "reactive_ok (sever_sources n g)"
proof -
  let ?g = "sever_sources n g"
  note nodes = sever_sources_nodes [OF reactive_okD(1) [OF assms(1)] assms(2)]
  have same: "nd_live (node_at ?g i) = nd_live (node_at g i)" "nd_kind (node_at ?g i) = nd_kind (node_at g i)"
    "nd_owned (node_at ?g i) = nd_owned (node_at g i)" "nd_owner (node_at ?g i) = nd_owner (node_at g i)" for i
    by (simp_all add: nodes)
  have "forest_ok ?g"
    using reactive_okD(2) [OF assms(1)] same nodes(2) by (intro forest_ok_cong(2) [of ?g g]) simp_all
  moreover have "frames_ok ?g" using reactive_okD(3) [OF assms(1)] unfolding frames_ok_def same nodes(2) by simp
  ultimately show ?thesis
    using sever_sources_ok [OF reactive_okD(1) [OF assms(1)] assms(2)] by (simp add: reactive_ok_def)
qed

lemma push_frame_ok:
  assumes "reactive_ok g" and "n < length (g_nodes g)" and "nd_live (node_at g n)" and "nd_kind (node_at g n) \<noteq> Signal"
  shows "reactive_ok (g\<lparr>g_computing := g_computing g @ [n]\<rparr>)"
proof -
  let ?g = "g\<lparr>g_computing := g_computing g @ [n]\<rparr>"
  have "graph_ok ?g" using reactive_okD(1) [OF assms(1)] by (simp add: graph_ok_def Let_def)
  moreover have "forest_ok ?g" using reactive_okD(2) [OF assms(1)] by (intro forest_ok_cong(2) [of ?g g]) simp_all
  moreover have "frames_ok ?g" using reactive_okD(3) [OF assms(1)] assms(2-4) by (simp add: frames_ok_def)
  ultimately show ?thesis by (simp add: reactive_ok_def)
qed

lemma begin_compute_ok:
  assumes "reactive_ok g" and n: "n < length (g_nodes g)" "nd_live (node_at g n)" "nd_kind (node_at g n) \<noteq> Signal"
    and "frame_free n g"
  shows "\<exists>b g'. begin_compute n g = Some (b, g') \<and> nd_body (node_at g n) = Some b \<and> reactive_ok g' \<and>
    g_computing g' = g_computing g @ [n] \<and> nd_sources (node_at g' n) = [] \<and> nd_owned (node_at g' n) = [] \<and>
    length (g_nodes g') = length (g_nodes g) \<and> g_queue g' = g_queue g \<and> g_flushing g' = g_flushing g"
proof -
  let ?g = "dispose_owned n g"
  note ok = reactive_okD [OF assms(1)]
  note self = dispose_owned_self [OF ok(1,2) n(1,2)]
  have torn: "torn_down g ?g" by (rule dispose_owned_torn(3) [OF ok(1,2) n(1)])
  have rok: "reactive_ok ?g"
    using dispose_owned_torn(4,5) [OF ok(1,2) n(1)] dispose_owned_frames [OF assms(1) n(1) assms(5)]
    by (simp add: reactive_ok_def)
  have nl: "n < length (g_nodes ?g)" using n(1) self(3) by simp
  note nodes = sever_sources_nodes [OF reactive_okD(1) [OF rok] nl]
  have kind: "nd_kind (node_at ?g n) \<noteq> Signal" "nd_body (node_at ?g n) = nd_body (node_at g n)"
    using self(2) n(3) by (simp_all add: survives_def)
  have owned: "nd_owned (node_at ?g n) = []"
    using teardown_owned [OF dispose_owned_torn(1) [OF ok(1,2) n(1)], of n] n(1) by (simp add: node_at_take_owned)
  obtain b where b: "nd_body (node_at g n) = Some b"
    using graph_okD(1) [OF ok(1) n(1)] n(2,3) by (cases "nd_kind (node_at g n)") (auto simp: node_ok_def)
  let ?h = "(sever_sources n ?g)\<lparr>g_computing := g_computing (sever_sources n ?g) @ [n]\<rparr>"
  have "reactive_ok ?h"
    by (rule push_frame_ok [OF sever_sources_reactive [OF rok nl]]) (use nl self(1) kind(1) nodes in simp_all)
  moreover have "begin_compute n g = Some (b, ?h)" using b kind(2) by (simp add: begin_compute_def Let_def nodes)
  ultimately show ?thesis
    using b nodes owned self(3) torn by (simp add: torn_down_def)
qed

text \<open>What \<open>end_compute\<close> leaves of the node it finishes.\<close>

definition finished :: "'v option \<Rightarrow> 'v node \<Rightarrow> 'v node" where
  "finished r nd = (if nd_kind nd = Computed then nd\<lparr>nd_content := r\<rparr> else nd)\<lparr>nd_dirty := False\<rparr>"

lemma end_compute_fields:
  assumes "n < length (g_nodes g)"
  shows "node_at (end_compute n r g) i = (if i = n then finished r (node_at g n) else node_at g i)"
    "length (g_nodes (end_compute n r g)) = length (g_nodes g)"
    "g_computing (end_compute n r g) = butlast (g_computing g)" "g_queue (end_compute n r g) = g_queue g"
    "g_free (end_compute n r g) = g_free g" "g_flushing (end_compute n r g) = g_flushing g"
    "g_dirty_computeds (end_compute n r g) =
       (if is_dirty_computed (node_at g n) then g_dirty_computeds g - 1 else g_dirty_computeds g)"
  using assms by (simp_all add: end_compute_def Let_def node_at_upd finished_def)

lemma finished_simps [simp]:
  "nd_live (finished r nd) = nd_live nd" "nd_kind (finished r nd) = nd_kind nd"
  "nd_sources (finished r nd) = nd_sources nd" "nd_subscribers (finished r nd) = nd_subscribers nd"
  "nd_owned (finished r nd) = nd_owned nd" "nd_owner (finished r nd) = nd_owner nd"
  "nd_queued (finished r nd) = nd_queued nd" "nd_body (finished r nd) = nd_body nd" "\<not> nd_dirty (finished r nd)"
  "nd_content (finished r nd) = (if nd_kind nd = Computed then r else nd_content nd)"
  "\<not> is_dirty_computed (finished r nd)"
  by (simp_all add: finished_def is_dirty_computed_def)

lemma end_compute_ok:
  assumes "reactive_ok g" and n: "n < length (g_nodes g)" "nd_live (node_at g n)"
    and r: "nd_kind (node_at g n) = Computed \<Longrightarrow> r \<noteq> None"
  shows "reactive_ok (end_compute n r g)"
proof -
  let ?g = "end_compute n r g" and ?n = "length (g_nodes g)"
  note ok = reactive_okD [OF assms(1)] and f = end_compute_fields [OF n(1), of r]
  have same: "nd_sources (node_at ?g i) = nd_sources (node_at g i)" "nd_subscribers (node_at ?g i) = nd_subscribers (node_at g i)"
    "nd_live (node_at ?g i) = nd_live (node_at g i)" "nd_kind (node_at ?g i) = nd_kind (node_at g i)"
    "nd_owned (node_at ?g i) = nd_owned (node_at g i)" "nd_owner (node_at ?g i) = nd_owner (node_at g i)" for i
    by (simp_all add: f)
  have "node_ok ?n n (finished r (node_at g n))"
    using graph_okD(1) [OF ok(1) n(1)] n(2) r by (auto simp: node_ok_def)
  then have "node_ok ?n i (node_at ?g i)" if "i < ?n" for i
    using graph_okD(1) [OF ok(1) that] by (simp add: f)
  moreover have "symmetric ?n (node_at ?g)" using graph_okD(2) [OF ok(1)] same by (simp add: symmetric_def)
  moreover have "dirty_set ?n (node_at ?g) = dirty_set ?n (node_at g) - {n}"
    by (auto simp: dirty_set_def f)
  then have "card (dirty_set ?n (node_at ?g)) = g_dirty_computeds ?g"
    using n(1) graph_okD(5) [OF ok(1)] by (simp add: f card_Diff_singleton_if) (simp add: dirty_set_def)
  ultimately have "graph_ok ?g"
    using graph_okD(3,4,6) [OF ok(1)] same by (simp add: graph_ok_def Let_def f(2,4,5))
  moreover have "forest_ok ?g" using ok(2) same f(2) by (intro forest_ok_cong(2) [of ?g g]) simp_all
  moreover have "frames_ok ?g"
    using ok(3) same by (auto simp: frames_ok_def f(2,3) dest: in_set_butlastD)
  ultimately show ?thesis by (simp add: reactive_ok_def)
qed

end
