(* ===== verification/Reactive_Reach.thy ===== *)
theory Reactive_Reach
  imports Reactive_Steps
begin

text \<open>
  Every interleaving of the graph's operations with running bodies, as a step relation, and the two
  invariants of all reachable graphs: the structure (\<open>reactive_ok\<close>) and freshness (\<open>stale_ok\<close>), which
  says that a memo is never served while something below it is stale.
\<close>

section \<open>Freshness\<close>

text \<open>\<open>i\<close> started after \<open>s\<close> and is still running.\<close>

definition nested_in :: "node_id list \<Rightarrow> node_id \<Rightarrow> node_id \<Rightarrow> bool" where
  "nested_in cs s i = (\<exists>xs ys. cs = xs @ s # ys \<and> i \<in> set ys)"

text \<open>
  A subscriber \<open>s\<close> knows about its stale source \<open>i\<close>: it is stale or queued itself, and if its body is
  running, either \<open>i\<close> is being recomputed inside it or \<open>s\<close> is an effect that will run again.
\<close>

definition aware :: "'v inner \<Rightarrow> node_id \<Rightarrow> node_id \<Rightarrow> bool" where
  "aware g i s =
     (if s \<in> set (g_computing g)
      then nested_in (g_computing g) s i \<or> nd_kind (node_at g s) = Effect \<and> nd_queued (node_at g s)
      else reached (node_at g s))"

definition stale_ok :: "'v inner \<Rightarrow> bool" where
  "stale_ok g =
     (distinct (g_computing g) \<and>
      (\<forall>i < length (g_nodes g). is_dirty_computed (node_at g i) \<longrightarrow>
         (\<forall>s \<in> set (nd_subscribers (node_at g i)). aware g i s)))"

lemma nested_in_snoc:
  assumes "nested_in cs s i"
  shows "nested_in (cs @ [n]) s i"
proof -
  from assms obtain xs ys where "cs @ [n] = xs @ s # (ys @ [n])" "i \<in> set (ys @ [n])" by (auto simp: nested_in_def)
  then show ?thesis unfolding nested_in_def by blast
qed

lemma nested_in_top:
  assumes "s \<in> set cs"
  shows "nested_in (cs @ [n]) s n"
proof -
  from assms obtain xs ys where "cs @ [n] = xs @ s # (ys @ [n])" by (auto simp: in_set_conv_decomp)
  then show ?thesis unfolding nested_in_def by (metis in_set_conv_decomp)
qed

lemma nested_in_pop:
  assumes "nested_in (cs @ [n]) s i" and "i \<noteq> n" and "s \<noteq> n"
  shows "nested_in cs s i"
proof -
  from assms(1) obtain xs ys where eq: "cs @ [n] = xs @ s # ys" and i: "i \<in> set ys" by (auto simp: nested_in_def)
  from i obtain ys' y where ys: "ys = ys' @ [y]" by (cases ys rule: rev_cases) auto
  with eq have "cs = xs @ s # ys'" "y = n" by auto
  with i ys assms(2) show ?thesis by (auto simp: nested_in_def)
qed

lemma not_nested_last: "distinct (cs @ [n]) \<Longrightarrow> \<not> nested_in (cs @ [n]) n i"
proof
  assume d: "distinct (cs @ [n])" and "nested_in (cs @ [n]) n i"
  then obtain xs ys where eq: "cs @ [n] = xs @ n # ys" and i: "i \<in> set ys" by (auto simp: nested_in_def)
  from i obtain ys' y where "ys = ys' @ [y]" by (cases ys rule: rev_cases) auto
  with eq d show False by (auto)
qed

lemma stale_okD:
  assumes "stale_ok g"
  shows "distinct (g_computing g)"
    "\<lbrakk>i < length (g_nodes g); is_dirty_computed (node_at g i); s \<in> set (nd_subscribers (node_at g i))\<rbrakk> \<Longrightarrow> aware g i s"
  using assms by (auto simp: stale_ok_def)

text \<open>Operations that lose nodes and edges but keep the flags and the stack.\<close>

lemma stale_shrink:
  assumes "stale_ok g" and "g_computing g' = g_computing g" and "length (g_nodes g') = length (g_nodes g)"
    and keep: "\<And>i. i < length (g_nodes g) \<Longrightarrow> nd_live (node_at g' i) \<Longrightarrow> nd_kind (node_at g' i) = nd_kind (node_at g i) \<and>
      nd_dirty (node_at g' i) = nd_dirty (node_at g i) \<and> nd_queued (node_at g' i) = nd_queued (node_at g i) \<and>
      nd_live (node_at g i) \<and> set (nd_subscribers (node_at g' i)) \<subseteq> set (nd_subscribers (node_at g i))"
    and ok: "graph_ok g'"
  shows "stale_ok g'"
  unfolding stale_ok_def
proof (intro conjI allI impI ballI)
  show "distinct (g_computing g')" using stale_okD(1) [OF assms(1)] assms(2) by simp
  fix i s assume i: "i < length (g_nodes g')" and d: "is_dirty_computed (node_at g' i)"
    and s: "s \<in> set (nd_subscribers (node_at g' i))"
  from ok i s have sl: "s < length (g_nodes g')" "nd_live (node_at g' s)" by (rule subscriber_live)+
  have il: "nd_live (node_at g' i)"
    using graph_okD(1) [OF ok i] d by (auto simp: node_ok_def is_dirty_computed_def)
  have "aware g i s"
    using stale_okD(2) [OF assms(1), of i s] keep [of i] il i d s assms(3) by (auto simp: is_dirty_computed_def)
  then show "aware g' i s"
    using keep [of s] sl assms(2,3) by (auto simp: aware_def reached_def split: if_splits)
qed

lemma stale_torn:
  assumes "stale_ok g" and "torn_down g g'"
  shows "stale_ok g'"
  by (rule stale_shrink [OF assms(1)]) (use assms(2) in \<open>auto simp: torn_down_def survives_def\<close>)

lemma dispose_keeps:
  assumes "graph_ok g" and "forest_ok g" and n: "n < length (g_nodes g)" "nd_live (node_at g n)"
    and g': "dispose n g = Some g'" and i: "i < length (g_nodes g)" "nd_live (node_at g' i)"
  shows "nd_kind (node_at g' i) = nd_kind (node_at g i) \<and> nd_dirty (node_at g' i) = nd_dirty (node_at g i) \<and>
    nd_queued (node_at g' i) = nd_queued (node_at g i) \<and> nd_live (node_at g i) \<and>
    set (nd_subscribers (node_at g' i)) \<subseteq> set (nd_subscribers (node_at g i))"
proof -
  let ?g1 = "detach_owner n g" let ?g2 = "dispose_owned n ?g1"
  have n1: "n < length (g_nodes ?g1)" using n(1) by simp
  note t = dispose_owned_torn [OF detach_owner_ok [OF assms(1)] detach_owner_forest [OF assms(2)] n1]
  have len: "length (g_nodes ?g2) = length (g_nodes g)" using t(3) by (simp add: torn_down_def)
  have eq: "g' = unhook_and_free n ?g2" using g' dispose_alt [OF n] by simp
  have node: "node_at g' i = (if i = n then release_node ((node_at ?g2 n)\<lparr>nd_sources := [], nd_subscribers := []\<rparr>)
      else isolate n (node_at ?g2 i))"
    unfolding eq using unhook_nodes(2) [OF t(4)] n(1) i(1) len by simp
  with i(2) have ne: "i \<noteq> n" "nd_live (node_at ?g2 i)" by (auto split: if_splits)
  have sv: "survives (node_at ?g1 i) (node_at ?g2 i)" using t(3) i(1) ne(2) by (simp add: torn_down_def)
  obtain f where f: "node_at ?g1 i = (node_at g i)\<lparr>nd_owned := f\<rparr>" using detach_owner_nodes [of n g i] by blast
  have "set (nd_subscribers (isolate n (node_at ?g2 i))) \<subseteq> set (nd_subscribers (node_at ?g2 i))"
    using set_remove_one_subset [of n "nd_subscribers (node_at ?g2 i)"] by (simp add: isolate_def)
  then show ?thesis using sv ne by (auto simp: node f survives_def)
qed

lemma dispose_reach:
  assumes "reactive_ok g" and "stale_ok g" and n: "n < length (g_nodes g)" "nd_live (node_at g n)"
    and frames: "\<forall>c \<in> set (g_computing g). (n, c) \<notin> (owns g)\<^sup>*" and g': "dispose n g = Some g'"
  shows "reactive_ok g'" and "stale_ok g'"
proof -
  note ok = reactive_okD [OF assms(1)]
  obtain h where h: "dispose n g = Some h" "graph_ok h" "forest_ok h" "length (g_nodes h) = length (g_nodes g)"
    "g_computing h = g_computing g"
    "\<And>i. i < length (g_nodes g) \<Longrightarrow> nd_live (node_at g i) \<Longrightarrow> nd_live (node_at h i) \<longleftrightarrow> (n, i) \<notin> (owns g)\<^sup>*"
    by (rule dispose_spec [OF ok(1,2) n]) blast
  have eq: "h = g'" using h(1) g' by simp
  note keep = dispose_keeps [OF ok(1,2) n g']
  have "c < length (g_nodes g') \<and> nd_live (node_at g' c) \<and> nd_kind (node_at g' c) \<noteq> Signal" if c: "c \<in> set (g_computing g)" for c
  proof -
    have cl: "c < length (g_nodes g)" "nd_live (node_at g c)" "nd_kind (node_at g c) \<noteq> Signal"
      using ok(3) c by (auto simp: frames_ok_def)
    with h(6) [of c] frames c have "nd_live (node_at g' c)" by (simp add: eq)
    with keep [OF cl(1)] cl h(4) show ?thesis by (simp add: eq)
  qed
  then show "reactive_ok g'" using h(2,3,5) by (simp add: reactive_ok_def frames_ok_def eq)
  show "stale_ok g'"
    by (rule stale_shrink [OF assms(2)]) (use h(2,4,5) keep in \<open>auto simp: eq\<close>)
qed

text \<open>A tracked read of a node that is not stale.\<close>

lemma top_frame_snoc: "top_frame g = Some s \<Longrightarrow> \<exists>cs. g_computing g = cs @ [s]"
  unfolding top_frame_def by (metis append_butlast_last_id option.distinct(1) option.inject)

lemma record_fields [simp]:
  "g_computing (record_dependency n g) = g_computing g"
  "length (g_nodes (record_dependency n g)) = length (g_nodes g)"
  "g_queue (record_dependency n g) = g_queue g" "g_flushing (record_dependency n g) = g_flushing g"
  by (cases rule: record_dependency_cases [of n g]; simp add: add_edge_def)+

lemma record_node:
  assumes "reactive_ok g" and "n < length (g_nodes g)"
  shows "\<exists>ss us. node_at (record_dependency n g) i = (node_at g i)\<lparr>nd_sources := ss, nd_subscribers := us\<rparr> \<and>
    (i \<noteq> n \<longrightarrow> us = nd_subscribers (node_at g i)) \<and>
    (i = n \<longrightarrow> set us \<subseteq> insert (last (g_computing g)) (set (nd_subscribers (node_at g n)))) \<and>
    (set us \<subseteq> set (nd_subscribers (node_at g i)) \<or> g_computing g \<noteq> [])"
proof (cases rule: record_dependency_cases [of n g])
  case none
  then have "node_at (record_dependency n g) i =
      (node_at g i)\<lparr>nd_sources := nd_sources (node_at g i), nd_subscribers := nd_subscribers (node_at g i)\<rparr>" by simp
  then show ?thesis by blast
next
  case (edge sub)
  have sub: "sub < length (g_nodes g)" "last (g_computing g) = sub" "g_computing g \<noteq> []"
    using reactive_okD(3) [OF assms(1)] top_frame_mem [OF edge(1)] edge(1)
    by (auto simp: frames_ok_def top_frame_def split: if_splits)
  have node: "node_at (record_dependency n g) i =
      (if i = n then nd_subscribers_update (\<lambda>ss. ss @ [sub]) (node_at g n)
       else if i = sub then nd_sources_update (\<lambda>ss. ss @ [n]) (node_at g sub) else node_at g i)"
    unfolding edge(4) by (rule node_at_add_edge [OF edge(2) sub(1) assms(2)])
  let ?nd = "node_at (record_dependency n g) i"
  have "?nd = (node_at g i)\<lparr>nd_sources := nd_sources ?nd, nd_subscribers := nd_subscribers ?nd\<rparr>"
    unfolding node by simp
  moreover have "i \<noteq> n \<longrightarrow> nd_subscribers ?nd = nd_subscribers (node_at g i)" unfolding node by simp
  moreover have "i = n \<longrightarrow> set (nd_subscribers ?nd) \<subseteq> insert (last (g_computing g)) (set (nd_subscribers (node_at g n)))"
    unfolding node sub(2) by auto
  ultimately show ?thesis using sub(3) by blast
qed

lemma record_same:
  assumes "reactive_ok g" and "n < length (g_nodes g)"
  shows "nd_live (node_at (record_dependency n g) i) = nd_live (node_at g i)"
    "nd_kind (node_at (record_dependency n g) i) = nd_kind (node_at g i)"
    "nd_dirty (node_at (record_dependency n g) i) = nd_dirty (node_at g i)"
    "nd_queued (node_at (record_dependency n g) i) = nd_queued (node_at g i)"
    "nd_content (node_at (record_dependency n g) i) = nd_content (node_at g i)"
    "nd_body (node_at (record_dependency n g) i) = nd_body (node_at g i)"
    "nd_owned (node_at (record_dependency n g) i) = nd_owned (node_at g i)"
    "owns (record_dependency n g) = owns g"
proof -
  note r = record_node [OF assms]
  show "nd_live (node_at (record_dependency n g) i) = nd_live (node_at g i)"
    "nd_kind (node_at (record_dependency n g) i) = nd_kind (node_at g i)"
    "nd_dirty (node_at (record_dependency n g) i) = nd_dirty (node_at g i)"
    "nd_queued (node_at (record_dependency n g) i) = nd_queued (node_at g i)"
    "nd_content (node_at (record_dependency n g) i) = nd_content (node_at g i)"
    "nd_body (node_at (record_dependency n g) i) = nd_body (node_at g i)"
    "nd_owned (node_at (record_dependency n g) i) = nd_owned (node_at g i)"
    using r [of i] by auto
  have "nd_owned (node_at (record_dependency n g) j) = nd_owned (node_at g j)" for j using r [of j] by auto
  then show "owns (record_dependency n g) = owns g" by (simp add: owns_def)
qed

text \<open>After recording, every stale source but the one being read is known to its subscribers.\<close>

lemma record_aware:
  assumes "reactive_ok g" and "stale_ok g" and n: "n < length (g_nodes g)"
    and i: "i < length (g_nodes g)" "is_dirty_computed (node_at (record_dependency n g) i)"
    and s: "s \<in> set (nd_subscribers (node_at (record_dependency n g) i))"
  shows "aware (record_dependency n g) i s \<or> i = n \<and> s \<in> set (g_computing g)"
proof -
  let ?g = "record_dependency n g"
  note same = record_same [OF assms(1) n]
  obtain ss us where node: "node_at ?g i = (node_at g i)\<lparr>nd_sources := ss, nd_subscribers := us\<rparr>"
    "i \<noteq> n \<longrightarrow> us = nd_subscribers (node_at g i)"
    "i = n \<longrightarrow> set us \<subseteq> insert (last (g_computing g)) (set (nd_subscribers (node_at g n)))"
    "set us \<subseteq> set (nd_subscribers (node_at g i)) \<or> g_computing g \<noteq> []"
    using record_node [OF assms(1) n, of i] by blast
  have d: "is_dirty_computed (node_at g i)" using i(2) same by (simp add: is_dirty_computed_def)
  show ?thesis
  proof (cases "s \<in> set (nd_subscribers (node_at g i))")
    case True
    from stale_okD(2) [OF assms(2) i(1) d True] show ?thesis
      by (simp add: aware_def same reached_def split: if_splits)
  next
    case False
    with node s have "i = n" "s = last (g_computing g)" "g_computing g \<noteq> []" by auto
    then show ?thesis by simp
  qed
qed

lemma record_stale:
  assumes "reactive_ok g" and "stale_ok g" and "n < length (g_nodes g)" and "\<not> is_dirty_computed (node_at g n)"
  shows "stale_ok (record_dependency n g)"
  using record_aware [OF assms(1-3)] stale_okD(1) [OF assms(2)] assms(4) record_same(2,3) [OF assms(1,3)]
  unfolding stale_ok_def by (simp add: is_dirty_computed_def) blast

text \<open>Starting a computation; the node may be the stale source its reader just recorded.\<close>

lemma begin_stale:
  assumes ok: "reactive_ok g" and n: "n < length (g_nodes g)" "nd_live (node_at g n)" "n \<notin> set (g_computing g)"
    and d: "distinct (g_computing g)"
    and know: "\<And>i s. \<lbrakk>i < length (g_nodes g); is_dirty_computed (node_at g i); s \<in> set (nd_subscribers (node_at g i)); s \<noteq> n\<rbrakk>
      \<Longrightarrow> aware g i s \<or> i = n \<and> s \<in> set (g_computing g)"
    and g': "begin_compute n g = Some (b, g')" "reactive_ok g'"
  shows "stale_ok g'"
proof -
  let ?g = "dispose_owned n g"
  note gok = reactive_okD [OF ok]
  note torn = dispose_owned_torn(3,4) [OF gok(1,2) n(1)]
  have len: "length (g_nodes ?g) = length (g_nodes g)" and comp: "g_computing ?g = g_computing g"
    and surv: "\<And>i. i < length (g_nodes g) \<Longrightarrow> nd_live (node_at ?g i) \<Longrightarrow> survives (node_at g i) (node_at ?g i)"
    using torn(1) by (simp_all add: torn_down_def)
  have nl: "n < length (g_nodes ?g)" using n(1) len by simp
  note nodes = sever_sources_nodes [OF torn(2) nl]
  have eq: "g' = (sever_sources n ?g)\<lparr>g_computing := g_computing g @ [n]\<rparr>"
    using g'(1) comp by (auto simp: begin_compute_def Let_def)
  have comp': "g_computing g' = g_computing g @ [n]" and len': "length (g_nodes g') = length (g_nodes g)"
    by (simp_all add: eq nodes len)
  have node': "nd_kind (node_at g' i) = nd_kind (node_at ?g i)" "nd_dirty (node_at g' i) = nd_dirty (node_at ?g i)"
    "nd_queued (node_at g' i) = nd_queued (node_at ?g i)" "nd_live (node_at g' i) = nd_live (node_at ?g i)"
    "set (nd_subscribers (node_at g' i)) \<subseteq> set (nd_subscribers (node_at ?g i))" for i
    using set_remove_one_subset [of n "nd_subscribers (node_at ?g i)"] by (auto simp: eq nodes)
  have src: "nd_sources (node_at g' n) = []" by (simp add: eq nodes)
  show ?thesis
    unfolding stale_ok_def
  proof (intro conjI allI impI ballI)
    show "distinct (g_computing g')" using d n(3) by (simp add: comp')
    fix i s assume i: "i < length (g_nodes g')" and dirty: "is_dirty_computed (node_at g' i)"
      and s: "s \<in> set (nd_subscribers (node_at g' i))"
    note sl = subscriber_live [OF reactive_okD(1) [OF g'(2)] i s]
    have ne: "s \<noteq> n" using sl(4) src by auto
    have il: "nd_live (node_at ?g i)"
      using graph_okD(1) [OF reactive_okD(1) [OF g'(2)] i] dirty node'(4) by (auto simp: node_ok_def is_dirty_computed_def)
    have sur: "survives (node_at g i) (node_at ?g i)" "survives (node_at g s) (node_at ?g s)"
      using surv i il sl(1,2) node'(4) len' by auto
    have "is_dirty_computed (node_at g i)" "s \<in> set (nd_subscribers (node_at g i))"
      using dirty s node'(1,2,5) [of i] sur(1) by (auto simp: is_dirty_computed_def survives_def)
    with know [of i s] i ne len' have "aware g i s \<or> i = n \<and> s \<in> set (g_computing g)" by simp
    then show "aware g' i s"
    proof
      assume "i = n \<and> s \<in> set (g_computing g)"
      then show ?thesis using nested_in_top [of s "g_computing g" n] by (simp add: aware_def comp')
    next
      assume "aware g i s"
      then show ?thesis
        using sur(2) ne nested_in_snoc [of "g_computing g" s i n] sl(2) [unfolded node']
        by (auto simp: aware_def comp' node' reached_def survives_def split: if_splits)
    qed
  qed
qed

lemma end_stale:
  assumes "stale_ok g" and n: "n < length (g_nodes g)" "nd_live (node_at g n)" and top: "top_frame g = Some n"
  shows "stale_ok (end_compute n r g)"
proof -
  let ?g = "end_compute n r g"
  note f = end_compute_fields [OF n(1), of r]
  from top_frame_snoc [OF top] obtain cs where cs: "g_computing g = cs @ [n]" by blast
  have d: "distinct (cs @ [n])" using stale_okD(1) [OF assms(1)] cs by simp
  show ?thesis
    unfolding stale_ok_def
  proof (intro conjI allI impI ballI)
    show "distinct (g_computing ?g)" using d by (simp add: f cs)
    fix i s assume i: "i < length (g_nodes ?g)" and dirty: "is_dirty_computed (node_at ?g i)"
      and s: "s \<in> set (nd_subscribers (node_at ?g i))"
    from dirty have ne: "i \<noteq> n" by (auto simp: f)
    with i dirty s have aw: "aware g i s" using stale_okD(2) [OF assms(1), of i s] by (simp add: f)
    show "aware ?g i s"
    proof (cases "s = n")
      case True
      then have "nd_kind (node_at g n) = Effect \<and> nd_queued (node_at g n)"
        using aw not_nested_last [OF d, of i] by (simp add: aware_def cs)
      then show ?thesis using True d n(2) by (simp add: aware_def f cs reached_def)
    next
      case False
      then show ?thesis using aw nested_in_pop [of cs n s i] ne by (auto simp: aware_def f cs split: if_splits)
    qed
  qed
qed

text \<open>A write, with no computed body running.\<close>

definition no_computed_frame :: "'v inner \<Rightarrow> bool" where
  "no_computed_frame g = (\<forall>c \<in> set (g_computing g). nd_kind (node_at g c) \<noteq> Computed)"

lemma touch_stale:
  assumes "reactive_ok g" and "stale_ok g" and n: "n < length (g_nodes g)" and pure: "no_computed_frame g"
    and g': "touch n g = Some g'"
  shows "reactive_ok g'" and "stale_ok g'" and "marked g g'"
proof -
  from touch_outcome [OF assms(1) n] g'
  show ok': "reactive_ok g'" and m: "marked g g'"
    by auto
  from touch_outcome [OF assms(1) n] g'
  have nodes: "node_at g' i = (if dirtied g n i then flagged (node_at g i) else node_at g i)" for i by auto
  note ok = reactive_okD [OF assms(1)]
  have comp: "g_computing g' = g_computing g" and len: "length (g_nodes g') = length (g_nodes g)"
    using m by (simp_all add: marked_def)
  show "stale_ok g'"
    unfolding stale_ok_def comp len
  proof (intro conjI allI impI ballI)
    show "distinct (g_computing g)" by (rule stale_okD(1) [OF assms(2)])
    fix i s assume i: "i < length (g_nodes g)" and dirty: "is_dirty_computed (node_at g' i)"
      and s': "s \<in> set (nd_subscribers (node_at g' i))"
    then have s: "s \<in> set (nd_subscribers (node_at g i))" by (simp add: marked_same(4) [OF m i])
    note sl = subscriber_live [OF ok(1) i s]
    show "aware g' i s"
    proof (cases "is_dirty_computed (node_at g i)")
      case True
      from stale_okD(2) [OF assms(2) i True s] show ?thesis
        using marked_reached [OF m sl(1)] markedD(3) [OF m sl(1)] marked_same(1) [OF m sl(1)]
        by (auto simp: aware_def comp split: if_splits)
    next
      case False
      with dirty have "dirtied g n i" "clean_computed (node_at g i)"
        by (auto simp: nodes is_dirty_computed_def clean_computed_def flagged_def split: if_splits)
      then have "dirtied g n s" using s by (rule dirtied.through)
      then have fs: "node_at g' s = flagged (node_at g s)" by (simp add: nodes)
      have "nd_kind (node_at g s) = Effect" if "s \<in> set (g_computing g)"
        using that pure sl(3) by (cases "nd_kind (node_at g s)") (auto simp: no_computed_frame_def)
      then show ?thesis using sl(2) by (simp add: aware_def comp fs)
    qed
  qed
qed

lemma stale_cong:
  assumes "g_computing g' = g_computing g" and "length (g_nodes g') = length (g_nodes g)"
    and same: "\<And>i. nd_kind (node_at g' i) = nd_kind (node_at g i)" "\<And>i. nd_live (node_at g' i) = nd_live (node_at g i)"
      "\<And>i. nd_dirty (node_at g' i) = nd_dirty (node_at g i)" "\<And>i. nd_queued (node_at g' i) = nd_queued (node_at g i)"
      "\<And>i. nd_subscribers (node_at g' i) = nd_subscribers (node_at g i)"
  shows "stale_ok g' = stale_ok g"
proof -
  have "reached (node_at g' i) = reached (node_at g i)" for i by (simp add: reached_def same)
  then have "aware g' i s = aware g i s" for i s by (simp add: aware_def assms)
  then show ?thesis by (simp add: stale_ok_def is_dirty_computed_def assms)
qed

lemma set_content_stale: "stale_ok (upd n (nd_content_update (\<lambda>_. Some v)) g) = stale_ok g"
  by (rule stale_cong) (simp_all add: node_at_upd)

text \<open>A new node has no edges, and its slot had none.\<close>

lemma created_stale:
  assumes "reactive_ok g" and "stale_ok g" and nd: "fresh_node nd"
    and alloc: "alloc nd (g\<lparr>g_dirty_computeds := x\<rparr>) = (i, g2)"
  shows "stale_ok g2" and "stale_ok (adopt i g2)"
proof -
  note ok = reactive_okD [OF assms(1)]
  obtain j g1 where ag: "alloc nd g = (j, g1)" by force
  with alloc have g2: "i = j" "g2 = g1\<lparr>g_dirty_computeds := x\<rparr>" by (simp_all add: alloc_dirty_count)
  from alloc_allocated [OF ok(1) ag] g2(1) have a: "allocated nd g i g1" by simp
  note A = allocatedD [OF a]
  have node: "node_at g2 j = (if j = i then nd else node_at g j)" if "j < length (g_nodes g2)" for j
    using A(3) that by (simp add: g2(2))
  have nd0: "nd_subscribers nd = []" using nd by (simp add: fresh_node_def)
  have aware: "aware g2 k s" if k: "k < length (g_nodes g2)" "is_dirty_computed (node_at g2 k)"
    "s \<in> set (nd_subscribers (node_at g2 k))" for k s
  proof -
    have ki: "k \<noteq> i" using k nd0 node by auto
    have kg: "k < length (g_nodes g)" using A(4) [of k] ki k(1) by (simp add: g2(2))
    have dk: "is_dirty_computed (node_at g k)" "s \<in> set (nd_subscribers (node_at g k))" using k node ki by simp_all
    then have "aware g k s" using stale_okD(2) [OF assms(2) kg] by blast
    moreover have "s \<noteq> i" using slot_isolated(2) [OF ok(1) a kg] dk(2) by auto
    moreover have "s < length (g_nodes g2)" using subscriber_live(1) [OF ok(1) kg dk(2)] A(2) by (simp add: g2(2))
    ultimately show ?thesis using node [of s] A(8) by (simp add: aware_def g2(2))
  qed
  have d: "distinct (g_computing g2)" using stale_okD(1) [OF assms(2)] A(8) by (simp add: g2(2))
  from aware d show st: "stale_ok g2" by (simp add: stale_ok_def)
  have "nd_dirty (node_at (adopt i g2) k) = nd_dirty (node_at g2 k)" "nd_queued (node_at (adopt i g2) k) = nd_queued (node_at g2 k)" for k
    by (simp_all add: adopt_def node_at_upd split: option.split)
  with st show "stale_ok (adopt i g2)"
    by (subst stale_cong [of "adopt i g2" g2]) (simp_all add: adopt_nodes)
qed

lemma enqueue_stale [simp]: "stale_ok (g\<lparr>g_queue := q\<rparr>) = stale_ok g"
  by (rule stale_cong) simp_all

lemma creation_stale:
  assumes "reactive_ok g" and "stale_ok g"
  shows "signal v g = (i, g') \<Longrightarrow> stale_ok g'" "signal_root v g = (i, g') \<Longrightarrow> stale_ok g'"
    "computed b m g = (i, g') \<Longrightarrow> stale_ok g'" "effect b g = (i, g') \<Longrightarrow> stale_ok g'"
proof -
  note c = created_stale [OF assms]
  show "signal v g = (i, g') \<Longrightarrow> stale_ok g'" "signal_root v g = (i, g') \<Longrightarrow> stale_ok g'"
    using c [OF fresh_nodes(1), where x = "g_dirty_computeds g"]
    by (auto simp: signal_def signal_root_def Let_def split: prod.splits)
  show "computed b m g = (i, g') \<Longrightarrow> stale_ok g'"
    using c [OF fresh_nodes(2), where x = "g_dirty_computeds g + 1"]
    by (auto simp: computed_def Let_def split: prod.splits)
  show "effect b g = (i, g') \<Longrightarrow> stale_ok g'"
    using c [OF fresh_nodes(3), where x = "g_dirty_computeds g"]
    by (auto simp: effect_def Let_def split: prod.splits)
qed

section \<open>The step relation\<close>

text \<open>
  One atomic action on the graph. A body runs between the step that begins it and the step that
  finishes it, and may take any steps in between, so the relation has every interleaving. The guards
  are what the callers guarantee: ids handed in are live (the \<open>debug_assert\<close>s), a node is not disposed
  or rerun while a body inside its owner subtree is running, a running node is not started again, and
  writes happen outside computed bodies.
\<close>

inductive gstep :: "'v inner \<Rightarrow> 'v inner \<Rightarrow> bool" where
  st_signal: "signal v g = (i, g') \<Longrightarrow> gstep g g'"
| st_signal_root: "signal_root v g = (i, g') \<Longrightarrow> gstep g g'"
| st_computed: "computed b m g = (i, g') \<Longrightarrow> gstep g g'"
| st_effect: "effect b g = (i, g') \<Longrightarrow> gstep g g'"
| st_set: "\<lbrakk>n < length (g_nodes g); nd_live (node_at g n); nd_kind (node_at g n) = Signal; no_computed_frame g;
     set_signal n v g = Some g'\<rbrakk> \<Longrightarrow> gstep g g'"
| st_touch: "\<lbrakk>n < length (g_nodes g); nd_live (node_at g n); no_computed_frame g; touch n g = Some g'\<rbrakk> \<Longrightarrow> gstep g g'"
| st_read: "\<lbrakk>n < length (g_nodes g); nd_live (node_at g n); \<not> is_dirty_computed (node_at g n)\<rbrakk> \<Longrightarrow>
     gstep g (record_dependency n g)"
| st_begin_read: "\<lbrakk>n < length (g_nodes g); nd_live (node_at g n); is_dirty_computed (node_at g n); frame_free n g;
     n \<notin> set (g_computing g); begin_compute n (record_dependency n g) = Some (b, g')\<rbrakk> \<Longrightarrow> gstep g g'"
| st_begin_effect: "\<lbrakk>n < length (g_nodes g); nd_live (node_at g n); nd_kind (node_at g n) = Effect; frame_free n g;
     n \<notin> set (g_computing g); begin_compute n (upd n (nd_queued_update (\<lambda>_. False)) g) = Some (b, g')\<rbrakk> \<Longrightarrow> gstep g g'"
| st_end: "\<lbrakk>top_frame g = Some n; nd_kind (node_at g n) = Computed \<Longrightarrow> r \<noteq> None\<rbrakk> \<Longrightarrow> gstep g (end_compute n r g)"
| st_dispose: "\<lbrakk>n < length (g_nodes g); nd_live (node_at g n); \<forall>c \<in> set (g_computing g). (n, c) \<notin> (owns g)\<^sup>*;
     dispose n g = Some g'\<rbrakk> \<Longrightarrow> gstep g g'"
| st_drain: "gstep g (g\<lparr>g_queue := []\<rparr>)"
| st_reclaimed: "drain_reclaimed g = (vs, g') \<Longrightarrow> gstep g g'"
| st_changed: "drain_changed g = (ns, g') \<Longrightarrow> gstep g g'"
| st_observed: "gstep g (set_observed on g)"
| st_clear: "gstep g (clear g)"

inductive reachable :: "'v inner \<Rightarrow> bool" where
  start: "reachable graph_new"
| step: "reachable g \<Longrightarrow> gstep g g' \<Longrightarrow> reachable g'"

lemma empty_graph:
  assumes "g_nodes g = []" and "g_free g = []" and "g_computing g = []" and "g_queue g = []" and "g_dirty_computeds g = 0"
  shows "reactive_ok g" and "stale_ok g"
proof -
  have "graph_ok g" using assms by (simp add: graph_ok_def Let_def symmetric_def dirty_set_def)
  moreover have "owns g = {}" using assms by (simp add: owns_def)
  then have "forest_ok g" using assms(1) by (simp add: forest_ok_def acyclic_def)
  ultimately show "reactive_ok g" using assms by (simp add: reactive_ok_def frames_ok_def)
  show "stale_ok g" using assms by (simp add: stale_ok_def)
qed

lemma unqueue_ok:
  assumes "reactive_ok g" and n: "n < length (g_nodes g)" "nd_live (node_at g n)" "nd_kind (node_at g n) = Effect"
  shows "reactive_ok (upd n (nd_queued_update (\<lambda>_. False)) g)" (is "reactive_ok ?g")
proof -
  let ?n = "length (g_nodes g)"
  note ok = reactive_okD [OF assms(1)]
  have eq: "?g = upd n (\<lambda>nd. nd\<lparr>nd_dirty := nd_dirty (node_at g n), nd_queued := False\<rparr>) g"
    by (simp add: upd_def node_at_def)
  have "is_dirty_computed (node_at ?g i) = is_dirty_computed (node_at g i)" for i
    by (simp add: node_at_upd is_dirty_computed_def)
  then have "dirty_set ?n (node_at ?g) = dirty_set ?n (node_at g)" by (simp add: dirty_set_def)
  then have "graph_ok (?g\<lparr>g_dirty_computeds := g_dirty_computeds ?g\<rparr>)"
    using graph_okD(5) [OF ok(1)] n(3) unfolding eq by (intro flag_update_ok [OF ok(1) n(1,2)]) simp_all
  then have "graph_ok ?g" by (simp only: dirty_count_same)
  moreover have "forest_ok ?g"
    using ok(2) by (intro forest_ok_cong(2) [of ?g g]) (simp_all add: node_at_upd)
  moreover have "frames_ok ?g" using ok(3) by (auto simp: frames_ok_def node_at_upd)
  ultimately show ?thesis by (simp add: reactive_ok_def)
qed

lemma scratch_irrelevant:
  assumes "g_nodes g' = g_nodes g" and "g_free g' = g_free g" and "g_computing g' = g_computing g"
    and "g_dirty_computeds g' = g_dirty_computeds g" and "set (g_queue g') \<subseteq> set (g_queue g)"
  shows "reactive_ok g \<Longrightarrow> reactive_ok g'" and "stale_ok g \<Longrightarrow> stale_ok g'"
proof -
  have node: "node_at g' = node_at g" using assms(1) by (simp add: node_at_def fun_eq_iff)
  show "stale_ok g \<Longrightarrow> stale_ok g'" using stale_cong [of g' g] assms node by simp
  assume ok: "reactive_ok g"
  have "graph_ok g'" using reactive_okD(1) [OF ok] assms node by (auto simp: graph_ok_def Let_def)
  moreover have "forest_ok g'" using reactive_okD(2) [OF ok] assms node by (intro forest_ok_cong(2) [of g' g]) simp_all
  moreover have "frames_ok g'" using reactive_okD(3) [OF ok] assms node by (simp add: frames_ok_def)
  ultimately show "reactive_ok g'" by (simp add: reactive_ok_def)
qed

lemma begin_read_step:
  assumes ok: "reactive_ok g" and st: "stale_ok g"
    and n: "n < length (g_nodes g)" "nd_live (node_at g n)" "is_dirty_computed (node_at g n)" "frame_free n g"
      "n \<notin> set (g_computing g)"
    and g': "begin_compute n (record_dependency n g) = Some (b, g')"
  shows "reactive_ok g' \<and> stale_ok g'"
proof -
  let ?h = "record_dependency n g"
  have h: "reactive_ok ?h" using record_dependency_ok [OF ok] n(1,2) by blast
  note same = record_same [OF ok n(1)]
  have "nd_kind (node_at ?h n) \<noteq> Signal" using n(3) same by (simp add: is_dirty_computed_def)
  moreover have "frame_free n ?h" using n(4) by (simp add: frame_free_def same)
  ultimately have ok': "reactive_ok g'"
    using begin_compute_ok [OF h, of n] n(1,2) g' same by auto
  have "stale_ok g'"
  proof (rule begin_stale [OF h _ _ _ _ _ g' ok'])
    show "n < length (g_nodes ?h)" "nd_live (node_at ?h n)" "n \<notin> set (g_computing ?h)"
      using n(1,2,5) same by simp_all
    show "distinct (g_computing ?h)" using stale_okD(1) [OF st] by simp
    fix i s assume "i < length (g_nodes ?h)" "is_dirty_computed (node_at ?h i)" "s \<in> set (nd_subscribers (node_at ?h i))"
    then show "aware ?h i s \<or> i = n \<and> s \<in> set (g_computing ?h)"
      using record_aware [OF ok st n(1), of i s] by simp
  qed
  with ok' show ?thesis ..
qed

lemma begin_effect_step:
  assumes ok: "reactive_ok g" and st: "stale_ok g"
    and n: "n < length (g_nodes g)" "nd_live (node_at g n)" "nd_kind (node_at g n) = Effect" "frame_free n g"
      "n \<notin> set (g_computing g)"
    and g': "begin_compute n (upd n (nd_queued_update (\<lambda>_. False)) g) = Some (b, g')"
  shows "reactive_ok g' \<and> stale_ok g'"
proof -
  let ?h = "upd n (nd_queued_update (\<lambda>_. False)) g"
  have h: "reactive_ok ?h" using unqueue_ok [OF ok] n(1-3) by blast
  have "owns ?h = owns g" by (auto simp: owns_def node_at_upd split: if_splits)
  then have "frame_free n ?h" using n(4) by (simp add: frame_free_def)
  then have ok': "reactive_ok g'"
    using begin_compute_ok [OF h, of n] n(1-3) g' by (auto simp: node_at_upd)
  have "stale_ok g'"
  proof (rule begin_stale [OF h _ _ _ _ _ g' ok'])
    show "n < length (g_nodes ?h)" "nd_live (node_at ?h n)" "n \<notin> set (g_computing ?h)"
      using n(1,2,5) by (simp_all add: node_at_upd)
    show "distinct (g_computing ?h)" using stale_okD(1) [OF st] by simp
    fix i s assume sub: "i < length (g_nodes ?h)" "is_dirty_computed (node_at ?h i)" "s \<in> set (nd_subscribers (node_at ?h i))" "s \<noteq> n"
    then have "aware g i s" using stale_okD(2) [OF st, of i s] by (auto simp: node_at_upd is_dirty_computed_def split: if_splits)
    then show "aware ?h i s \<or> i = n \<and> s \<in> set (g_computing ?h)" using sub(4) by (simp add: aware_def node_at_upd)
  qed
  with ok' show ?thesis ..
qed

lemma gstep_ok:
  assumes "gstep g g'" and "reactive_ok g" and "stale_ok g"
  shows "reactive_ok g' \<and> stale_ok g'"
  using assms
proof (cases rule: gstep.cases)
  case (st_set n v)
  let ?h = "upd n (nd_content_update (\<lambda>_. Some v)) g"
  have "reactive_ok ?h" "stale_ok ?h" using st_set assms(2,3) by (simp_all add: set_content_ok set_content_stale)
  moreover have "no_computed_frame ?h" using st_set(4) by (simp add: no_computed_frame_def node_at_upd)
  moreover have "touch n ?h = Some g'" using st_set(1,5) by (simp add: set_is_touch)
  ultimately show ?thesis using touch_stale(1,2) [of ?h n g'] st_set(1) by simp
next
  case (st_touch n)
  then show ?thesis using touch_stale(1,2) [OF assms(2,3)] by blast
next
  case (st_read n)
  then show ?thesis using record_dependency_ok [OF assms(2)] record_stale [OF assms(2,3)] by blast
next
  case (st_begin_read n b)
  then show ?thesis by (intro begin_read_step [OF assms(2,3)])
next
  case (st_begin_effect n b)
  then show ?thesis by (intro begin_effect_step [OF assms(2,3)])
next
  case (st_end n r)
  have "n < length (g_nodes g)" "nd_live (node_at g n)"
    using reactive_okD(3) [OF assms(2)] top_frame_mem [OF st_end(2)] by (auto simp: frames_ok_def)
  then show ?thesis using end_compute_ok [OF assms(2)] end_stale [OF assms(3)] st_end by blast
next
  case (st_dispose n)
  then show ?thesis using dispose_reach [OF assms(2,3)] by blast
next
  case st_clear
  then show ?thesis using empty_graph [of g'] by (simp add: clear_def)
next
  case (st_signal v i)
  then show ?thesis by (intro conjI signal_ok(1) [OF assms(2)] creation_stale(1) [OF assms(2,3)])
next
  case (st_signal_root v i)
  then show ?thesis by (intro conjI signal_ok(2) [OF assms(2)] creation_stale(2) [OF assms(2,3)])
next
  case (st_computed b m i)
  then show ?thesis by (intro conjI computed_ok [OF assms(2)] creation_stale(3) [OF assms(2,3)])
next
  case (st_effect b i)
  then show ?thesis by (intro conjI effect_ok [OF assms(2)] creation_stale(4) [OF assms(2,3)])
qed (use scratch_irrelevant [of g' g] assms(2,3) in
      \<open>auto simp: drain_reclaimed_def drain_changed_def set_observed_def Let_def\<close>)

lemma reachable_ok: "reachable g \<Longrightarrow> reactive_ok g \<and> stale_ok g"
proof (induction rule: reachable.induct)
  case start
  then show ?case using empty_graph [of graph_new] by (simp add: graph_new_def)
next
  case (step g g')
  then show ?case using gstep_ok by blast
qed


text \<open>The sources a memo was computed from, directly and through other memos.\<close>

definition memo_reads :: "'v inner \<Rightarrow> (node_id \<times> node_id) set" where
  "memo_reads g = {(i, j). i < length (g_nodes g) \<and> nd_kind (node_at g i) = Computed \<and> j \<in> set (nd_sources (node_at g i))}"

lemma fresh_sources:
  assumes "reactive_ok g" and "stale_ok g" and "g_computing g = []" and "i < length (g_nodes g)"
    and "\<not> is_dirty_computed (node_at g i)" and "(i, j) \<in> (memo_reads g)\<^sup>*"
  shows "\<not> is_dirty_computed (node_at g j)"
  using assms(6)
proof (induction rule: rtrancl_induct)
  case base
  then show ?case by (rule assms(5))
next
  case (step j k)
  note ok = reactive_okD(1) [OF assms(1)]
  from step.hyps(2) have k: "j < length (g_nodes g)" "nd_kind (node_at g j) = Computed" "k \<in> set (nd_sources (node_at g j))"
    by (simp_all add: memo_reads_def)
  then have kl: "k < length (g_nodes g)" using node_ok_edges(4) [OF graph_okD(1) [OF ok k(1)]] by auto
  have sub: "j \<in> set (nd_subscribers (node_at g k))" using graph_okD(2) [OF ok] k kl by (simp add: symmetric_def)
  show ?case
    using stale_okD(2) [OF assms(2) kl _ sub] step.IH k(2) assms(3)
    by (auto simp: aware_def reached_def is_dirty_computed_def)
qed


end
