(* ===== verification/Reactive_Run.thy ===== *)
theory Reactive_Run
  imports Reactive_Reach
begin

text \<open>
  The operations of the reactive graph that run bodies: \<open>read\<close>, \<open>peek\<close>, \<open>flush\<close> and \<open>run_pending\<close>. The
  backend's closure-invocation seam \<open>run\<close> is a parameter: a function of the body, the graph and the
  backend's own state. A body that panics, unwinds or never returns is \<open>None\<close>.
\<close>

section \<open>Reading\<close>

type_synonym ('v, 's) runner = "'v \<Rightarrow> 'v inner \<times> 's \<Rightarrow> ('v \<times> 'v inner \<times> 's) option"

text \<open>Phases 1 to 3 of a computation: begin, run the body, finish. \<open>None\<close> also covers the panic of an
  index out of range, after a body that cleared the graph.\<close>

definition compute :: "('v, 's) runner \<Rightarrow> ('v \<Rightarrow> 'v option) \<Rightarrow> node_id \<Rightarrow> 'v inner \<Rightarrow> 's \<Rightarrow> ('v \<times> 'v inner \<times> 's) option" where
  "compute run keep n g s =
     (case begin_compute n g of
        None \<Rightarrow> None
      | Some (body, g1) \<Rightarrow>
          (case run body (g1, s) of
             None \<Rightarrow> None
           | Some (r, g2, s') \<Rightarrow>
               if n \<ge> length (g_nodes g2) then None else Some (r, end_compute n (keep r) g2, s')))"

definition read :: "('v, 's) runner \<Rightarrow> node_id \<Rightarrow> 'v inner \<Rightarrow> 's \<Rightarrow> ('v \<times> 'v inner \<times> 's) option" where
  "read run n g s =
     (if n \<ge> length (g_nodes g) then None
      else
        let g1 = record_dependency n g; nd = node_at g1 n in
        if nd_kind nd = Computed \<and> nd_dirty nd then compute run Some n g1 s
        else map_option (\<lambda>v. (v, g1, s)) (nd_content nd))"

definition peek :: "('v, 's) runner \<Rightarrow> node_id \<Rightarrow> 'v inner \<Rightarrow> 's \<Rightarrow> ('v \<times> 'v inner \<times> 's) option" where
  "peek run n g s =
     (if n \<ge> length (g_nodes g) then None
      else if is_dirty_computed (node_at g n) then read run n g s
      else map_option (\<lambda>v. (v, g, s)) (nd_content (node_at g n)))"

section \<open>Flushing\<close>

definition max_flush_steps :: nat where
  "max_flush_steps = 10000"

text \<open>How a flush ended: \<open>Ok(())\<close> or \<open>Err(FlushOverflow)\<close>.\<close>

datatype flush_result = FlushOk | FlushOverflow

text \<open>The \<open>for\<close> loop of one round: the result if it returned early, the steps so far, the state.\<close>

fun flush_round :: "('v, 's) runner \<Rightarrow> node_id list \<Rightarrow> nat \<Rightarrow> 'v inner \<times> 's
    \<Rightarrow> (flush_result option \<times> nat \<times> 'v inner \<times> 's) option" where
  "flush_round run [] steps st = Some (None, steps, st)"
| "flush_round run (e # es) steps (g, s) =
     (if e \<ge> length (g_nodes g) then None
      else if \<not> nd_live (node_at g e) \<or> nd_kind (node_at g e) \<noteq> Effect then flush_round run es steps (g, s)
      else
        (case compute run (\<lambda>_. None) e (upd e (nd_queued_update (\<lambda>_. False)) g) s of
           None \<Rightarrow> None
         | Some (_, g', s') \<Rightarrow>
             if steps + 1 > max_flush_steps then Some (Some FlushOverflow, steps + 1, g', s')
             else flush_round run es (steps + 1) (g', s')))"

definition start_round :: "'v inner \<Rightarrow> 'v inner" where
  "start_round g = g\<lparr>g_round_scratch := [], g_queue := []\<rparr>"

lemma flush_round_steps:
  "flush_round run es steps st = Some (res, steps', st') \<Longrightarrow>
   (steps' = steps \<and> st' = st \<and> res = None) \<or> (steps < steps' \<and> (res = None \<longrightarrow> steps' \<le> max_flush_steps))"
  by (induction run es steps st rule: flush_round.induct) (force split: if_splits option.splits prod.splits)+

function flush_loop :: "('v, 's) runner \<Rightarrow> nat \<Rightarrow> 'v inner \<times> 's \<Rightarrow> (flush_result \<times> nat \<times> 'v inner \<times> 's) option" where
  "flush_loop run steps (g, s) =
     (if g_queue g = [] then Some (FlushOk, steps, g, s)
      else
        let round = sort (g_queue g) in
        (case flush_round run round steps (start_round g, s) of
           None \<Rightarrow> None
         | Some (Some res, steps', st) \<Rightarrow> Some (res, steps', st)
         | Some (None, steps', g', s') \<Rightarrow> flush_loop run steps' (g'\<lparr>g_round_scratch := round\<rparr>, s')))"
  by pat_completeness auto
termination
proof (relation "inv_image (less_than <*lex*> less_than)
    (\<lambda>(run, steps, g, s). (max_flush_steps + 1 - steps, length (g_queue g)))")
  fix run :: "('v, 's) runner" and steps steps' g s rnd p res q st g' s'
  assume q: "g_queue g \<noteq> []" and r: "rnd = sort (g_queue g)"
    and f: "flush_round run rnd steps (start_round g, s) = Some p" "(res, q) = p" "res = None" "(steps', st) = q" "(g', s') = st"
  from flush_round_steps [of run rnd steps "(start_round g, s)" None steps' "(g', s')"] f
  have "(steps' = steps \<and> g' = start_round g) \<or> (steps < steps' \<and> steps' \<le> max_flush_steps)" by auto
  then show "((run, steps', g'\<lparr>g_round_scratch := rnd\<rparr>, s'), run, steps, g, s) \<in> inv_image (less_than <*lex*> less_than)
    (\<lambda>(run, steps, g, s). (max_flush_steps + 1 - steps, length (g_queue g)))"
    using q by (auto simp: start_round_def)
qed (intro wf_inv_image wf_lex_prod wf_less_than)

declare flush_loop.simps [simp del]

text \<open>\<open>flush\<close>, with the number of bodies it ran. The flag is set for the whole loop and cleared after it.\<close>

definition flush :: "('v, 's) runner \<Rightarrow> 'v inner \<Rightarrow> 's \<Rightarrow> (flush_result \<times> nat \<times> 'v inner \<times> 's) option" where
  "flush run g s =
     map_option (\<lambda>(res, steps, g', s'). (res, steps, g'\<lparr>g_flushing := False\<rparr>, s'))
       (flush_loop run 0 (g\<lparr>g_flushing := True\<rparr>, s))"

definition run_pending :: "('v, 's) runner \<Rightarrow> 'v inner \<Rightarrow> 's \<Rightarrow> (flush_result \<times> nat \<times> 'v inner \<times> 's) option" where
  "run_pending run g s = flush run g s"

definition is_flushing :: "'v inner \<Rightarrow> bool" where
  "is_flushing g = g_flushing g"

section \<open>What a backend has to respect\<close>

definition sound :: "'v inner \<Rightarrow> bool" where
  "sound g = (reactive_ok g \<and> stale_ok g)"

text \<open>
  A disciplined runner returns, acts on the graph only by its operations, leaves the computing stack
  as it found it, with the running nodes still there, and does not clear the graph under the flush.
\<close>

definition disciplined :: "('v, 's) runner \<Rightarrow> bool" where
  "disciplined run =
     (\<forall>body g s. sound g \<longrightarrow>
        (\<exists>r g' s'. run body (g, s) = Some (r, g', s') \<and> gstep\<^sup>*\<^sup>* g g' \<and> g_computing g' = g_computing g \<and>
           length (g_nodes g) \<le> length (g_nodes g') \<and>
           (\<forall>c \<in> set (g_computing g). nd_kind (node_at g' c) = nd_kind (node_at g c))))"

lemma steps_sound: "gstep\<^sup>*\<^sup>* g g' \<Longrightarrow> sound g \<Longrightarrow> sound g'"
  by (induction rule: rtranclp_induct) (auto simp: sound_def dest: gstep_ok)

lemma disciplinedD:
  assumes "disciplined run" and "sound g"
  obtains r g' s' where "run body (g, s) = Some (r, g', s')" and "sound g'" and "g_computing g' = g_computing g"
    and "length (g_nodes g) \<le> length (g_nodes g')"
    and "\<And>c. c \<in> set (g_computing g) \<Longrightarrow>
      c < length (g_nodes g') \<and> nd_live (node_at g' c) \<and> nd_kind (node_at g' c) = nd_kind (node_at g c)"
proof -
  from assms obtain r g' s' where run: "run body (g, s) = Some (r, g', s')" "gstep\<^sup>*\<^sup>* g g'" "g_computing g' = g_computing g"
    "length (g_nodes g) \<le> length (g_nodes g')" "\<forall>c \<in> set (g_computing g). nd_kind (node_at g' c) = nd_kind (node_at g c)"
    unfolding disciplined_def by meson
  from steps_sound [OF run(2) assms(2)] have ok: "sound g'" .
  with run(3) have "c < length (g_nodes g') \<and> nd_live (node_at g' c)" if "c \<in> set (g_computing g)" for c
    using that by (auto simp: sound_def reactive_ok_def frames_ok_def)
  with that [OF run(1) ok run(3,4)] run(5) show thesis by blast
qed

text \<open>From the graph in which a node's computation has just begun to the one in which it has finished.\<close>

lemma run_and_finish:
  assumes "disciplined run" and "sound g1" and "g_computing g1 = cs @ [n]"
    and keep: "nd_kind (node_at g1 n) = Computed \<Longrightarrow> \<forall>v. keep v \<noteq> None"
  shows "\<exists>r g2 s'. run body (g1, s) = Some (r, g2, s') \<and> n < length (g_nodes g2) \<and>
    nd_kind (node_at g2 n) = nd_kind (node_at g1 n) \<and> nd_live (node_at g2 n) \<and>
    sound (end_compute n (keep r) g2) \<and> g_computing (end_compute n (keep r) g2) = cs \<and>
    length (g_nodes g1) \<le> length (g_nodes (end_compute n (keep r) g2))"
proof (rule disciplinedD [OF assms(1,2), of body s])
  fix r g2 s'
  assume g2: "run body (g1, s) = Some (r, g2, s')" "sound g2" "g_computing g2 = g_computing g1"
      "length (g_nodes g1) \<le> length (g_nodes g2)"
    and frames: "\<And>c. c \<in> set (g_computing g1) \<Longrightarrow>
      c < length (g_nodes g2) \<and> nd_live (node_at g2 c) \<and> nd_kind (node_at g2 c) = nd_kind (node_at g1 c)"
  from frames [of n] assms(3) have n: "n < length (g_nodes g2)" "nd_live (node_at g2 n)"
    "nd_kind (node_at g2 n) = nd_kind (node_at g1 n)" by auto
  have top: "top_frame g2 = Some n" using g2(3) assms(3) by (simp add: top_frame_def)
  have "sound (end_compute n (keep r) g2)"
    using g2(2) end_compute_ok [of g2 n "keep r"] end_stale [of g2 n "keep r"] n top keep by (simp add: sound_def)
  moreover have "g_computing (end_compute n (keep r) g2) = cs"
    using end_compute_fields(3) [OF n(1)] g2(3) assms(3) by simp
  ultimately show ?thesis using g2(1,4) n end_compute_fields(2) [OF n(1)] by auto
qed

lemma begin_kind:
  assumes "reactive_ok g" and n: "n < length (g_nodes g)" "nd_live (node_at g n)" and g': "begin_compute n g = Some (b, g')"
  shows "nd_kind (node_at g' n) = nd_kind (node_at g n)"
proof -
  note ok = reactive_okD [OF assms(1)]
  have nl: "n < length (g_nodes (dispose_owned n g))" using dispose_owned_self(3) [OF ok(1,2) n] n(1) by simp
  have "nd_kind (node_at (dispose_owned n g) n) = nd_kind (node_at g n)"
    using dispose_owned_self(2) [OF ok(1,2) n] by (simp add: survives_def)
  then show ?thesis
    using g' sever_sources_nodes(1) [OF dispose_owned_torn(4) [OF ok(1,2) n(1)] nl, of n]
    by (auto simp: begin_compute_def Let_def)
qed

lemma run_effect:
  assumes "disciplined run" and "sound g" and "g_computing g = []"
    and e: "e < length (g_nodes g)" "nd_live (node_at g e)" "nd_kind (node_at g e) = Effect"
  shows "\<exists>r g' s'. compute run (\<lambda>_. None) e (upd e (nd_queued_update (\<lambda>_. False)) g) s = Some (r, g', s') \<and>
    sound g' \<and> g_computing g' = [] \<and> length (g_nodes g) \<le> length (g_nodes g')"
proof -
  let ?h = "upd e (nd_queued_update (\<lambda>_. False)) g"
  have ok: "reactive_ok g" "stale_ok g" using assms(2) by (simp_all add: sound_def)
  have h: "reactive_ok ?h" using unqueue_ok [OF ok(1) e] .
  have he: "e < length (g_nodes ?h)" "nd_live (node_at ?h e)" "nd_kind (node_at ?h e) \<noteq> Signal" "frame_free e ?h"
    using e assms(3) by (simp_all add: node_at_upd frame_free_def)
  from begin_compute_ok [OF h he] obtain b g1 where g1: "begin_compute e ?h = Some (b, g1)" "g_computing g1 = [e]"
    "reactive_ok g1" "length (g_nodes g1) = length (g_nodes g)" using assms(3) by auto
  have "frame_free e g" "e \<notin> set (g_computing g)" using assms(3) by (simp_all add: frame_free_def)
  from begin_effect_step [OF ok e this g1(1)] have s1: "sound g1" by (simp add: sound_def)
  have kind: "nd_kind (node_at g1 e) \<noteq> Computed"
    using begin_kind [OF h he(1,2) g1(1)] e by (simp add: node_at_upd)
  from run_and_finish [OF assms(1) s1, of "[]" e "\<lambda>_. None" b s] g1(2) kind obtain r g2 s'
    where "run b (g1, s) = Some (r, g2, s')" "e < length (g_nodes g2)" "sound (end_compute e None g2)"
      "g_computing (end_compute e None g2) = []" "length (g_nodes g1) \<le> length (g_nodes (end_compute e None g2))" by auto
  then show ?thesis by (simp add: compute_def g1)
qed

section \<open>A flush returns\<close>

definition flush_outcome :: "flush_result option \<Rightarrow> nat \<Rightarrow> 'v inner \<Rightarrow> bool" where
  "flush_outcome res steps g =
     (sound g \<and> g_computing g = [] \<and> (res = None \<longrightarrow> steps \<le> max_flush_steps) \<and>
      (res = Some FlushOk \<longrightarrow> g_queue g = [] \<and> steps \<le> max_flush_steps) \<and>
      (res = Some FlushOverflow \<longrightarrow> steps = max_flush_steps + 1))"

lemma flush_round_returns:
  assumes "disciplined run"
  shows "\<lbrakk>sound g; g_computing g = []; steps \<le> max_flush_steps; \<forall>e \<in> set es. e < length (g_nodes g)\<rbrakk> \<Longrightarrow>
    \<exists>res steps' g' s'. flush_round run es steps (g, s) = Some (res, steps', g', s') \<and> res \<noteq> Some FlushOk \<and>
      flush_outcome res steps' g'"
proof (induction es arbitrary: steps g s)
  case Nil
  then show ?case by (auto simp: flush_outcome_def)
next
  case (Cons e es)
  then have e: "e < length (g_nodes g)" by simp
  show ?case
  proof (cases "nd_live (node_at g e) \<and> nd_kind (node_at g e) = Effect")
    case False
    with Cons e show ?thesis by auto
  next
    case True
    with run_effect [OF assms Cons.prems(1,2) e] obtain r g' s'
      where g': "compute run (\<lambda>_. None) e (upd e (nd_queued_update (\<lambda>_. False)) g) s = Some (r, g', s')"
        "sound g'" "g_computing g' = []" "length (g_nodes g) \<le> length (g_nodes g')" by blast
    show ?thesis
    proof (cases "steps + 1 > max_flush_steps")
      case over: True
      with True e g' Cons.prems(3) show ?thesis by (auto simp: flush_outcome_def)
    next
      case under: False
      then have "steps + 1 \<le> max_flush_steps" by simp
      moreover have "\<forall>e \<in> set es. e < length (g_nodes g')" using Cons.prems(4) g'(4) by auto
      ultimately show ?thesis using Cons.IH [OF g'(2,3), of "steps + 1" s'] under True e g'(1) by auto
    qed
  qed
qed

lemma start_round_sound: "sound g \<Longrightarrow> sound (start_round g)"
  using scratch_irrelevant [of "start_round g" g] by (auto simp: sound_def start_round_def)

lemma sound_mono:
  assumes "sound h" and "g_nodes h' = g_nodes h" and "g_free h' = g_free h" and "g_computing h' = g_computing h"
    and "g_dirty_computeds h' = g_dirty_computeds h" and "g_queue h' = g_queue h"
  shows "sound h'"
  using scratch_irrelevant [OF assms(2-5)] assms(1,6) by (simp add: sound_def)

lemma scratch_sound [simp]:
  "sound (g\<lparr>g_round_scratch := x\<rparr>) = sound g" "sound (g\<lparr>g_flushing := b\<rparr>) = sound g"
  by (intro iffI; erule sound_mono; simp)+

lemma flush_loop_returns:
  assumes "disciplined run"
  shows "\<lbrakk>sound g; g_computing g = []; steps \<le> max_flush_steps\<rbrakk> \<Longrightarrow>
    \<exists>res steps' g' s'. flush_loop run steps (g, s) = Some (res, steps', g', s') \<and> flush_outcome (Some res) steps' g'"
  using assms
proof (induction run steps "(g, s)" arbitrary: g s rule: flush_loop.induct)
  case (1 run steps g s)
  show ?case
  proof (cases "g_queue g = []")
    case True
    with 1(2-4) show ?thesis by (subst flush_loop.simps) (simp add: flush_outcome_def)
  next
    case False
    let ?round = "sort (g_queue g)"
    have "\<forall>e \<in> set ?round. e < length (g_nodes (start_round g))"
      using graph_okD(6) [of g] 1(2) by (auto simp: sound_def reactive_ok_def start_round_def)
    with flush_round_returns [OF 1(5) start_round_sound [OF 1(2)] _ 1(4), of ?round s] 1(3)
    obtain res steps' g' s' where r: "flush_round run ?round steps (start_round g, s) = Some (res, steps', g', s')"
      "flush_outcome res steps' g'" by (auto simp: start_round_def)
    show ?thesis
    proof (cases res)
      case (Some x)
      with r False show ?thesis by (subst flush_loop.simps) simp
    next
      case None
      with r(2) have "sound g'" "g_computing g' = []" "steps' \<le> max_flush_steps" by (simp_all add: flush_outcome_def)
      with 1(1) [OF False refl r(1) refl None refl refl] 1(5)
      obtain res steps2 g2 s2 where "flush_loop run steps' (g'\<lparr>g_round_scratch := ?round\<rparr>, s') = Some (res, steps2, g2, s2)"
        "flush_outcome (Some res) steps2 g2" by auto
      with r None False show ?thesis by (subst flush_loop.simps) simp
    qed
  qed
qed


section \<open>A read recomputes a stale memo once\<close>

lemma read_stale:
  assumes "disciplined run" and "sound g" and n: "n < length (g_nodes g)" "nd_live (node_at g n)" "is_dirty_computed (node_at g n)"
    "frame_free n g" "n \<notin> set (g_computing g)"
  shows "\<exists>v g' s'. read run n g s = Some (v, g', s') \<and> sound g' \<and> g_computing g' = g_computing g \<and>
    n < length (g_nodes g') \<and> nd_kind (node_at g' n) = Computed \<and> nd_content (node_at g' n) = Some v \<and> \<not> nd_dirty (node_at g' n)"
proof -
  let ?h = "record_dependency n g"
  have ok: "reactive_ok g" "stale_ok g" using assms(2) by (simp_all add: sound_def)
  note same = record_same [OF ok(1) n(1)]
  have h: "reactive_ok ?h" using record_dependency_ok [OF ok(1) n(1,2)] .
  have hn: "n < length (g_nodes ?h)" "nd_live (node_at ?h n)" "nd_kind (node_at ?h n) \<noteq> Signal" "frame_free n ?h"
    using n by (simp_all add: same is_dirty_computed_def frame_free_def)
  from begin_compute_ok [OF h hn] obtain b g1 where g1: "begin_compute n ?h = Some (b, g1)" "g_computing g1 = g_computing g @ [n]"
    by auto
  from begin_read_step [OF ok n g1(1)] have s1: "sound g1" by (simp add: sound_def)
  have kind: "nd_kind (node_at g1 n) = Computed"
    using begin_kind [OF h hn(1,2) g1(1)] n(3) by (simp add: same is_dirty_computed_def)
  from run_and_finish [OF assms(1) s1 g1(2), of Some b s] kind obtain r g2 s'
    where g2: "run b (g1, s) = Some (r, g2, s')" "n < length (g_nodes g2)" "nd_kind (node_at g2 n) = Computed"
      "sound (end_compute n (Some r) g2)" "g_computing (end_compute n (Some r) g2) = g_computing g" by auto
  have "read run n g s = Some (r, end_compute n (Some r) g2, s')"
    using n(1,3) g1(1) g2(1,2) by (simp add: read_def Let_def compute_def same is_dirty_computed_def)
  with g2(2-5) end_compute_fields(1,2) [OF g2(2), of "Some r"] show ?thesis by simp
qed


section \<open>Concrete graphs\<close>

text \<open>A signal (0), a computed (1) that has read it, and an effect (2) that is still queued.\<close>

definition demo_stale :: "nat inner" where
  "demo_stale = snd (computed 1 0 (snd (signal 7 graph_new)))"

definition demo_running :: "nat inner" where
  "demo_running = snd (the (begin_compute 1 (record_dependency 1 demo_stale)))"

definition demo :: "nat inner" where
  "demo = snd (effect 5 (end_compute 1 (Some 8) (record_dependency 0 demo_running)))"

lemma demo_stale_reachable: "reachable demo_stale"
proof -
  have "gstep graph_new (snd (signal 7 graph_new))" by (rule st_signal) (rule surjective_pairing)
  moreover have "gstep (snd (signal 7 graph_new)) demo_stale"
    unfolding demo_stale_def by (rule st_computed) (rule surjective_pairing)
  ultimately show ?thesis using reachable.start reachable.step by blast
qed

lemma demo_running_reachable: "reachable demo_running"
proof -
  have "gstep demo_stale demo_running"
  proof (rule st_begin_read)
    show "1 < length (g_nodes demo_stale)" "nd_live (node_at demo_stale 1)" "is_dirty_computed (node_at demo_stale 1)"
      "1 \<notin> set (g_computing demo_stale)"
      by code_simp+
    have "g_computing demo_stale = []" by code_simp
    then show "frame_free 1 demo_stale" by (simp add: frame_free_def)
    show "begin_compute 1 (record_dependency 1 demo_stale) = Some (1, demo_running)"
      unfolding demo_running_def by code_simp
  qed
  with demo_stale_reachable show ?thesis by (rule reachable.step)
qed

lemma demo_reachable: "reachable demo"
proof -
  have "gstep demo_running (record_dependency 0 demo_running)" by (rule st_read; code_simp)
  moreover have "gstep (record_dependency 0 demo_running) (end_compute 1 (Some 8) (record_dependency 0 demo_running))"
    by (rule st_end) (code_simp, simp)
  moreover have "gstep (end_compute 1 (Some 8) (record_dependency 0 demo_running)) demo"
    unfolding demo_def by (rule st_effect) (rule surjective_pairing)
  ultimately show ?thesis using demo_running_reachable reachable.step by blast
qed

lemma demo_sound: "sound demo" "sound demo_stale"
  using reachable_ok demo_reachable demo_stale_reachable by (auto simp: sound_def)

lemma demo_shape:
  "length (g_nodes demo) = 3" "g_computing demo = []" "nd_kind (node_at demo 0) = Signal" "nd_live (node_at demo 0)"
  "nd_kind (node_at demo 1) = Computed" "\<not> nd_dirty (node_at demo 1)" "nd_sources (node_at demo 1) = [0]"
  "nd_subscribers (node_at demo 0) = [1]"
  by code_simp+

text \<open>A body that does nothing.\<close>

definition idle_run :: "(nat, unit) runner" where
  "idle_run body st = Some (body, st)"

lemma idle_disciplined: "disciplined idle_run"
  by (auto simp: disciplined_def idle_run_def)

theorem dispose_exact_witness:
  "\<exists>g'. dispose 0 demo = Some g' \<and> graph_ok g' \<and> forest_ok g' \<and>
    (\<forall>i < length (g_nodes demo). nd_live (node_at g' i) \<longleftrightarrow> nd_live (node_at demo i) \<and> (0, i) \<notin> (owns demo)\<^sup>*) \<and>
    mset (for_each_value g') + mset (g_reclaimed g') + mset (node_cells (node_at demo 0)) =
      mset (for_each_value demo) + mset (g_reclaimed demo)"
  by (rule dispose_exact) (use demo_sound demo_shape in \<open>simp_all add: sound_def reactive_ok_def\<close>)

theorem set_flags_exactly_dependents_witness:
  "\<exists>g'. set_signal 0 9 demo = Some g' \<and> reactive_ok g' \<and>
    (\<forall>i. node_at g' i = (if i = 0 then (node_at demo 0)\<lparr>nd_content := Some 9\<rparr>
                          else if dirtied demo 0 i then flagged (node_at demo i) else node_at demo i)) \<and>
    set (g_queue g') = set (g_queue demo) \<union>
      {i. dirtied demo 0 i \<and> nd_kind (node_at demo i) = Effect \<and> \<not> nd_queued (node_at demo i)}"
  by (rule set_flags_exactly_dependents) (use demo_sound demo_shape in \<open>simp_all add: sound_def\<close>)





section \<open>An untracked read of a stale computed\<close>


end
