(* ===== verification/Gc_Heap.thy ===== *)
theory Gc_Heap
  imports Prelude "HOL-Library.Word"
begin

text \<open>
  The runtime heap (\<open>crates/noeta-value/src/heap.rs\<close>): object headers, reference counts, the
  live-object registry, the candidate buffer of the cycle collector, the release path of both
  collector modes and the slot updates.

  An address is an index into the table of objects; a freed object stays in the table as a tombstone
  (\<open>ob_freed\<close>), so that touching it afterwards is visible. A payload is its variant and the values it
  holds, in the order \<open>children\<close> enumerates them; what else a payload stores (text, numbers, shapes)
  does not matter to memory management. The registry is a hash set; the list is its enumeration.
  An operation on a freed object, a decrement of a zero count and an index out of range are \<open>None\<close>.
\<close>

section \<open>Objects\<close>

type_synonym addr = nat

datatype gc_val = Imm | Ptr addr

datatype color = Black | Gray | White | Purple

datatype collector_mode = Trace | TrialDeletion

datatype leaf = LStr | LBytes | LExtern | LInt | LPackedList | LNativeModule | LNativeFn | LModuleFn | LMethodHandle
  | LTimer | LHandle | LAsyncIo | LSender | LReceiver | LChannelRecv | LIsolateFuture

datatype payload =
    PList "gc_val list" | PTuple "gc_val list" | PSet "gc_val list" | PMap "gc_val list"
  | PObject "gc_val list" | PEnum "gc_val list" | PClosure "gc_val list" | PCell gc_val
  | PIter "gc_val list" | PFuture gc_val | PChannelSend gc_val | PBoundMethod gc_val | PLeaf leaf

fun payload_values :: "payload \<Rightarrow> gc_val list" where
  "payload_values (PList vs) = vs"
| "payload_values (PTuple vs) = vs"
| "payload_values (PSet vs) = vs"
| "payload_values (PMap vs) = vs"
| "payload_values (PObject vs) = vs"
| "payload_values (PEnum vs) = vs"
| "payload_values (PClosure vs) = vs"
| "payload_values (PCell v) = [v]"
| "payload_values (PIter vs) = vs"
| "payload_values (PFuture v) = [v]"
| "payload_values (PChannelSend v) = [v]"
| "payload_values (PBoundMethod v) = [v]"
| "payload_values (PLeaf l) = []"

fun can_be_cyclic :: "payload \<Rightarrow> bool" where
  "can_be_cyclic (PLeaf l) = False"
| "can_be_cyclic p = True"

record obj =
  ob_refcount :: "32 word"
  ob_seq :: "32 word"
  ob_color :: color
  ob_buffered :: bool
  ob_shared :: bool
  ob_registered :: bool
  ob_payload :: payload
  ob_freed :: bool

text \<open>\<open>usize::MAX\<close> disarms a trigger; \<open>None\<close> stands for it.\<close>

record heap =
  hp_objs :: "obj list"
  hp_registry :: "addr list"
  hp_candidates :: "addr list"
  hp_mode :: collector_mode
  hp_live :: nat
  hp_peak :: nat
  hp_next_seq :: "32 word"
  hp_anomalies :: nat
  hp_pending :: bool
  hp_watermark :: "nat option"
  hp_step :: "nat option"
  hp_floor :: "nat option"

definition heap_new :: "collector_mode \<Rightarrow> heap" where
  "heap_new m = \<lparr>hp_objs = [], hp_registry = [], hp_candidates = [], hp_mode = m, hp_live = 0, hp_peak = 0,
     hp_next_seq = 0, hp_anomalies = 0, hp_pending = False, hp_watermark = None, hp_step = None, hp_floor = None\<rparr>"

definition nil_obj :: obj where
  "nil_obj = \<lparr>ob_refcount = 0, ob_seq = 0, ob_color = Black, ob_buffered = False, ob_shared = False,
     ob_registered = False, ob_payload = PLeaf LInt, ob_freed = True\<rparr>"

definition obj_at :: "heap \<Rightarrow> addr \<Rightarrow> obj" where
  "obj_at h a = (if a < length (hp_objs h) then hp_objs h ! a else nil_obj)"

definition upd_obj :: "addr \<Rightarrow> (obj \<Rightarrow> obj) \<Rightarrow> heap \<Rightarrow> heap" where
  "upd_obj a f h = h\<lparr>hp_objs := (hp_objs h)[a := f (obj_at h a)]\<rparr>"

definition live_at :: "heap \<Rightarrow> addr \<Rightarrow> bool" where
  "live_at h a = (a < length (hp_objs h) \<and> \<not> ob_freed (obj_at h a))"

fun pointers :: "gc_val list \<Rightarrow> addr list" where
  "pointers [] = []"
| "pointers (Imm # vs) = pointers vs"
| "pointers (Ptr a # vs) = a # pointers vs"

definition obj_children :: "heap \<Rightarrow> addr \<Rightarrow> addr list" where
  "obj_children h a = pointers (payload_values (ob_payload (obj_at h a)))"

section \<open>Header fields\<close>

definition set_color :: "addr \<Rightarrow> color \<Rightarrow> heap \<Rightarrow> heap" where
  "set_color a c h = upd_obj a (ob_color_update (\<lambda>_. c)) h"

definition set_buffered :: "addr \<Rightarrow> bool \<Rightarrow> heap \<Rightarrow> heap" where
  "set_buffered a b h = upd_obj a (ob_buffered_update (\<lambda>_. b)) h"

definition rc_inc :: "addr \<Rightarrow> heap \<Rightarrow> heap" where
  "rc_inc a h = upd_obj a (ob_refcount_update (\<lambda>n. n + 1)) h"

definition rc_dec :: "addr \<Rightarrow> heap \<Rightarrow> heap" where
  "rc_dec a h = upd_obj a (ob_refcount_update (\<lambda>n. n - 1)) h"

definition inc_ref :: "gc_val \<Rightarrow> heap \<Rightarrow> heap" where
  "inc_ref v h = (case v of Imm \<Rightarrow> h | Ptr a \<Rightarrow> if ob_shared (obj_at h a) then h else rc_inc a h)"

section \<open>Allocation and the collection trigger\<close>

definition reaches :: "nat \<Rightarrow> nat option \<Rightarrow> bool" where
  "reaches n limit = (case limit of None \<Rightarrow> False | Some l \<Rightarrow> l \<le> n)"

definition live_inc :: "heap \<Rightarrow> heap" where
  "live_inc h =
     (let n = hp_live h + 1 in
      h\<lparr>hp_live := n, hp_peak := max n (hp_peak h), hp_pending := hp_pending h \<or> reaches n (hp_watermark h)\<rparr>)"

definition live_dec :: "heap \<Rightarrow> heap" where
  "live_dec h = h\<lparr>hp_live := hp_live h - 1\<rparr>"

definition alloc_with :: "payload \<Rightarrow> bool \<Rightarrow> heap \<Rightarrow> addr \<times> heap" where
  "alloc_with p shared h =
     (let h1 = live_inc h;
          seq = hp_next_seq h1;
          registered = (can_be_cyclic p \<and> \<not> shared \<and> hp_mode h1 = Trace);
          a = length (hp_objs h1);
          ob = \<lparr>ob_refcount = 1, ob_seq = seq, ob_color = Black, ob_buffered = False, ob_shared = shared,
                ob_registered = registered, ob_payload = p, ob_freed = False\<rparr> in
      (a, h1\<lparr>hp_next_seq := seq + 1, hp_objs := hp_objs h1 @ [ob],
             hp_registry := (if registered then hp_registry h1 @ [a] else hp_registry h1)\<rparr>))"

definition SAFEPOINT_GC_CANDIDATE_STEP :: nat where
  "SAFEPOINT_GC_CANDIDATE_STEP = 4096"

definition safepoint_gc_arm :: "nat \<Rightarrow> heap \<Rightarrow> heap" where
  "safepoint_gc_arm step h =
     h\<lparr>hp_step := Some step, hp_pending := False, hp_watermark := Some (hp_live h + step),
       hp_floor := Some (length (hp_candidates h) + SAFEPOINT_GC_CANDIDATE_STEP)\<rparr>"

definition safepoint_gc_disarm :: "heap \<Rightarrow> heap" where
  "safepoint_gc_disarm h = h\<lparr>hp_step := None, hp_pending := False, hp_watermark := None, hp_floor := None\<rparr>"

definition safepoint_gc_rearm :: "heap \<Rightarrow> heap" where
  "safepoint_gc_rearm h =
     (case hp_step h of
        None \<Rightarrow> safepoint_gc_disarm h
      | Some step \<Rightarrow>
          h\<lparr>hp_watermark := Some (hp_live h + max (hp_live h) step),
            hp_floor := Some (length (hp_candidates h) + SAFEPOINT_GC_CANDIDATE_STEP), hp_pending := False\<rparr>)"

section \<open>Releasing\<close>

definition registry_remove :: "addr \<Rightarrow> heap \<Rightarrow> heap" where
  "registry_remove a h =
     (if ob_registered (obj_at h a) then h\<lparr>hp_registry := removeAll a (hp_registry h)\<rparr> else h)"

definition drop_box :: "addr \<Rightarrow> heap \<Rightarrow> heap" where
  "drop_box a h = upd_obj a (ob_freed_update (\<lambda>_. True)) (live_dec (registry_remove a h))"

definition free_shallow :: "addr \<Rightarrow> heap \<Rightarrow> heap" where
  "free_shallow a h =
     (if hp_mode h = TrialDeletion \<and> ob_buffered (obj_at h a) then set_color a Black h else drop_box a h)"

definition possible_root :: "addr \<Rightarrow> heap \<Rightarrow> heap" where
  "possible_root a h =
     (if ob_color (obj_at h a) \<noteq> Purple then
        (let h1 = set_color a Purple h in
         if \<not> ob_buffered (obj_at h1 a) then
           (let h2 = set_buffered a True h1;
                cs = hp_candidates h2 @ [a] in
            h2\<lparr>hp_candidates := cs, hp_pending := hp_pending h2 \<or> reaches (length cs) (hp_floor h2)\<rparr>)
         else h1)
      else h)"

definition rebuffer_candidate :: "gc_val \<Rightarrow> heap \<Rightarrow> heap" where
  "rebuffer_candidate v h = (case v of Imm \<Rightarrow> h | Ptr a \<Rightarrow> possible_root a h)"

definition take_candidates :: "heap \<Rightarrow> addr list \<times> heap" where
  "take_candidates h = (hp_candidates h, h\<lparr>hp_candidates := []\<rparr>)"

text \<open>
  \<open>release\<close>, \<open>free\<close> and \<open>release_child\<close> call each other down the object graph. What is still to do after a
  call returns is kept as a list of tasks: releases of the remaining children, and in \<open>TrialDeletion\<close>
  mode the shallow free of an object whose children have just been released.
\<close>

datatype task = Release addr | FreeShallow addr

definition total_count :: "heap \<Rightarrow> nat" where
  "total_count h = sum_list (map (\<lambda>ob. unat (ob_refcount ob)) (hp_objs h))"

lemma hp_objs_frame [simp]:
  "hp_objs (registry_remove a h) = hp_objs h" "hp_objs (live_dec h) = hp_objs h"
  by (simp_all add: registry_remove_def live_dec_def)

lemma obj_at_frame [simp]:
  "obj_at (h\<lparr>hp_registry := r\<rparr>) = obj_at h" "obj_at (live_dec h) = obj_at h"
  "obj_at (h\<lparr>hp_candidates := cs\<rparr>) = obj_at h" "obj_at (h\<lparr>hp_pending := b\<rparr>) = obj_at h"
  "obj_at (registry_remove a h) = obj_at h"
  by (simp_all add: obj_at_def fun_eq_iff live_dec_def)

lemma length_upd_obj [simp]: "length (hp_objs (upd_obj a f h)) = length (hp_objs h)"
  by (simp add: upd_obj_def)

lemma obj_at_upd: "obj_at (upd_obj a f h) b = (if b = a \<and> a < length (hp_objs h) then f (obj_at h a) else obj_at h b)"
  by (auto simp: obj_at_def upd_obj_def nth_list_update)

lemma sum_update:
  fixes f :: "'a \<Rightarrow> nat"
  assumes "i < length xs"
  shows "sum_list (map f (xs[i := y])) + f (xs ! i) = sum_list (map f xs) + f y"
  using assms by (induction xs arbitrary: i) (auto split: nat.split)

lemma total_count_upd:
  "a < length (hp_objs h) \<Longrightarrow>
   total_count (upd_obj a f h) + unat (ob_refcount (obj_at h a)) = total_count h + unat (ob_refcount (f (obj_at h a)))"
  using sum_update [of a "hp_objs h" "\<lambda>ob. unat (ob_refcount ob)" "f (obj_at h a)"]
  by (simp add: total_count_def upd_obj_def obj_at_def)

lemma total_count_same:
  assumes "\<And>ob. ob_refcount (f ob) = ob_refcount ob"
  shows "total_count (upd_obj a f h) = total_count h"
proof (cases "a < length (hp_objs h)")
  case True
  then show ?thesis using total_count_upd [OF True, of f] assms by simp
next
  case False
  then show ?thesis by (simp add: upd_obj_def total_count_def list_update_beyond)
qed

lemma total_count_frame [simp]:
  "total_count (drop_box a h) = total_count h" "total_count (free_shallow a h) = total_count h"
  "total_count (possible_root a h) = total_count h" "total_count (h\<lparr>hp_candidates := cs\<rparr>) = total_count h"
proof -
  have hp: "total_count h1 = total_count h2" if "hp_objs h1 = hp_objs h2" for h1 h2 using that by (simp add: total_count_def)
  show d: "total_count (drop_box a h) = total_count h"
    unfolding drop_box_def by (subst total_count_same) (auto intro: hp)
  show "total_count (h\<lparr>hp_candidates := cs\<rparr>) = total_count h" by (rule hp) simp
  show "total_count (free_shallow a h) = total_count h"
    by (simp add: free_shallow_def d set_color_def total_count_same)
  have "hp_objs (h2\<lparr>hp_candidates := cs, hp_pending := b\<rparr>) = hp_objs h2" for h2 cs b by simp
  then have p: "total_count (h2\<lparr>hp_candidates := cs, hp_pending := b\<rparr>) = total_count h2" for h2 cs b by (rule hp)
  show "total_count (possible_root a h) = total_count h"
    by (simp add: possible_root_def Let_def p set_color_def set_buffered_def total_count_same)
qed

lemma total_count_dec:
  assumes "a < length (hp_objs h)" and "ob_refcount (obj_at h a) \<noteq> 0"
  shows "total_count (rc_dec a h) < total_count h"
proof -
  have u: "unat (ob_refcount (obj_at h a) - 1) = unat (ob_refcount (obj_at h a)) - 1" using assms(2) by (rule unat_minus_one)
  have z: "unat (ob_refcount (obj_at h a)) \<noteq> 0" using assms(2) by (simp add: unat_eq_zero)
  show ?thesis
    using total_count_upd [OF assms(1), of "ob_refcount_update (\<lambda>n. n - 1)"] u z by (simp add: rc_dec_def)
qed

function release_tasks :: "task list \<Rightarrow> heap \<Rightarrow> heap option" where
  "release_tasks [] h = Some h"
| "release_tasks (Release a # ts) h =
     (if \<not> live_at h a then None
      else if ob_shared (obj_at h a) then release_tasks ts h
      else if ob_refcount (obj_at h a) = 0 then None
      else
        let h1 = rc_dec a h; last = (ob_refcount (obj_at h1 a) = 0) in
        (case hp_mode h1 of
           Trace \<Rightarrow>
             if last then release_tasks (map Release (obj_children h1 a) @ ts) (drop_box a h1)
             else release_tasks ts h1
         | TrialDeletion \<Rightarrow>
             if last then release_tasks (map Release (obj_children h1 a) @ FreeShallow a # ts) h1
             else if can_be_cyclic (ob_payload (obj_at h1 a)) then release_tasks ts (possible_root a h1)
             else release_tasks ts h1))"
| "release_tasks (FreeShallow a # ts) h = (if \<not> live_at h a then None else release_tasks ts (free_shallow a h))"
  by pat_completeness auto
termination
  by (relation "inv_image (less_than <*lex*> less_than) (\<lambda>(ts, h). (total_count h, length ts))")
    (auto simp: live_at_def total_count_dec)

definition release :: "gc_val \<Rightarrow> heap \<Rightarrow> heap option" where
  "release v h = (case v of Imm \<Rightarrow> Some h | Ptr a \<Rightarrow> release_tasks [Release a] h)"

text \<open>\<open>dec_ref\<close>, and the \<open>dec_ref\<close> and \<open>free\<close> pair the slot updates use whatever the mode.\<close>

definition dec_ref :: "gc_val \<Rightarrow> heap \<Rightarrow> (bool \<times> heap) option" where
  "dec_ref v h =
     (case v of
        Imm \<Rightarrow> Some (False, h)
      | Ptr a \<Rightarrow>
          if \<not> live_at h a then None
          else if ob_shared (obj_at h a) then Some (False, h)
          else if ob_refcount (obj_at h a) = 0 then None
          else Some (ob_refcount (obj_at (rc_dec a h) a) = 0, rc_dec a h))"

definition free_obj :: "gc_val \<Rightarrow> heap \<Rightarrow> heap option" where
  "free_obj v h =
     (case v of
        Imm \<Rightarrow> Some h
      | Ptr a \<Rightarrow> if \<not> live_at h a then None else release_tasks (map Release (obj_children h a)) (drop_box a h))"

definition drop_old :: "gc_val \<Rightarrow> heap \<Rightarrow> heap option" where
  "drop_old v h = (case dec_ref v h of None \<Rightarrow> None | Some (zero, h1) \<Rightarrow> if zero then free_obj v h1 else Some h1)"

definition cell_set :: "addr \<Rightarrow> gc_val \<Rightarrow> heap \<Rightarrow> heap option" where
  "cell_set c v h =
     (if \<not> live_at h c then None
      else case ob_payload (obj_at h c) of
        PCell old \<Rightarrow> drop_old old (upd_obj c (ob_payload_update (\<lambda>_. PCell v)) (inc_ref v h))
      | _ \<Rightarrow> None)"

definition replace_slot :: "addr \<Rightarrow> nat \<Rightarrow> gc_val \<Rightarrow> heap \<Rightarrow> (gc_val \<times> heap) option" where
  "replace_slot c i v h =
     (if \<not> live_at h c then None
      else case ob_payload (obj_at h c) of
        PObject vs \<Rightarrow>
          if i < length vs
          then Some (vs ! i, upd_obj c (ob_payload_update (\<lambda>_. PObject (vs[i := v]))) (inc_ref v h))
          else None
      | _ \<Rightarrow> None)"

definition set_slot :: "addr \<Rightarrow> nat \<Rightarrow> gc_val \<Rightarrow> heap \<Rightarrow> heap option" where
  "set_slot c i v h = (case replace_slot c i v h of None \<Rightarrow> None | Some (old, h1) \<Rightarrow> drop_old old h1)"

end
