(* ===== verification/Gc_Count.thy ===== *)
theory Gc_Count
  imports Gc_Heap
begin

text \<open>
  Exactness of the reference counts: every count is the number of references the program holds from
  outside plus the number of references from objects. Allocation, retain, release and the slot
  updates keep it, and no release ever touches freed memory.
\<close>

section \<open>Exact counts\<close>

text \<open>An object holds its references until its own count has reached zero: from then on they are
  released, even if the box itself is kept for the candidate buffer. Shared objects are not counted.\<close>

definition holds :: "heap \<Rightarrow> addr \<Rightarrow> bool" where
  "holds h a = (live_at h a \<and> (ob_shared (obj_at h a) \<or> ob_refcount (obj_at h a) \<noteq> 0))"

definition edges :: "heap \<Rightarrow> addr \<Rightarrow> nat" where
  "edges h x = (\<Sum>a \<in> {a. a < length (hp_objs h) \<and> holds h a}. count_list (obj_children h a) x)"

definition exact :: "heap \<Rightarrow> (addr \<Rightarrow> nat) \<Rightarrow> bool" where
  "exact h ext =
     ((\<forall>x. live_at h x \<and> \<not> ob_shared (obj_at h x) \<longrightarrow> unat (ob_refcount (obj_at h x)) = ext x + edges h x) \<and>
      (\<forall>a x. holds h a \<and> x \<in> set (obj_children h a) \<longrightarrow> live_at h x) \<and>
      (\<forall>x. 0 < ext x \<longrightarrow> live_at h x))"

lemma exactD:
  assumes "exact h ext"
  shows "live_at h x \<Longrightarrow> \<not> ob_shared (obj_at h x) \<Longrightarrow> unat (ob_refcount (obj_at h x)) = ext x + edges h x"
    "holds h a \<Longrightarrow> x \<in> set (obj_children h a) \<Longrightarrow> live_at h x" "0 < ext x \<Longrightarrow> live_at h x"
  using assms by (auto simp: exact_def)

lemma exactI:
  assumes "\<And>x. live_at h x \<Longrightarrow> \<not> ob_shared (obj_at h x) \<Longrightarrow> unat (ob_refcount (obj_at h x)) = ext x + edges h x"
    and "\<And>a x. holds h a \<Longrightarrow> x \<in> set (obj_children h a) \<Longrightarrow> live_at h x" and "\<And>x. 0 < ext x \<Longrightarrow> live_at h x"
  shows "exact h ext"
  using assms unfolding exact_def by blast

lemma holds_live: "holds h a \<Longrightarrow> a < length (hp_objs h) \<and> live_at h a"
  by (simp add: holds_def live_at_def)

text \<open>What the counts depend on.\<close>

definition same_mem :: "obj \<Rightarrow> obj \<Rightarrow> bool" where
  "same_mem ob ob' = (ob_refcount ob' = ob_refcount ob \<and> ob_shared ob' = ob_shared ob \<and>
     ob_payload ob' = ob_payload ob \<and> ob_freed ob' = ob_freed ob)"

lemma same_mem_refl [simp]: "same_mem ob ob"
  by (simp add: same_mem_def)

lemma mem_cong:
  assumes "length (hp_objs h') = length (hp_objs h)" and "same_mem (obj_at h a) (obj_at h' a)"
  shows "live_at h' a = live_at h a" "holds h' a = holds h a" "obj_children h' a = obj_children h a"
    "ob_shared (obj_at h' a) = ob_shared (obj_at h a)" "ob_refcount (obj_at h' a) = ob_refcount (obj_at h a)"
  using assms by (simp_all add: same_mem_def live_at_def holds_def obj_children_def)

lemma exact_cong:
  assumes "length (hp_objs h') = length (hp_objs h)" and "\<And>a. same_mem (obj_at h a) (obj_at h' a)"
  shows "edges h' = edges h" "exact h' ext = exact h ext"
proof -
  note c = mem_cong [OF assms(1) assms(2)]
  show e: "edges h' = edges h" by (simp add: edges_def fun_eq_iff c assms(1))
  show "exact h' ext = exact h ext" by (simp add: exact_def c e)
qed

lemma edges_pos:
  assumes "holds h a" and "x \<in> set (obj_children h a)"
  shows "0 < edges h x"
proof -
  have "0 < count_list (obj_children h a) x" using assms(2) by (metis count_list_0_iff gr0I)
  also have "\<dots> \<le> edges h x"
    unfolding edges_def by (rule member_le_sum) (use holds_live [OF assms(1)] assms(1) in auto)
  finally show ?thesis .
qed

text \<open>One holder stops holding: its references are no longer edges.\<close>

lemma edges_lose:
  assumes len: "length (hp_objs h') = length (hp_objs h)" and a: "holds h a" "\<not> holds h' a"
    and other: "\<And>b. b \<noteq> a \<Longrightarrow> same_mem (obj_at h b) (obj_at h' b)"
  shows "edges h x = edges h' x + count_list (obj_children h a) x"
proof -
  let ?A = "{b. b < length (hp_objs h) \<and> holds h b}" and ?B = "{b. b < length (hp_objs h') \<and> holds h' b}"
  have "holds h' b = (holds h b \<and> b \<noteq> a)" for b using mem_cong(2) [OF len other, of b] a(2) by (cases "b = a") simp_all
  then have B: "?B = ?A - {a}" using len by auto
  have mem: "a \<in> ?A" using a(1) holds_live by auto
  have "edges h x = count_list (obj_children h a) x + (\<Sum>b \<in> ?A - {a}. count_list (obj_children h b) x)"
    unfolding edges_def by (rule sum.remove) (use mem in auto)
  also have "(\<Sum>b \<in> ?A - {a}. count_list (obj_children h b) x) = edges h' x"
    unfolding edges_def B by (intro sum.cong) (use mem_cong(3) [OF len other] in auto)
  finally show ?thesis by simp
qed

section \<open>Releasing keeps the counts exact\<close>

fun pending :: "task list \<Rightarrow> addr \<Rightarrow> nat" where
  "pending [] x = 0"
| "pending (Release a # ts) x = (if a = x then 1 else 0) + pending ts x"
| "pending (FreeShallow a # ts) x = pending ts x"

fun shallow :: "task list \<Rightarrow> addr list" where
  "shallow [] = []"
| "shallow (Release a # ts) = shallow ts"
| "shallow (FreeShallow a # ts) = a # shallow ts"

lemma pending_simps [simp]:
  "pending (xs @ ys) x = pending xs x + pending ys x" "pending (map Release as) x = count_list as x"
  "shallow (xs @ ys) = shallow xs @ shallow ys" "shallow (map Release as) = []"
proof -
  show "pending (xs @ ys) x = pending xs x + pending ys x" by (induction xs rule: shallow.induct) simp_all
  show "pending (map Release as) x = count_list as x" by (induction as) auto
  show "shallow (xs @ ys) = shallow xs @ shallow ys" by (induction xs rule: shallow.induct) simp_all
  show "shallow (map Release as) = []" by (induction as) auto
qed

text \<open>The boxes waiting for their shallow free: live, uncounted to, each once.\<close>

definition doomed :: "heap \<Rightarrow> addr list \<Rightarrow> bool" where
  "doomed h as = (distinct as \<and> (\<forall>a \<in> set as. live_at h a \<and> \<not> ob_shared (obj_at h a) \<and> ob_refcount (obj_at h a) = 0))"

lemma obj_at_rc_dec:
  "obj_at (rc_dec a h) x =
     (if x = a \<and> a < length (hp_objs h) then (obj_at h a)\<lparr>ob_refcount := ob_refcount (obj_at h a) - 1\<rparr> else obj_at h x)"
  by (simp add: rc_dec_def obj_at_upd)

lemma dec_exact:
  assumes ex: "exact h (\<lambda>x. ext x + (if a = x then 1 else 0))" and a: "live_at h a" "\<not> ob_shared (obj_at h a)"
  shows "ob_refcount (obj_at h a) \<noteq> 0"
    and "ob_refcount (obj_at (rc_dec a h) a) \<noteq> 0 \<Longrightarrow> exact (rc_dec a h) ext"
    and "ob_refcount (obj_at (rc_dec a h) a) = 0 \<Longrightarrow>
      exact (rc_dec a h) (\<lambda>x. ext x + count_list (obj_children h a) x) \<and>
      ext a + count_list (obj_children h a) a = 0 \<and> edges (rc_dec a h) a = 0"
proof -
  let ?h = "rc_dec a h"
  have al: "a < length (hp_objs h)" using a(1) by (simp add: live_at_def)
  have len: "length (hp_objs ?h) = length (hp_objs h)" by (simp add: rc_dec_def)
  have other: "same_mem (obj_at h b) (obj_at ?h b)" if "b \<noteq> a" for b using that by (simp add: obj_at_rc_dec)
  have ra: "obj_at ?h a = (obj_at h a)\<lparr>ob_refcount := ob_refcount (obj_at h a) - 1\<rparr>" using al by (simp add: obj_at_rc_dec)
  have live: "live_at ?h x = live_at h x" and sh: "ob_shared (obj_at ?h x) = ob_shared (obj_at h x)"
    and ch: "obj_children ?h x = obj_children h x" for x
    by (simp_all add: live_at_def len obj_at_rc_dec obj_children_def)
  have eq: "unat (ob_refcount (obj_at h a)) = ext a + 1 + edges h a" using exactD(1) [OF ex a] by simp
  then show nz: "ob_refcount (obj_at h a) \<noteq> 0" by auto
  have un: "unat (ob_refcount (obj_at ?h a)) = ext a + edges h a"
    using eq unat_minus_one [OF nz] by (simp add: ra)
  have ha: "holds h a" using a nz by (simp add: holds_def)
  have ext: "0 < ext x \<Longrightarrow> live_at h x" for x using exactD(3) [OF ex, of x] by simp
  show "exact ?h ext" if nz': "ob_refcount (obj_at ?h a) \<noteq> 0"
  proof -
    have hs: "holds ?h x = holds h x" for x
      using nz nz' live sh by (cases "x = a") (simp_all add: holds_def obj_at_rc_dec)
    have e: "edges ?h = edges h" by (simp add: edges_def fun_eq_iff len hs ch)
    have "unat (ob_refcount (obj_at ?h x)) = ext x + edges ?h x" if "live_at ?h x" "\<not> ob_shared (obj_at ?h x)" for x
      using un exactD(1) [OF ex, of x] that live sh e by (cases "x = a") (simp_all add: obj_at_rc_dec)
    then show ?thesis
    proof (rule exactI)
      show "live_at ?h x" if "holds ?h b" "x \<in> set (obj_children ?h b)" for b x
        using that exactD(2) [OF ex] unfolding hs ch live by blast
    qed (simp_all add: ext live)
  qed
  assume z: "ob_refcount (obj_at ?h a) = 0"
  then have z0: "ext a = 0" "edges h a = 0" using un by simp_all
  have na: "\<not> holds ?h a" using z a(2) sh by (simp add: holds_def)
  note lose = edges_lose [OF len ha na other]
  have self: "count_list (obj_children h a) a = 0" "edges ?h a = 0" using lose [of a] z0(2) by simp_all
  have hs: "holds ?h x = (holds h x \<and> x \<noteq> a)" for x
    using na mem_cong(2) [OF len other, of x] by (cases "x = a") simp_all
  have "unat (ob_refcount (obj_at ?h x)) = ext x + count_list (obj_children h a) x + edges ?h x"
    if "live_at ?h x" "\<not> ob_shared (obj_at ?h x)" for x
    using un exactD(1) [OF ex, of x] that live sh lose [of x] self z0 by (cases "x = a") (simp_all add: obj_at_rc_dec)
  moreover have "live_at ?h x" if "0 < ext x + count_list (obj_children h a) x" for x
  proof (cases "0 < ext x")
    case False
    with that have "x \<in> set (obj_children h a)" using count_notin [of x "obj_children h a"] by (cases "x \<in> set (obj_children h a)") auto
    then show ?thesis using exactD(2) [OF ex ha] live by simp
  qed (simp add: ext live)
  moreover have "live_at ?h x" if "holds ?h b" "x \<in> set (obj_children ?h b)" for b x
    using that exactD(2) [OF ex] unfolding hs ch live by blast
  ultimately have "exact ?h (\<lambda>x. ext x + count_list (obj_children h a) x)" by (intro exactI)
  with z0 self show "exact ?h (\<lambda>x. ext x + count_list (obj_children h a) x) \<and>
      ext a + count_list (obj_children h a) a = 0 \<and> edges ?h a = 0" by simp
qed

text \<open>Dropping the box of an object nobody refers to.\<close>

lemma obj_at_drop_box:
  "obj_at (drop_box a h) x =
     (if x = a \<and> a < length (hp_objs h) then (obj_at h a)\<lparr>ob_freed := True\<rparr> else obj_at h x)"
  by (simp add: drop_box_def obj_at_upd)

lemma drop_box_exact:
  assumes ex: "exact h ext" and a: "live_at h a" "\<not> ob_shared (obj_at h a)" "ob_refcount (obj_at h a) = 0"
  shows "exact (drop_box a h) ext"
proof -
  let ?h = "drop_box a h"
  have al: "a < length (hp_objs h)" using a(1) by (simp add: live_at_def)
  have len: "length (hp_objs ?h) = length (hp_objs h)" by (simp add: drop_box_def)
  have z: "ext a = 0" "edges h a = 0" using exactD(1) [OF ex a(1,2)] a(3) by simp_all
  have live: "live_at ?h x = (live_at h x \<and> x \<noteq> a)" for x
    using al by (auto simp: live_at_def len obj_at_drop_box)
  have same: "ob_shared (obj_at ?h x) = ob_shared (obj_at h x)" "ob_refcount (obj_at ?h x) = ob_refcount (obj_at h x)"
    "obj_children ?h x = obj_children h x" for x
    by (simp_all add: obj_at_drop_box obj_children_def)
  have hs: "holds ?h x = holds h x" for x using a by (auto simp: holds_def live same)
  have e: "edges ?h = edges h" by (simp add: edges_def fun_eq_iff len hs same)
  show ?thesis
  proof (rule exactI)
    show "unat (ob_refcount (obj_at ?h x)) = ext x + edges ?h x" if "live_at ?h x" "\<not> ob_shared (obj_at ?h x)" for x
      using exactD(1) [OF ex, of x] that by (simp add: live same e)
    show "live_at ?h x" if "holds ?h b" "x \<in> set (obj_children ?h b)" for b x
      using that exactD(2) [OF ex, of b x] edges_pos [of h b x] z(2) by (auto simp: live hs same)
    show "live_at ?h x" if "0 < ext x" for x using that exactD(3) [OF ex that] z(1) by (auto simp: live)
  qed
qed

lemma possible_root_mem:
  "length (hp_objs (possible_root a h)) = length (hp_objs h)" "same_mem (obj_at h x) (obj_at (possible_root a h) x)"
  by (simp_all add: possible_root_def Let_def set_color_def set_buffered_def obj_at_upd same_mem_def)

lemma set_color_mem: "same_mem (obj_at h x) (obj_at (set_color a c h) x)" "length (hp_objs (set_color a c h)) = length (hp_objs h)"
  by (simp_all add: set_color_def obj_at_upd same_mem_def)

lemma doomed_cong:
  assumes "doomed h as" and "\<And>a. a \<in> set as \<Longrightarrow> live_at h' a" and "\<And>a. a \<in> set as \<Longrightarrow> ob_shared (obj_at h' a) = ob_shared (obj_at h a)"
    and "\<And>a. a \<in> set as \<Longrightarrow> ob_refcount (obj_at h' a) = ob_refcount (obj_at h a)"
  shows "doomed h' as"
  using assms by (simp add: doomed_def)

lemma exact_drop_shared:
  assumes "exact h (\<lambda>x. ext x + (if a = x then 1 else 0))" and "ob_shared (obj_at h a)"
  shows "exact h ext"
proof (rule exactI)
  show "unat (ob_refcount (obj_at h x)) = ext x + edges h x" if "live_at h x" "\<not> ob_shared (obj_at h x)" for x
    using exactD(1) [OF assms(1) that] that assms(2) by (auto split: if_splits)
  show "live_at h x" if "holds h b" "x \<in> set (obj_children h b)" for b x using exactD(2) [OF assms(1) that] .
  show "live_at h x" if "0 < ext x" for x using exactD(3) [OF assms(1), of x] that by simp
qed

lemma doomed_dec:
  assumes "doomed h as" and "ob_refcount (obj_at h a) \<noteq> 0"
  shows "doomed (rc_dec a h) as" and "a \<notin> set as"
proof -
  show na: "a \<notin> set as" using assms by (auto simp: doomed_def)
  show "doomed (rc_dec a h) as"
    by (rule doomed_cong [OF assms(1)]) (use na assms(1) in \<open>auto simp: obj_at_rc_dec doomed_def live_at_def rc_dec_def obj_at_upd\<close>)
qed

lemma release_tasks_ok:
  "\<lbrakk>exact h (\<lambda>x. ext x + pending ts x); doomed h (shallow ts)\<rbrakk> \<Longrightarrow>
   \<exists>h'. release_tasks ts h = Some h' \<and> exact h' ext"
proof (induction ts h rule: release_tasks.induct)
  case (1 h)
  then show ?case by simp
next
  case (2 a ts h)
  have live: "live_at h a" using exactD(3) [OF 2(7), of a] by simp
  have ex: "exact h (\<lambda>x. (ext x + pending ts x) + (if a = x then 1 else 0))"
  proof -
    have "(\<lambda>x. ext x + pending (Release a # ts) x) = (\<lambda>x. (ext x + pending ts x) + (if a = x then 1 else 0))"
      by (simp add: fun_eq_iff)
    with 2(7) show ?thesis by simp
  qed
  show ?case
  proof (cases "ob_shared (obj_at h a)")
    case True
    with 2(1) live exact_drop_shared [OF ex True] 2(8) show ?thesis by simp
  next
    case False
    note dec = dec_exact [OF ex live False]
    let ?h = "rc_dec a h"
    have d: "doomed ?h (shallow ts)" "a \<notin> set (shallow ts)" using doomed_dec [of h "shallow ts" a] 2(8) dec(1) by auto
    have ch: "obj_children ?h a = obj_children h a" by (simp add: obj_at_rc_dec obj_children_def)
    show ?thesis
    proof (cases "ob_refcount (obj_at ?h a) = 0")
      case True
      have ex': "exact ?h (\<lambda>x. ext x + pending ts x + count_list (obj_children ?h a) x)" using dec(3) [OF True] ch by simp
      have la: "live_at ?h a" "\<not> ob_shared (obj_at ?h a)"
        using live False by (simp_all add: live_at_def rc_dec_def obj_at_upd)
      show ?thesis
      proof (cases "hp_mode ?h")
        case Trace
        have "exact (drop_box a ?h) (\<lambda>x. ext x + pending (map Release (obj_children ?h a) @ ts) x)"
          using drop_box_exact [OF ex' la True] by (simp add: add_ac)
        moreover have "doomed (drop_box a ?h) (shallow ts)"
          by (rule doomed_cong [OF d(1)]) (use d in \<open>auto simp: obj_at_drop_box doomed_def live_at_def drop_box_def obj_at_upd\<close>)
        ultimately show ?thesis using 2(2) [OF _ False dec(1) refl refl Trace True] live False dec(1) True Trace by (simp add: Let_def)
      next
        case TrialDeletion
        have "exact ?h (\<lambda>x. ext x + pending (map Release (obj_children ?h a) @ FreeShallow a # ts) x)"
          using ex' by (simp add: add_ac)
        moreover have "doomed ?h (shallow (map Release (obj_children ?h a) @ FreeShallow a # ts))"
          using d la True by (simp add: doomed_def)
        ultimately show ?thesis using 2(4) [OF _ False dec(1) refl refl TrialDeletion True] live False dec(1) True TrialDeletion by (simp add: Let_def)
      qed
    next
      case nz: False
      note ex' = dec(2) [OF nz]
      let ?r = "possible_root a ?h"
      have r: "exact ?r (\<lambda>x. ext x + pending ts x)" "doomed ?r (shallow ts)"
        using exact_cong(2) [OF possible_root_mem] ex' d(1) mem_cong [OF possible_root_mem] by (simp_all add: doomed_def)
      show ?thesis
      proof (cases "hp_mode ?h")
        case Trace
        then show ?thesis using 2(3) [OF _ False dec(1) refl refl Trace] nz live False dec(1) ex' d(1) by (simp add: Let_def)
      next
        case TrialDeletion
        then show ?thesis
          using 2(5) [OF _ False dec(1) refl refl TrialDeletion] 2(6) [OF _ False dec(1) refl refl TrialDeletion]
            nz live False dec(1) ex' d(1) r by (simp add: Let_def)
      qed
    qed
  qed
next
  case (3 a ts h)
  then have a: "live_at h a" "\<not> ob_shared (obj_at h a)" "ob_refcount (obj_at h a) = 0" "a \<notin> set (shallow ts)" "doomed h (shallow ts)"
    by (simp_all add: doomed_def)
  have ex: "exact h (\<lambda>x. ext x + pending ts x)" using 3(2) by simp
  have "exact (free_shallow a h) (\<lambda>x. ext x + pending ts x) \<and> doomed (free_shallow a h) (shallow ts)"
  proof (cases "hp_mode h = TrialDeletion \<and> ob_buffered (obj_at h a)")
    case True
    with ex a(5) show ?thesis
      using exact_cong(2) [OF set_color_mem(2,1)] mem_cong [OF set_color_mem(2,1)] by (simp add: free_shallow_def doomed_def)
  next
    case False
    have "doomed (drop_box a h) (shallow ts)"
      by (rule doomed_cong [OF a(5)]) (use a in \<open>auto simp: obj_at_drop_box doomed_def live_at_def drop_box_def obj_at_upd\<close>)
    with False drop_box_exact [OF ex a(1-3)] show ?thesis by (auto simp: free_shallow_def)
  qed
  with 3(1) a(1) show ?case by simp
qed

lemma release_counts:
  assumes "exact h (ext(a := Suc (ext a)))"
  shows "\<exists>h'. release (Ptr a) h = Some h' \<and> exact h' ext"
proof -
  have "(\<lambda>x. ext x + pending [Release a] x) = ext(a := Suc (ext a))" by (simp add: fun_eq_iff)
  with assms release_tasks_ok [of h ext "[Release a]"] show ?thesis by (simp add: release_def doomed_def)
qed

text \<open>
  C34: releasing a reference is memory safe and keeps every count exact, in both collector modes. If
  the counts are exact and the caller owns a reference to \<open>v\<close>, the release and the whole cascade of
  frees it causes succeed without touching freed memory or driving a count below zero, and afterwards
  the counts are exact for one owned reference less.
\<close>

theorem release_exact:
  assumes "exact h (ext(a := Suc (ext a)))"
  shows "\<exists>h'. release (Ptr a) h = Some h' \<and> exact h' ext"
  by (rule release_counts) (rule assms)

section \<open>Retaining, allocating and updating slots\<close>

definition ref_count :: "gc_val \<Rightarrow> addr \<Rightarrow> nat" where
  "ref_count v x = (if v = Ptr x then 1 else 0)"

text \<open>A value the program may store: an immediate, or a live object whose count is not at its maximum.\<close>

definition storable :: "heap \<Rightarrow> gc_val \<Rightarrow> bool" where
  "storable h v = (case v of Imm \<Rightarrow> True | Ptr a \<Rightarrow> live_at h a \<and> (ob_shared (obj_at h a) \<or> holds h a \<and> Suc (unat (ob_refcount (obj_at h a))) < 2 ^ 32))"

lemma unat_plus_one: "Suc (unat (w :: 32 word)) < 2 ^ 32 \<Longrightarrow> unat (w + 1) = Suc (unat w)"
  by (simp add: unat_word_ariths)

lemma inc_exact:
  assumes ex: "exact h ext" and st: "storable h v"
  shows "exact (inc_ref v h) (\<lambda>x. ext x + ref_count v x)"
    and "length (hp_objs (inc_ref v h)) = length (hp_objs h)"
    and "live_at (inc_ref v h) x = live_at h x" "holds (inc_ref v h) x = holds h x"
    and "ob_payload (obj_at (inc_ref v h) x) = ob_payload (obj_at h x)"
    and "ob_shared (obj_at (inc_ref v h) x) = ob_shared (obj_at h x)"
proof -
  let ?h = "inc_ref v h"
  show len: "length (hp_objs ?h) = length (hp_objs h)" by (simp add: inc_ref_def rc_inc_def split: gc_val.split)
  have at: "obj_at ?h x = (if v = Ptr x \<and> \<not> ob_shared (obj_at h x) \<and> x < length (hp_objs h)
      then (obj_at h x)\<lparr>ob_refcount := ob_refcount (obj_at h x) + 1\<rparr> else obj_at h x)" for x
    by (auto simp: inc_ref_def rc_inc_def obj_at_upd split: gc_val.split)
  have live: "live_at ?h x = live_at h x" for x by (simp add: live_at_def len at)
  have sh: "ob_shared (obj_at ?h x) = ob_shared (obj_at h x)" for x by (simp add: at)
  have rc: "unat (ob_refcount (obj_at ?h x)) = unat (ob_refcount (obj_at h x)) + ref_count v x"
    if "live_at h x" "\<not> ob_shared (obj_at h x)" for x
    using that st unat_plus_one [of "ob_refcount (obj_at h x)"] by (auto simp: at ref_count_def storable_def live_at_def)
  have hs: "holds ?h x = holds h x" for x
  proof (cases "v = Ptr x \<and> \<not> ob_shared (obj_at h x)")
    case True
    then have "holds h x" "live_at h x" using st by (auto simp: storable_def)
    moreover have "ob_refcount (obj_at ?h x) \<noteq> 0"
      using rc [of x] True \<open>live_at h x\<close> by (auto simp: ref_count_def)
    ultimately show ?thesis by (simp add: holds_def live)
  qed (auto simp: holds_def live at)
  have ch: "obj_children ?h x = obj_children h x" for x by (simp add: obj_children_def at)
  have e: "edges ?h = edges h" by (simp add: edges_def fun_eq_iff len hs ch)
  show "live_at ?h x = live_at h x" "holds ?h x = holds h x" "ob_shared (obj_at ?h x) = ob_shared (obj_at h x)"
    "ob_payload (obj_at ?h x) = ob_payload (obj_at h x)"
    by (simp_all add: live hs sh at)
  show "exact ?h (\<lambda>x. ext x + ref_count v x)"
  proof (rule exactI)
    show "unat (ob_refcount (obj_at ?h x)) = ext x + ref_count v x + edges ?h x"
      if "live_at ?h x" "\<not> ob_shared (obj_at ?h x)" for x
      using that exactD(1) [OF ex, of x] rc [of x] by (simp add: live sh e)
    show "live_at ?h x" if "holds ?h b" "x \<in> set (obj_children ?h b)" for b x
      using that exactD(2) [OF ex] unfolding hs ch live by blast
    show "live_at ?h x" if "0 < ext x + ref_count v x" for x
      using that exactD(3) [OF ex, of x] st unfolding live by (auto simp: ref_count_def storable_def split: if_splits)
  qed
qed

text \<open>Changing the payload of an object that holds its references.\<close>

lemma payload_exact:
  assumes ex: "exact h e" and c: "holds h c"
    and count: "\<And>x. e' x + count_list (pointers (payload_values p)) x = e x + count_list (obj_children h c) x"
    and new: "\<And>x. x \<in> set (pointers (payload_values p)) \<Longrightarrow> live_at h x"
  shows "exact (upd_obj c (ob_payload_update (\<lambda>_. p)) h) e'" (is "exact ?h e'")
proof -
  have cl: "c < length (hp_objs h)" using holds_live [OF c] by simp
  have at: "obj_at ?h x = (if x = c then (obj_at h c)\<lparr>ob_payload := p\<rparr> else obj_at h x)" for x
    using cl by (simp add: obj_at_upd)
  have live: "live_at ?h x = live_at h x" and sh: "ob_shared (obj_at ?h x) = ob_shared (obj_at h x)"
    and hs: "holds ?h x = holds h x" and rc: "ob_refcount (obj_at ?h x) = ob_refcount (obj_at h x)" for x
    by (simp_all add: live_at_def holds_def at)
  have ch: "obj_children ?h x = (if x = c then pointers (payload_values p) else obj_children h x)" for x
    by (simp add: obj_children_def at)
  let ?A = "{b. b < length (hp_objs h) \<and> holds h b}"
  have cA: "c \<in> ?A" using c cl by simp
  have e: "edges ?h x + count_list (obj_children h c) x = edges h x + count_list (pointers (payload_values p)) x" for x
  proof -
    have "edges h x = count_list (obj_children h c) x + (\<Sum>b \<in> ?A - {c}. count_list (obj_children h b) x)"
      unfolding edges_def by (rule sum.remove) (use cA in auto)
    moreover have "edges ?h x = count_list (obj_children ?h c) x + (\<Sum>b \<in> ?A - {c}. count_list (obj_children ?h b) x)"
      unfolding edges_def length_upd_obj hs by (rule sum.remove) (use cA in auto)
    moreover have "(\<Sum>b \<in> ?A - {c}. count_list (obj_children ?h b) x) = (\<Sum>b \<in> ?A - {c}. count_list (obj_children h b) x)"
      by (intro sum.cong) (auto simp: ch)
    ultimately show ?thesis by (simp add: ch)
  qed
  have pos: "0 < count_list xs x \<Longrightarrow> x \<in> set xs" for xs x by (metis count_notin less_numeral_extra(3))
  show ?thesis
  proof (rule exactI)
    show "unat (ob_refcount (obj_at ?h x)) = e' x + edges ?h x" if "live_at ?h x" "\<not> ob_shared (obj_at ?h x)" for x
      using that exactD(1) [OF ex, of x] count [of x] e [of x] by (simp add: live sh rc)
    show "live_at ?h x" if "holds ?h b" "x \<in> set (obj_children ?h b)" for b x
      using that exactD(2) [OF ex, of b x] new [of x] by (auto simp: live hs ch split: if_splits)
    show "live_at ?h x" if "0 < e' x" for x
      using that count [of x] exactD(3) [OF ex, of x] exactD(2) [OF ex c, of x] pos [of "obj_children h c" x]
      by (cases "0 < e x") (auto simp: live)
  qed
qed

lemma drop_old_exact:
  assumes "exact h (\<lambda>x. ext x + ref_count v x)"
  shows "\<exists>h'. drop_old v h = Some h' \<and> exact h' ext"
proof (cases v)
  case Imm
  with assms show ?thesis by (simp add: drop_old_def dec_ref_def ref_count_def)
next
  case (Ptr a)
  have rc: "(\<lambda>x. ext x + ref_count v x) = (\<lambda>x. ext x + (if a = x then 1 else 0))" by (auto simp: ref_count_def Ptr)
  note ex = assms [unfolded rc]
  have live: "live_at h a" using exactD(3) [OF ex, of a] by simp
  show ?thesis
  proof (cases "ob_shared (obj_at h a)")
    case True
    with exact_drop_shared [OF ex True] live show ?thesis by (simp add: drop_old_def dec_ref_def Ptr)
  next
    case False
    note dec = dec_exact [OF ex live False]
    let ?h = "rc_dec a h"
    show ?thesis
    proof (cases "ob_refcount (obj_at ?h a) = 0")
      case nz: False
      with dec live False show ?thesis by (simp add: drop_old_def dec_ref_def Ptr)
    next
      case True
      have la: "live_at ?h a" "\<not> ob_shared (obj_at ?h a)" using live False by (simp_all add: live_at_def rc_dec_def obj_at_upd)
      have ch: "obj_children ?h a = obj_children h a" by (simp add: obj_at_rc_dec obj_children_def)
      have "exact (drop_box a ?h) (\<lambda>x. ext x + pending (map Release (obj_children ?h a)) x)"
        using drop_box_exact [OF _ la True] dec(3) [OF True] ch by simp
      from release_tasks_ok [OF this] obtain h' where "release_tasks (map Release (obj_children ?h a)) (drop_box a ?h) = Some h'" "exact h' ext"
        by (auto simp: doomed_def)
      then show ?thesis using True live False dec(1) la by (simp add: drop_old_def dec_ref_def free_obj_def Ptr)
    qed
  qed
qed

lemma pointers_update:
  "i < length vs \<Longrightarrow> count_list (pointers (vs[i := v])) x + ref_count (vs ! i) x = count_list (pointers vs) x + ref_count v x"
proof (induction vs arbitrary: i)
  case (Cons u us)
  have cons: "count_list (pointers (w # ws)) x = ref_count w x + count_list (pointers ws) x" for w ws
    by (cases w) (simp_all add: ref_count_def)
  show ?case
  proof (cases i)
    case 0
    then show ?thesis by (simp add: cons)
  next
    case (Suc j)
    with Cons show ?thesis by (simp add: cons)
  qed
qed simp

lemma mem_pointers: "x \<in> set (pointers vs) \<longleftrightarrow> Ptr x \<in> set vs"
  by (induction vs rule: pointers.induct) auto

lemma swap_payload:
  assumes ex: "exact h ext" and c: "holds h c" and st: "storable h v"
    and count: "\<And>x. count_list (pointers (payload_values p)) x + ref_count old x = count_list (obj_children h c) x + ref_count v x"
    and new: "\<And>x. x \<in> set (pointers (payload_values p)) \<Longrightarrow> v = Ptr x \<or> x \<in> set (obj_children h c)"
  shows "\<exists>h'. drop_old old (upd_obj c (ob_payload_update (\<lambda>_. p)) (inc_ref v h)) = Some h' \<and> exact h' ext"
proof -
  note inc = inc_exact [OF ex st]
  have ch: "obj_children (inc_ref v h) c = obj_children h c" by (simp add: obj_children_def inc(5))
  have "exact (upd_obj c (ob_payload_update (\<lambda>_. p)) (inc_ref v h)) (\<lambda>x. ext x + ref_count old x)"
  proof (rule payload_exact [OF inc(1)])
    show "holds (inc_ref v h) c" using c inc(4) by simp
    show "ext x + ref_count old x + count_list (pointers (payload_values p)) x =
        ext x + ref_count v x + count_list (obj_children (inc_ref v h) c) x" for x
      using count [of x] by (simp add: ch)
    show "live_at (inc_ref v h) x" if "x \<in> set (pointers (payload_values p))" for x
      using new [OF that] exactD(2) [OF ex c, of x] st by (auto simp: inc(3) storable_def)
  qed
  then show ?thesis by (rule drop_old_exact)
qed

lemma slot_updates:
  assumes "exact h ext" and "holds h c" and "storable h v"
  shows "ob_payload (obj_at h c) = PCell old \<Longrightarrow> \<exists>h'. cell_set c v h = Some h' \<and> exact h' ext"
    and "ob_payload (obj_at h c) = PObject vs \<Longrightarrow> i < length vs \<Longrightarrow> \<exists>h'. set_slot c i v h = Some h' \<and> exact h' ext"
proof -
  have live: "live_at h c" using holds_live [OF assms(2)] by simp
  show "\<exists>h'. cell_set c v h = Some h' \<and> exact h' ext" if p: "ob_payload (obj_at h c) = PCell old"
  proof -
    have one: "count_list (pointers [u]) x = ref_count u x" for u x by (cases u) (simp_all add: ref_count_def)
    have "\<exists>h'. drop_old old (upd_obj c (ob_payload_update (\<lambda>_. PCell v)) (inc_ref v h)) = Some h' \<and> exact h' ext"
      by (rule swap_payload [OF assms]) (auto simp: obj_children_def p one mem_pointers simp del: pointers.simps)
    then show ?thesis using live p by (simp add: cell_set_def)
  qed
  show "\<exists>h'. set_slot c i v h = Some h' \<and> exact h' ext" if p: "ob_payload (obj_at h c) = PObject vs" "i < length vs"
  proof -
    have "\<exists>h'. drop_old (vs ! i) (upd_obj c (ob_payload_update (\<lambda>_. PObject (vs[i := v]))) (inc_ref v h)) = Some h' \<and> exact h' ext"
    proof (rule swap_payload [OF assms])
      show "count_list (pointers (payload_values (PObject (vs[i := v])))) x + ref_count (vs ! i) x =
          count_list (obj_children h c) x + ref_count v x" for x
        using pointers_update [OF p(2), of v x] by (simp add: obj_children_def p(1))
      show "v = Ptr x \<or> x \<in> set (obj_children h c)" if "x \<in> set (pointers (payload_values (PObject (vs[i := v]))))" for x
        using that set_update_subset_insert [of vs i v] by (auto simp: mem_pointers obj_children_def p(1))
    qed
    then show ?thesis using live p by (simp add: set_slot_def replace_slot_def)
  qed
qed

text \<open>
  Updating a cell or an object slot keeps every count exact. The new occupant is retained before
  the old one is dropped, so even storing what is already there, or storing an object into itself, is
  safe; the displaced value is released exactly once.
\<close>

theorem slot_updates_exact:
  assumes "exact h ext" and "holds h c" and "storable h v"
  shows "(\<forall>old. ob_payload (obj_at h c) = PCell old \<longrightarrow> (\<exists>h'. cell_set c v h = Some h' \<and> exact h' ext)) \<and>
    (\<forall>vs i. ob_payload (obj_at h c) = PObject vs \<and> i < length vs \<longrightarrow> (\<exists>h'. set_slot c i v h = Some h' \<and> exact h' ext))"
  using slot_updates [OF assms] by blast

lemma alloc_with_fields:
  assumes "alloc_with p shared h = (a, h')"
  shows "a = length (hp_objs h)" "length (hp_objs h') = Suc (length (hp_objs h))" "hp_mode h' = hp_mode h"
    "hp_candidates h' = hp_candidates h"
    "x \<noteq> a \<Longrightarrow> obj_at h' x = obj_at h x" "ob_refcount (obj_at h' a) = 1" "ob_shared (obj_at h' a) = shared"
    "ob_payload (obj_at h' a) = p" "\<not> ob_freed (obj_at h' a)" "ob_color (obj_at h' a) = Black" "\<not> ob_buffered (obj_at h' a)"
  using assms by (auto simp: alloc_with_def Let_def live_inc_def obj_at_def nth_append)

lemma alloc_counts:
  assumes "exact h (\<lambda>x. ext x + count_list (pointers (payload_values p)) x)" and "alloc_with p False h = (a, h')"
  shows "exact h' (ext(a := 1)) \<and> \<not> live_at h a \<and> live_at h' a"
proof -
  note f = alloc_with_fields [OF assms(2)]
  have na: "\<not> live_at h a" using f(1) by (simp add: live_at_def)
  have ext: "0 < ext x \<Longrightarrow> live_at h x" and chl: "x \<in> set (pointers (payload_values p)) \<Longrightarrow> live_at h x" for x
    using exactD(3) [OF assms(1), of x] count_list_0_iff [of "pointers (payload_values p)" x] by auto
  have za: "ext a = 0" "count_list (pointers (payload_values p)) a = 0" using ext [of a] chl [of a] na count_notin [of a] by blast+
  have live: "live_at h' x = (live_at h x \<or> x = a)" for x
    using f na by (auto simp: live_at_def)
  have ch: "obj_children h' x = (if x = a then pointers (payload_values p) else obj_children h x)" for x
    using f(5,8) by (simp add: obj_children_def)
  have hs: "holds h' x = (holds h x \<or> x = a)" for x
    using f na live [of x] by (cases "x = a") (auto simp: holds_def)
  have nh: "\<not> holds h a" using na holds_live by blast
  let ?A = "{b. b < length (hp_objs h) \<and> holds h b}"
  have A: "{b. b < length (hp_objs h') \<and> holds h' b} = insert a ?A" using f(1,2) by (auto simp: hs less_Suc_eq dest: holds_live)
  have e: "edges h' x = count_list (pointers (payload_values p)) x + edges h x" for x
  proof -
    have "edges h' x = count_list (obj_children h' a) x + (\<Sum>b \<in> ?A. count_list (obj_children h' b) x)"
      unfolding edges_def A by (rule sum.insert) (use nh in auto)
    also have "(\<Sum>b \<in> ?A. count_list (obj_children h' b) x) = edges h x"
      unfolding edges_def by (intro sum.cong) (use nh in \<open>auto simp: ch\<close>)
    finally show ?thesis by (simp add: ch)
  qed
  have ea: "edges h a = 0" unfolding edges_def
    using exactD(2) [OF assms(1)] na by (intro sum.neutral ballI count_notin) blast
  have "exact h' (ext(a := 1))"
  proof (rule exactI)
    show "unat (ob_refcount (obj_at h' x)) = (ext(a := 1)) x + edges h' x" if "live_at h' x" "\<not> ob_shared (obj_at h' x)" for x
      using that exactD(1) [OF assms(1), of x] f(5) [of x] f(6) za ea by (cases "x = a") (simp_all add: e live)
    show "live_at h' x" if "holds h' b" "x \<in> set (obj_children h' b)" for b x
      using that exactD(2) [OF assms(1), of b x] chl [of x] by (auto simp: hs live ch split: if_splits)
    show "live_at h' x" if "0 < (ext(a := 1)) x" for x using that ext [of x] by (auto simp: live split: if_splits)
  qed
  with na show ?thesis by (simp add: live)
qed

text \<open>
  Allocation transfers references exactly. The object takes over the references its payload
  stores, and the caller gets one reference to a fresh address.
\<close>

theorem alloc_exact:
  assumes "exact h (\<lambda>x. ext x + count_list (pointers (payload_values p)) x)" and "alloc_with p False h = (a, h')"
  shows "exact h' (ext(a := 1)) \<and> \<not> live_at h a \<and> live_at h' a"
  by (rule alloc_counts) (rule assms)+

section \<open>A concrete heap\<close>

text \<open>An empty list, owned by the program.\<close>

definition one_list :: "collector_mode \<Rightarrow> heap" where
  "one_list m = snd (alloc_with (PList []) False (heap_new m))"

lemma empty_exact: "exact (heap_new m) (\<lambda>_. 0)"
  by (rule exactI) (simp_all add: live_at_def heap_new_def holds_def)

lemma one_list_exact: "exact (one_list m) ((\<lambda>_. 0)(0 := 1))"
proof -
  have a: "alloc_with (PList []) False (heap_new m) = (0, one_list m)"
    by (simp add: one_list_def alloc_with_def Let_def live_inc_def heap_new_def)
  from alloc_counts [OF _ a, of "\<lambda>_. 0"] empty_exact [of m] show ?thesis by simp
qed

lemma one_list_shape: "holds (one_list m) 0" "ob_payload (obj_at (one_list m) 0) = PList []" "hp_mode (one_list m) = m"
  by (simp_all add: one_list_def alloc_with_def Let_def live_inc_def heap_new_def holds_def live_at_def obj_at_def)

theorem release_exact_witness: "\<exists>h'. release (Ptr 0) (one_list Trace) = Some h' \<and> exact h' (\<lambda>_. 0)"
proof (rule release_exact)
  show "exact (one_list Trace) ((\<lambda>_. 0)(0 := Suc 0))" using one_list_exact by simp
qed

text \<open>A cell and a list, both owned by the program; the list is stored into the cell.\<close>

definition cell_and_list :: heap where
  "cell_and_list = snd (alloc_with (PCell Imm) False (one_list Trace))"

lemma cell_and_list_exact: "exact cell_and_list ((\<lambda>_. 0)(0 := 1, 1 := 1))"
proof -
  have a: "alloc_with (PCell Imm) False (one_list Trace) = (1, cell_and_list)"
    by (simp add: cell_and_list_def alloc_with_def Let_def one_list_def live_inc_def heap_new_def)
  from alloc_counts [OF _ a, of "(\<lambda>_. 0)(0 := 1)"] one_list_exact [of Trace] show ?thesis by (simp add: fun_upd_def)
qed

theorem slot_updates_exact_witness:
  "\<exists>h'. cell_set 1 (Ptr 0) cell_and_list = Some h' \<and> exact h' ((\<lambda>_. 0)(0 := 1, 1 := 1))"
proof -
  have "holds cell_and_list 0" "ob_refcount (obj_at cell_and_list 0) = 1" unfolding holds_def by code_simp+
  then have st: "storable cell_and_list (Ptr 0)" using holds_live by (simp add: storable_def)
  have c: "holds cell_and_list 1" "ob_payload (obj_at cell_and_list 1) = PCell Imm" unfolding holds_def by code_simp+
  from slot_updates_exact [OF cell_and_list_exact c(1) st] c(2) show ?thesis by blast
qed

theorem alloc_exact_witness:
  "exact (snd (alloc_with (PCell (Ptr 0)) False (one_list Trace))) ((\<lambda>_. 0)(1 := 1)) \<and>
   \<not> live_at (one_list Trace) 1 \<and> live_at (snd (alloc_with (PCell (Ptr 0)) False (one_list Trace))) 1"
proof (rule alloc_exact)
  show "exact (one_list Trace) (\<lambda>x. 0 + count_list (pointers (payload_values (PCell (Ptr 0)))) x)"
  proof -
    have "(\<lambda>x. 0 + count_list (pointers (payload_values (PCell (Ptr 0)))) x) = ((\<lambda>_. 0)(0 := 1))" by (simp add: fun_eq_iff)
    with one_list_exact [of Trace] show ?thesis by simp
  qed
  show "alloc_with (PCell (Ptr 0)) False (one_list Trace) = (1, snd (alloc_with (PCell (Ptr 0)) False (one_list Trace)))"
    by (simp add: alloc_with_def Let_def one_list_def live_inc_def heap_new_def)
qed

section \<open>The candidate buffer\<close>

text \<open>The buffer holds exactly the live objects marked as buffered, each once.\<close>

definition buffer_ok :: "heap \<Rightarrow> bool" where
  "buffer_ok h = (distinct (hp_candidates h) \<and> set (hp_candidates h) = {a. live_at h a \<and> ob_buffered (obj_at h a)})"

lemma buffer_ok_cong:
  assumes "hp_candidates h' = hp_candidates h" and "\<And>a. ob_buffered (obj_at h' a) = ob_buffered (obj_at h a)"
    and "\<And>a. live_at h' a = live_at h a \<or> \<not> ob_buffered (obj_at h a)"
  shows "buffer_ok h' = buffer_ok h"
  using assms by (auto simp: buffer_ok_def) (metis+)?

lemma possible_root_buffer:
  assumes "buffer_ok h" and "live_at h a"
  shows "buffer_ok (possible_root a h)" and "hp_mode (possible_root a h) = hp_mode h"
proof -
  show "hp_mode (possible_root a h) = hp_mode h"
    by (simp add: possible_root_def Let_def set_color_def set_buffered_def upd_obj_def)
  have al: "a < length (hp_objs h)" using assms(2) by (simp add: live_at_def)
  show "buffer_ok (possible_root a h)"
  proof (cases "ob_color (obj_at h a) \<noteq> Purple \<and> \<not> ob_buffered (obj_at h a)")
    case True
    let ?h = "possible_root a h"
    have c: "hp_candidates ?h = hp_candidates h @ [a]" and l: "length (hp_objs ?h) = length (hp_objs h)"
      using True al by (simp_all add: possible_root_def Let_def set_color_def set_buffered_def obj_at_upd) (simp_all add: upd_obj_def)
    have at: "ob_buffered (obj_at ?h x) = (ob_buffered (obj_at h x) \<or> x = a)" "ob_freed (obj_at ?h x) = ob_freed (obj_at h x)" for x
      using True al by (auto simp: possible_root_def Let_def set_color_def set_buffered_def obj_at_upd)
    have "a \<notin> set (hp_candidates h)" using True assms(1) by (simp add: buffer_ok_def)
    then show ?thesis using assms by (auto simp: buffer_ok_def c at live_at_def l)
  next
    case False
    have "buffer_ok (possible_root a h) = buffer_ok h"
      by (rule buffer_ok_cong) (use False al in \<open>auto simp: possible_root_def Let_def set_color_def obj_at_upd live_at_def\<close>,
         auto simp: upd_obj_def)
    with assms(1) show ?thesis by simp
  qed
qed

lemma rc_dec_frame:
  "hp_mode (rc_dec a h) = hp_mode h" "hp_candidates (rc_dec a h) = hp_candidates h"
  "ob_buffered (obj_at (rc_dec a h) x) = ob_buffered (obj_at h x)" "live_at (rc_dec a h) x = live_at h x"
proof -
  show "hp_mode (rc_dec a h) = hp_mode h" "hp_candidates (rc_dec a h) = hp_candidates h"
    by (simp_all add: rc_dec_def upd_obj_def)
  show "ob_buffered (obj_at (rc_dec a h) x) = ob_buffered (obj_at h x)" "live_at (rc_dec a h) x = live_at h x"
    by (simp_all add: obj_at_rc_dec live_at_def) (simp add: rc_dec_def)
qed

lemma free_shallow_frame:
  "hp_mode (free_shallow a h) = hp_mode h" "hp_candidates (free_shallow a h) = hp_candidates h"
  "ob_buffered (obj_at (free_shallow a h) x) = ob_buffered (obj_at h x)"
  "hp_mode h = TrialDeletion \<Longrightarrow> live_at (free_shallow a h) x = live_at h x \<or> \<not> ob_buffered (obj_at h x)"
proof -
  show "hp_mode (free_shallow a h) = hp_mode h" "hp_candidates (free_shallow a h) = hp_candidates h"
    by (simp_all add: free_shallow_def set_color_def drop_box_def registry_remove_def live_dec_def upd_obj_def)
  show "ob_buffered (obj_at (free_shallow a h) x) = ob_buffered (obj_at h x)"
    by (simp add: free_shallow_def set_color_def obj_at_drop_box obj_at_upd)
  have len: "length (hp_objs (free_shallow a h)) = length (hp_objs h)"
    by (simp add: free_shallow_def set_color_def drop_box_def)
  show "live_at (free_shallow a h) x = live_at h x \<or> \<not> ob_buffered (obj_at h x)" if "hp_mode h = TrialDeletion"
    using that unfolding live_at_def len by (auto simp: free_shallow_def set_color_def obj_at_drop_box obj_at_upd)
qed

lemma release_keeps_buffer:
  "\<lbrakk>release_tasks ts h = Some h'; hp_mode h = TrialDeletion; buffer_ok h\<rbrakk> \<Longrightarrow> buffer_ok h' \<and> hp_mode h' = TrialDeletion"
proof (induction ts h rule: release_tasks.induct)
  case (2 a ts h)
  then have live: "live_at h a" by (simp split: if_splits)
  let ?h = "rc_dec a h"
  have h: "buffer_ok ?h" "hp_mode ?h = TrialDeletion" "live_at ?h a"
    using 2(8,9) live buffer_ok_cong [of ?h h] by (simp_all add: rc_dec_frame)
  note root = possible_root_buffer [OF h(1,3)]
  show ?case
  proof (cases "ob_shared (obj_at h a)")
    case True
    then show ?thesis using 2(1) [OF _ True] 2(7-9) live by simp
  next
    case False
    have nz: "ob_refcount (obj_at h a) \<noteq> 0" using 2(7) live False by (simp split: if_splits)
    note step = 2(7) [unfolded release_tasks.simps Let_def]
    show ?thesis
    proof (cases "ob_refcount (obj_at ?h a) = 0")
      case True
      then show ?thesis using step 2(4) [OF _ False nz refl refl h(2) True] live False nz h by simp
    next
      case go: False
      show ?thesis
      proof (cases "can_be_cyclic (ob_payload (obj_at ?h a))")
        case True
        then show ?thesis using step 2(5) [OF _ False nz refl refl h(2) go True] live False nz h go root by simp
      next
        case leaf: False
        then show ?thesis using step 2(6) [OF _ False nz refl refl h(2) go leaf] live False nz h go by simp
      qed
    qed
  qed
next
  case (3 a ts h)
  then have live: "live_at h a" by (simp split: if_splits)
  have h: "buffer_ok (free_shallow a h)" "hp_mode (free_shallow a h) = TrialDeletion"
    using 3(3,4) buffer_ok_cong [of "free_shallow a h" h] by (simp_all add: free_shallow_frame)
  with 3 live show ?case by simp
qed simp

text \<open>
  The release path never leaves a freed object in the candidate buffer. In \<open>TrialDeletion\<close> mode a
  release keeps the buffer equal to the set of live buffered objects: an object that dies while it
  is buffered keeps its box until the collector has taken it out.
\<close>

theorem release_keeps_buffer_live:
  assumes "hp_mode h = TrialDeletion" and "buffer_ok h" and "release v h = Some h'"
  shows "buffer_ok h' \<and> (\<forall>a \<in> set (hp_candidates h'). live_at h' a)"
proof -
  have "buffer_ok h'"
    using assms release_keeps_buffer [of "[Release _]" h h'] by (auto simp: release_def split: gc_val.splits)
  then show ?thesis by (simp add: buffer_ok_def)
qed

text \<open>A list with two owners, one of which lets go.\<close>

definition shared_list :: heap where
  "shared_list = inc_ref (Ptr 0) (one_list TrialDeletion)"

theorem release_keeps_buffer_live_witness:
  "hp_candidates (the (release (Ptr 0) shared_list)) = [0] \<and> live_at (the (release (Ptr 0) shared_list)) 0"
proof -
  have m: "hp_mode shared_list = TrialDeletion" by code_simp
  have "hp_candidates shared_list = []" "hp_objs shared_list = [obj_at shared_list 0]" "\<not> ob_buffered (obj_at shared_list 0)" by code_simp+
  then have "hp_candidates shared_list = []" "length (hp_objs shared_list) = 1" "\<not> ob_buffered (obj_at shared_list 0)"
    by (metis length_Cons list.size(3) One_nat_def)+
  then have b: "buffer_ok shared_list" by (auto simp: buffer_ok_def live_at_def)
  have r: "release (Ptr 0) shared_list = Some (the (release (Ptr 0) shared_list))" by code_simp
  have "hp_candidates (the (release (Ptr 0) shared_list)) = [0]" by code_simp
  with release_keeps_buffer_live [OF m b r] show ?thesis by simp
qed

text \<open>A list that a cell holds and that is buffered: its other owner has released it.\<close>

definition buffered_heap :: heap where
  "buffered_heap =
     (let h1 = snd (alloc_with (PList []) False (heap_new TrialDeletion));
          h2 = snd (alloc_with (PCell (Ptr 0)) False (inc_ref (Ptr 0) h1)) in
      the (release (Ptr 0) h2))"


end
