(* ===== verification/Gc_Collect.thy ===== *)
theory Gc_Collect
  imports Gc_Heap
begin

text \<open>
  The cycle collectors (\<open>crates/noeta-gc/src/lib.rs\<close>): the backup mark-sweep trace and the trial
  deletion of Bacon and Rajan, each in its exit and its safepoint form. The recursive walks of the
  source do nothing after their recursive calls return, so a walk is a loop over the list of objects
  still to visit, with an object's children put in front.
\<close>

section \<open>The walks\<close>

definition color_count :: "(color \<Rightarrow> bool) \<Rightarrow> heap \<Rightarrow> nat" where
  "color_count P h = length (filter (\<lambda>ob. P (ob_color ob)) (hp_objs h))"

lemma filter_update_count:
  "i < length xs \<Longrightarrow> Q (xs ! i) \<Longrightarrow> \<not> Q y \<Longrightarrow> length (filter Q (xs[i := y])) < length (filter Q xs)"
  "i < length xs \<Longrightarrow> Q (xs ! i) = Q y \<Longrightarrow> length (filter Q (xs[i := y])) = length (filter Q xs)"
  by (induction xs arbitrary: i) (auto simp: nth_Cons' split: nat.split)

lemma color_count_set:
  "a < length (hp_objs h) \<Longrightarrow> P (ob_color (obj_at h a)) \<Longrightarrow> \<not> P c \<Longrightarrow> color_count P (set_color a c h) < color_count P h"
  using filter_update_count(1) [of a "hp_objs h" "\<lambda>ob. P (ob_color ob)" "(obj_at h a)\<lparr>ob_color := c\<rparr>"]
  by (simp add: color_count_def set_color_def upd_obj_def obj_at_def)

lemma color_count_rc:
  "(\<And>ob. ob_color (f ob) = ob_color ob) \<Longrightarrow> color_count P (upd_obj a f h) = color_count P h"
  using filter_update_count(2) [of a "hp_objs h" "\<lambda>ob. P (ob_color ob)" "f (obj_at h a)"]
  by (cases "a < length (hp_objs h)") (simp_all add: color_count_def upd_obj_def obj_at_def list_update_beyond)

lemma color_count_rc_simps [simp]:
  "color_count P (rc_dec a h) = color_count P h" "color_count P (rc_inc a h) = color_count P h"
  by (simp_all add: rc_dec_def rc_inc_def color_count_rc)

lemma beyond_heap: "\<not> a < length (hp_objs h) \<Longrightarrow> obj_children h a = [] \<and> set_color a c h = h"
  by (simp add: obj_children_def obj_at_def nil_obj_def set_color_def upd_obj_def list_update_beyond)

lemma enter_smaller:
  assumes "P (ob_color (obj_at h a))" and "\<not> P c"
  shows "color_count P (set_color a c h) < color_count P h \<or>
    (color_count P (set_color a c h) = color_count P h \<and> length (obj_children h a @ as) < length (a # as))"
  using color_count_set [OF _ assms] beyond_heap [of a h c] by (cases "a < length (hp_objs h)") auto

lemma rc_walk_simps [simp]:
  "obj_children (rc_dec a h) x = obj_children h x" "obj_children (rc_inc a h) x = obj_children h x"
  "ob_color (obj_at (rc_dec a h) x) = ob_color (obj_at h x)" "ob_color (obj_at (rc_inc a h) x) = ob_color (obj_at h x)"
  by (simp_all add: obj_children_def rc_dec_def rc_inc_def obj_at_upd)

function mark_walk :: "addr list \<Rightarrow> heap \<Rightarrow> heap" where
  "mark_walk [] h = h"
| "mark_walk (a # as) h =
     (if ob_shared (obj_at h a) \<or> ob_color (obj_at h a) = Gray then mark_walk as h
      else mark_walk (obj_children h a @ as) (set_color a Gray h))"
  by pat_completeness auto
termination
proof (relation "inv_image (less_than <*lex*> less_than) (\<lambda>(as, h). (color_count (\<lambda>c. c \<noteq> Gray) h, length as))")
  fix a as h assume "\<not> (ob_shared (obj_at h a) \<or> ob_color (obj_at h a) = Gray)"
  with enter_smaller [of "\<lambda>c. c \<noteq> Gray" h a Gray as]
  show "((obj_children h a @ as, set_color a Gray h), (a # as, h)) \<in>
    inv_image (less_than <*lex*> less_than) (\<lambda>(as, h). (color_count (\<lambda>c. c \<noteq> Gray) h, length as))" by auto
qed (auto intro: wf_inv_image wf_lex_prod wf_less_than)

definition mark :: "gc_val \<Rightarrow> heap \<Rightarrow> heap" where
  "mark v h = (case v of Imm \<Rightarrow> h | Ptr a \<Rightarrow> mark_walk [a] h)"

function mark_gray_walk :: "addr list \<Rightarrow> heap \<Rightarrow> heap" where
  "mark_gray_walk [] h = h"
| "mark_gray_walk (c # cs) h =
     (if ob_shared (obj_at h c) then mark_gray_walk cs h
      else
        let h1 = rc_dec c h in
        if ob_color (obj_at h1 c) = Gray then mark_gray_walk cs h1
        else mark_gray_walk (obj_children h1 c @ cs) (set_color c Gray h1))"
  by pat_completeness auto
termination
proof (relation "inv_image (less_than <*lex*> less_than) (\<lambda>(as, h). (color_count (\<lambda>c. c \<noteq> Gray) h, length as))")
  fix a as h h1 assume "h1 = rc_dec a h" "ob_color (obj_at h1 a) \<noteq> Gray"
  with enter_smaller [of "\<lambda>c. c \<noteq> Gray" "rc_dec a h" a Gray as]
  show "((obj_children h1 a @ as, set_color a Gray h1), (a # as, h)) \<in>
    inv_image (less_than <*lex*> less_than) (\<lambda>(as, h). (color_count (\<lambda>c. c \<noteq> Gray) h, length as))" by auto
qed (auto intro: wf_inv_image wf_lex_prod wf_less_than)

definition mark_gray :: "addr \<Rightarrow> heap \<Rightarrow> heap" where
  "mark_gray s h =
     (if ob_color (obj_at h s) = Gray then h else mark_gray_walk (obj_children h s) (set_color s Gray h))"

function scan_black_walk :: "addr list \<Rightarrow> heap \<Rightarrow> heap" where
  "scan_black_walk [] h = h"
| "scan_black_walk (c # cs) h =
     (if ob_shared (obj_at h c) then scan_black_walk cs h
      else
        let h1 = rc_inc c h in
        if ob_color (obj_at h1 c) \<noteq> Black then scan_black_walk (obj_children h1 c @ cs) (set_color c Black h1)
        else scan_black_walk cs h1)"
  by pat_completeness auto
termination
proof (relation "inv_image (less_than <*lex*> less_than) (\<lambda>(as, h). (color_count (\<lambda>c. c \<noteq> Black) h, length as))")
  fix a as h h1 assume "h1 = rc_inc a h" "ob_color (obj_at h1 a) \<noteq> Black"
  with enter_smaller [of "\<lambda>c. c \<noteq> Black" "rc_inc a h" a Black as]
  show "((obj_children h1 a @ as, set_color a Black h1), (a # as, h)) \<in>
    inv_image (less_than <*lex*> less_than) (\<lambda>(as, h). (color_count (\<lambda>c. c \<noteq> Black) h, length as))" by auto
qed (auto intro: wf_inv_image wf_lex_prod wf_less_than)

definition scan_black :: "addr \<Rightarrow> heap \<Rightarrow> heap" where
  "scan_black s h = scan_black_walk (obj_children h s) (set_color s Black h)"

text \<open>No walk to black makes an object gray.\<close>

lemma black_no_new_gray:
  "ob_color (obj_at (scan_black_walk cs h) x) = Gray \<Longrightarrow> ob_color (obj_at h x) = Gray"
proof (induction cs h rule: scan_black_walk.induct)
  case (2 c cs h)
  show ?case
  proof (cases "ob_shared (obj_at h c)")
    case True
    with 2 show ?thesis by simp
  next
    case False
    show ?thesis
    proof (cases "ob_color (obj_at (rc_inc c h) c) = Black")
      case True
      with 2(3,4) False show ?thesis by (simp add: Let_def)
    next
      case go: False
      with 2(2) [OF False refl go] 2(4) False have "ob_color (obj_at (set_color c Black (rc_inc c h)) x) = Gray" by (simp add: Let_def)
      then show ?thesis by (auto simp: set_color_def obj_at_upd split: if_splits)
    qed
  qed
qed simp

lemma length_set_color [simp]: "length (hp_objs (set_color a c h)) = length (hp_objs h)"
  by (simp add: set_color_def)

lemma length_scan_black_walk [simp]: "length (hp_objs (scan_black_walk cs h)) = length (hp_objs h)"
  by (induction cs h rule: scan_black_walk.induct) (simp_all add: Let_def rc_inc_def)

lemma color_count_mono:
  assumes "length (hp_objs h') = length (hp_objs h)"
    and "\<And>x. x < length (hp_objs h) \<Longrightarrow> P (ob_color (obj_at h' x)) \<Longrightarrow> P (ob_color (obj_at h x))"
  shows "color_count P h' \<le> color_count P h"
proof -
  have "color_count P g = card {x. x < length (hp_objs g) \<and> P (ob_color (obj_at g x))}" for g
    unfolding color_count_def length_filter_conv_card by (rule arg_cong [where f = card]) (auto simp: obj_at_def)
  then show ?thesis using assms by (auto intro!: card_mono)
qed

lemma scan_black_gray:
  assumes "s < length (hp_objs h)" and "ob_color (obj_at h s) = Gray"
  shows "color_count (\<lambda>c. c = Gray) (scan_black s h) < color_count (\<lambda>c. c = Gray) h"
proof -
  have "color_count (\<lambda>c. c = Gray) (scan_black s h) \<le> color_count (\<lambda>c. c = Gray) (set_color s Black h)"
    unfolding scan_black_def by (rule color_count_mono) (auto dest: black_no_new_gray)
  also have "\<dots> < color_count (\<lambda>c. c = Gray) h" using assms by (intro color_count_set) auto
  finally show ?thesis .
qed

lemma gray_in_range: "ob_color (obj_at h s) = Gray \<Longrightarrow> s < length (hp_objs h)"
  by (auto simp: obj_at_def nil_obj_def split: if_splits)

function scan_walk :: "addr list \<Rightarrow> heap \<Rightarrow> heap" where
  "scan_walk [] h = h"
| "scan_walk (s # ss) h =
     (if ob_color (obj_at h s) \<noteq> Gray then scan_walk ss h
      else if ob_refcount (obj_at h s) > 0 then scan_walk ss (scan_black s h)
      else scan_walk (obj_children h s @ ss) (set_color s White h))"
  by pat_completeness auto
termination
proof (relation "inv_image (less_than <*lex*> less_than) (\<lambda>(as, h). (color_count (\<lambda>c. c = Gray) h, length as))")
  fix s ss h assume "\<not> ob_color (obj_at h s) \<noteq> Gray"
  then show "((ss, scan_black s h), (s # ss, h)) \<in>
    inv_image (less_than <*lex*> less_than) (\<lambda>(as, h). (color_count (\<lambda>c. c = Gray) h, length as))"
    using scan_black_gray [of s h] gray_in_range [of h s] by simp
next
  fix s ss h assume "\<not> ob_color (obj_at h s) \<noteq> Gray"
  then show "((obj_children h s @ ss, set_color s White h), (s # ss, h)) \<in>
    inv_image (less_than <*lex*> less_than) (\<lambda>(as, h). (color_count (\<lambda>c. c = Gray) h, length as))"
    using color_count_set [of s h "\<lambda>c. c = Gray" White] gray_in_range [of h s] by simp
qed (auto intro: wf_inv_image wf_lex_prod wf_less_than)

definition scan :: "addr \<Rightarrow> heap \<Rightarrow> heap" where
  "scan s h = scan_walk [s] h"

function gather_walk :: "addr list \<Rightarrow> heap \<Rightarrow> addr list \<Rightarrow> heap \<times> addr list" where
  "gather_walk [] h garbage = (h, garbage)"
| "gather_walk (s # ss) h garbage =
     (if ob_color (obj_at h s) = White
      then gather_walk (obj_children h s @ ss) (set_color s Black h) (garbage @ [s])
      else gather_walk ss h garbage)"
  by pat_completeness auto
termination
proof (relation "inv_image (less_than <*lex*> less_than) (\<lambda>(as, h, g). (color_count (\<lambda>c. c = White) h, length as))")
  fix s ss h and garbage :: "addr list" assume "ob_color (obj_at h s) = White"
  then show "((obj_children h s @ ss, set_color s Black h, garbage @ [s]), (s # ss, h, garbage)) \<in>
    inv_image (less_than <*lex*> less_than) (\<lambda>(as, h, g). (color_count (\<lambda>c. c = White) h, length as))"
    using enter_smaller [of "\<lambda>c. c = White" h s Black ss] by auto
qed (auto intro: wf_inv_image wf_lex_prod wf_less_than)

definition gather_white :: "addr \<Rightarrow> heap \<times> addr list \<Rightarrow> heap \<times> addr list" where
  "gather_white s st = gather_walk [s] (fst st) (snd st)"

section \<open>The exit collections\<close>

record garbage =
  gb_fresh :: "addr list"
  gb_already_destructed :: "addr list"
  gb_release_external :: bool

definition garbage_default :: garbage where
  "garbage_default = \<lparr>gb_fresh = [], gb_already_destructed = [], gb_release_external = False\<rparr>"

definition retain :: "gc_val \<Rightarrow> heap \<Rightarrow> heap" where
  "retain v h = inc_ref v h"

definition in_edges :: "addr list \<Rightarrow> heap \<Rightarrow> addr \<Rightarrow> 32 word" where
  "in_edges garbage h x = of_nat (sum_list (map (\<lambda>a. count_list (obj_children h a) x) garbage))"

definition count_refcount_anomalies :: "addr list \<Rightarrow> heap \<Rightarrow> nat" where
  "count_refcount_anomalies garbage h =
     length (filter (\<lambda>a. ob_refcount (obj_at h a) \<noteq> in_edges garbage h a) garbage)"

definition reset_gray :: "addr \<Rightarrow> heap \<Rightarrow> heap" where
  "reset_gray a h = (if ob_color (obj_at h a) = Gray then set_color a Black h else h)"

definition collect_trace :: "gc_val list \<Rightarrow> heap \<Rightarrow> garbage \<times> heap" where
  "collect_trace roots h =
     (let h1 = fold mark roots h;
          live = hp_registry h1;
          fresh = filter (\<lambda>a. ob_color (obj_at h1 a) \<noteq> Gray) live;
          h2 = fold reset_gray live h1;
          h3 = h2\<lparr>hp_anomalies := hp_anomalies h2 + count_refcount_anomalies fresh h2\<rparr> in
      (\<lparr>gb_fresh = fresh, gb_already_destructed = [], gb_release_external = True\<rparr>, h3))"

text \<open>The first loop of a trial deletion: unbuffer each candidate, trial-decrement the purple ones.
  The state is the heap, the gray roots and the objects whose deallocation was deferred.\<close>

definition mark_root :: "addr \<Rightarrow> heap \<times> addr list \<times> addr list \<Rightarrow> heap \<times> addr list \<times> addr list" where
  "mark_root s st =
     (case st of (h, gray_roots, deferred) \<Rightarrow>
        let h1 = set_buffered s False h in
        if ob_color (obj_at h1 s) = Purple then (mark_gray s h1, gray_roots @ [s], deferred)
        else (h1, gray_roots, deferred @ [s]))"

text \<open>The white objects and the deferred ones, each listed once; \<open>seen\<close> is the set of addresses so far.\<close>

fun dedup :: "addr list \<Rightarrow> addr set \<Rightarrow> addr list \<times> addr set" where
  "dedup [] seen = ([], seen)"
| "dedup (a # as) seen =
     (if a \<in> seen then dedup as seen else (let (out, seen') = dedup as (insert a seen) in (a # out, seen')))"

definition trial_deletion :: "heap \<Rightarrow> addr list \<times> addr list \<times> heap" where
  "trial_deletion h =
     (let (roots, h0) = take_candidates h;
          (h1, gray_roots, deferred) = fold mark_root roots (h0, [], []);
          h2 = fold scan gray_roots h1;
          (h3, white) = fold gather_white gray_roots (h2, []);
          (fresh, seen) = dedup white {};
          (already, _) = dedup deferred seen in
      (fresh, already, h3))"

definition collect_trial_deletion :: "heap \<Rightarrow> garbage \<times> heap" where
  "collect_trial_deletion h =
     (let (fresh, already, h') = trial_deletion h in
      (\<lparr>gb_fresh = fresh, gb_already_destructed = already, gb_release_external = False\<rparr>, h'))"

section \<open>Weakly connected components\<close>

text \<open>\<open>adjacency[i].push(j); adjacency[j].push(i)\<close> for every edge inside the set.\<close>

definition add_adjacent :: "addr list \<Rightarrow> nat \<Rightarrow> addr \<Rightarrow> nat list list \<Rightarrow> nat list list" where
  "add_adjacent garbage i c adj =
     (case position c garbage of
        Some j \<Rightarrow> if j \<noteq> i then (let adj1 = adj[i := adj ! i @ [j]] in adj1[j := adj1 ! j @ [i]]) else adj
      | None \<Rightarrow> adj)"

definition adjacency :: "addr list \<Rightarrow> heap \<Rightarrow> nat list list" where
  "adjacency garbage h =
     fold (\<lambda>i. fold (add_adjacent garbage i) (obj_children h (garbage ! i))) [0..<length garbage]
       (replicate (length garbage) [])"

fun comp_visit :: "nat \<Rightarrow> nat list \<Rightarrow> nat option list \<Rightarrow> nat list \<Rightarrow> nat option list \<times> nat list" where
  "comp_visit k [] cof queue = (cof, queue)"
| "comp_visit k (j # js) cof queue =
     (if j < length cof \<and> cof ! j = None then comp_visit k js (cof[j := Some k]) (queue @ [j])
      else comp_visit k js cof queue)"

definition unassigned :: "nat option list \<Rightarrow> nat" where
  "unassigned cof = length (filter (\<lambda>c. c = None) cof)"

lemma comp_visit_smaller:
  "unassigned (fst (comp_visit k js cof queue)) < unassigned cof \<or>
   (unassigned (fst (comp_visit k js cof queue)) = unassigned cof \<and> snd (comp_visit k js cof queue) = queue)"
proof (induction k js cof queue rule: comp_visit.induct)
  case (2 k j js cof queue)
  have "unassigned (cof[j := Some k]) < unassigned cof" if "j < length cof" "cof ! j = None"
    using that filter_update_count(1) [of j cof "\<lambda>c. c = None" "Some k"] by (simp add: unassigned_def)
  with 2 show ?case by (cases "j < length cof \<and> cof ! j = None") auto
qed simp

function comp_loop :: "nat list list \<Rightarrow> nat \<Rightarrow> nat option list \<Rightarrow> nat list \<Rightarrow> nat list \<Rightarrow> nat option list \<times> nat list" where
  "comp_loop adj k cof queue members =
     (if queue = [] then (cof, members)
      else
        let i = last queue; (cof', queue') = comp_visit k (adj ! i) cof (butlast queue) in
        comp_loop adj k cof' queue' (members @ [i]))"
  by pat_completeness auto
termination
proof (relation "inv_image (less_than <*lex*> less_than) (\<lambda>(adj, k, cof, queue, members). (unassigned cof, length queue))")
  fix adj :: "nat list list" and k cof and queue members :: "nat list" and i st cof' queue'
  assume "queue \<noteq> []" and "i = last queue" and "st = comp_visit k (adj ! i) cof (butlast queue)" and "(cof', queue') = st"
  then have v: "comp_visit k (adj ! i) cof (butlast queue) = (cof', queue')" and q: "length (butlast queue) < length queue" by simp_all
  from comp_visit_smaller [of k "adj ! i" cof "butlast queue"] q
  have "unassigned cof' < unassigned cof \<or> (unassigned cof' = unassigned cof \<and> length queue' < length queue)"
    unfolding v by auto
  then show "((adj, k, cof', queue', members @ [i]), (adj, k, cof, queue, members)) \<in>
    inv_image (less_than <*lex*> less_than) (\<lambda>(adj, k, cof, queue, members). (unassigned cof, length queue))" by auto
qed (auto intro: wf_inv_image wf_lex_prod wf_less_than)

declare comp_loop.simps [simp del]

definition component_step :: "nat list list \<Rightarrow> nat \<Rightarrow> nat option list \<times> nat list list \<Rightarrow> nat option list \<times> nat list list" where
  "component_step adj start st =
     (case st of (cof, comps) \<Rightarrow>
        if cof ! start \<noteq> None then (cof, comps)
        else
          let k = length comps; (cof', members) = comp_loop adj k (cof[start := Some k]) [start] [] in
          (cof', comps @ [members]))"

definition weakly_connected_components :: "addr list \<Rightarrow> heap \<Rightarrow> addr list list" where
  "weakly_connected_components garbage h =
     map (map (\<lambda>i. garbage ! i))
       (snd (fold (component_step (adjacency garbage h)) [0..<length garbage] (replicate (length garbage) None, [])))"

section \<open>The safepoint collections\<close>

definition newest_first :: "heap \<Rightarrow> addr list \<Rightarrow> addr list" where
  "newest_first h as = sort_key (\<lambda>a. - int (unat (ob_seq (obj_at h a)))) as"

definition collect_trace_safepoint :: "(addr \<Rightarrow> bool) \<Rightarrow> gc_val list \<Rightarrow> heap \<Rightarrow> garbage \<times> heap" where
  "collect_trace_safepoint defer roots h =
     (let h1 = fold mark roots h;
          live = hp_registry h1;
          garbage = filter (\<lambda>a. ob_color (obj_at h1 a) \<noteq> Gray) live;
          h2 = fold reset_gray live h1 in
      if garbage = [] \<or> count_refcount_anomalies garbage h2 \<noteq> 0 then (garbage_default, h2)
      else
        let fresh = concat (filter (\<lambda>cof. \<not> list_ex defer cof) (weakly_connected_components garbage h2)) in
        (\<lparr>gb_fresh = newest_first h2 fresh, gb_already_destructed = [], gb_release_external = True\<rparr>, h2))"

text \<open>Putting a dead component back: undo its trial decrements, then buffer its members again.\<close>

definition restore_edges :: "addr \<Rightarrow> heap \<Rightarrow> heap" where
  "restore_edges m h = fold (\<lambda>c h. if ob_shared (obj_at h c) then h else rc_inc c h) (obj_children h m) h"

definition restore_component :: "addr list \<Rightarrow> heap \<Rightarrow> heap" where
  "restore_component cof h = fold (\<lambda>m. rebuffer_candidate (Ptr m)) cof (fold restore_edges cof h)"

definition defer_step :: "(addr \<Rightarrow> bool) \<Rightarrow> addr list \<Rightarrow> heap \<times> addr list \<Rightarrow> heap \<times> addr list" where
  "defer_step defer cof st =
     (case st of (h, fresh) \<Rightarrow>
        if list_ex defer cof then (restore_component cof h, fresh) else (h, fresh @ cof))"

definition collect_trial_deletion_safepoint :: "(addr \<Rightarrow> bool) \<Rightarrow> heap \<Rightarrow> garbage \<times> heap" where
  "collect_trial_deletion_safepoint defer h =
     (let (white, already, h1) = trial_deletion h;
          (h2, fresh) = fold (defer_step defer) (weakly_connected_components white h1) (h1, []) in
      (\<lparr>gb_fresh = newest_first h2 fresh, gb_already_destructed = already, gb_release_external = False\<rparr>, h2))"

section \<open>The prototype collector\<close>

text \<open>The \<open>CycleCollector\<close> keeps its own list of roots.\<close>

definition add_candidate :: "gc_val \<Rightarrow> addr list \<times> heap \<Rightarrow> addr list \<times> heap" where
  "add_candidate v st =
     (case st of (roots, h) \<Rightarrow>
        (case v of
           Imm \<Rightarrow> (roots, h)
         | Ptr a \<Rightarrow>
             let h1 = set_color a Purple h in
             if \<not> ob_buffered (obj_at h1 a) then (roots @ [a], set_buffered a True h1) else (roots, h1)))"

definition collector_collect :: "addr list \<Rightarrow> heap \<Rightarrow> heap" where
  "collector_collect roots h =
     (let h1 = fold (\<lambda>r h. if ob_color (obj_at h r) = Purple then mark_gray r h else h) roots h;
          h2 = fold scan roots h1;
          (h3, garbage) = fold gather_white roots (h2, []);
          h4 = fold (\<lambda>r. set_buffered r False) roots h3 in
      fold free_shallow garbage h4)"

end
