(* ===== verification/Gc_Walk.thy ===== *)
theory Gc_Walk
  imports Gc_Collect
begin

text \<open>
  The contract the four walks of the collectors share. A walk visits a list of objects; it skips some
  by their header, adjusts the count of every other object it arrives at, and where the color of the
  object lets it in, paints the object and goes on with its children. The locale shows once what such
  a walk computes; the marking, trial-decrement, restoring and gathering walks are interpretations.
\<close>

section \<open>The objects a walk enters\<close>

definition bump :: "32 word \<Rightarrow> addr \<Rightarrow> heap \<Rightarrow> heap" where
  "bump d a h = upd_obj a (ob_refcount_update (\<lambda>n. n + d)) h"

definition enters :: "(obj \<Rightarrow> bool) \<Rightarrow> (color \<Rightarrow> bool) \<Rightarrow> heap \<Rightarrow> addr \<Rightarrow> bool" where
  "enters skip op h a = (a < length (hp_objs h) \<and> \<not> skip (obj_at h a) \<and> op (ob_color (obj_at h a)))"

inductive_set opened :: "(obj \<Rightarrow> bool) \<Rightarrow> (color \<Rightarrow> bool) \<Rightarrow> heap \<Rightarrow> addr list \<Rightarrow> addr set" for skip op h as where
  first: "a \<in> set as \<Longrightarrow> enters skip op h a \<Longrightarrow> a \<in> opened skip op h as"
| further: "\<lbrakk>b \<in> opened skip op h as; c \<in> set (obj_children h b); enters skip op h c\<rbrakk> \<Longrightarrow> c \<in> opened skip op h as"

definition arrivals :: "heap \<Rightarrow> addr set \<Rightarrow> addr list \<Rightarrow> addr \<Rightarrow> nat" where
  "arrivals h R as x = count_list as x + (\<Sum>y \<in> R. count_list (obj_children h y) x)"

lemma opened_enters: "a \<in> opened skip op h as \<Longrightarrow> enters skip op h a"
  by (induction rule: opened.induct) auto

lemma finite_opened: "finite (opened skip op h as)"
  by (rule finite_subset [of _ "{..<length (hp_objs h)}"]) (auto dest: opened_enters simp: enters_def)

lemma opened_nil [simp]: "opened skip op h [] = {}"
proof -
  have False if "a \<in> opened skip op h []" for a using that by (induction rule: opened.induct) auto
  then show ?thesis by blast
qed

lemma opened_cong:
  assumes "\<And>a. enters skip op h' a = enters skip op h a" and "\<And>a. obj_children h' a = obj_children h a"
  shows "opened skip op h' as = opened skip op h as"
proof
  show "opened skip op h' as \<subseteq> opened skip op h as"
  proof
    fix x assume "x \<in> opened skip op h' as"
    then show "x \<in> opened skip op h as" by induction (auto simp: assms intro: opened.intros)
  qed
  show "opened skip op h as \<subseteq> opened skip op h' as"
  proof
    fix x assume "x \<in> opened skip op h as"
    then show "x \<in> opened skip op h' as"
      by induction (auto intro: opened.first opened.further simp: assms)
  qed
qed

text \<open>An object that is not entered contributes nothing.\<close>

lemma opened_skip: "\<not> enters skip op h a \<Longrightarrow> opened skip op h (a # as) = opened skip op h as"
proof
  assume n: "\<not> enters skip op h a"
  show "opened skip op h (a # as) \<subseteq> opened skip op h as"
  proof
    fix x assume "x \<in> opened skip op h (a # as)"
    then show "x \<in> opened skip op h as"
      by induction (use n in \<open>auto intro: opened.first opened.further\<close>)
  qed
  show "opened skip op h as \<subseteq> opened skip op h (a # as)"
  proof
    fix x assume "x \<in> opened skip op h as"
    then show "x \<in> opened skip op h (a # as)" by induction (auto intro: opened.first opened.further)
  qed
qed

text \<open>An object that is entered is painted, and the walk goes on as from its children.\<close>

lemma opened_enter:
  assumes a: "enters skip op h a" and kids: "\<And>x. obj_children h' x = obj_children h x"
    and ent: "\<And>x. enters skip op h' x \<longleftrightarrow> enters skip op h x \<and> x \<noteq> a"
  shows "opened skip op h (a # as) = insert a (opened skip op h' (obj_children h a @ as))"
    and "a \<notin> opened skip op h' (obj_children h a @ as)"
proof -
  let ?R = "opened skip op h (a # as)" and ?S = "opened skip op h' (obj_children h a @ as)"
  show "a \<notin> ?S" using ent opened_enters by blast
  show "?R = insert a ?S"
  proof
    show "?R \<subseteq> insert a ?S"
    proof
      fix x assume "x \<in> ?R"
      then show "x \<in> insert a ?S"
      proof induction
        case (first x)
        then show ?case using ent [of x] by (cases "x = a") (auto intro!: opened.first)
      next
        case (further b c)
        show ?case
        proof (cases "c = a")
          case False
          with further.hyps ent have c: "enters skip op h' c" by simp
          from further.IH show ?thesis
          proof
            assume "b = a"
            with further.hyps c show ?thesis by (intro insertI2 opened.first) auto
          next
            assume "b \<in> ?S"
            from opened.further [OF this _ c] further.hyps(2) kids show ?thesis by auto
          qed
        qed simp
      qed
    qed
    have aR: "a \<in> ?R" using a by (auto intro: opened.first)
    have "x \<in> ?R" if "x \<in> ?S" for x
      using that
    proof induction
      case (first x)
      then have x: "enters skip op h x" using ent by simp
      from first(1) have "x \<in> set (obj_children h a) \<or> x \<in> set (a # as)" by auto
      then show ?case using opened.further [OF aR _ x] opened.first [OF _ x] by blast
    next
      case (further b c)
      then have c: "enters skip op h c" "c \<in> set (obj_children h b)" using ent kids by simp_all
      show ?case by (rule opened.further [OF further.IH c(2,1)])
    qed
    with aR show "insert a ?S \<subseteq> ?R" by blast
  qed
qed

section \<open>The contract\<close>

lemma obj_at_bump:
  "obj_at (bump d a h) x =
     (if x = a \<and> a < length (hp_objs h) then (obj_at h a)\<lparr>ob_refcount := ob_refcount (obj_at h a) + d\<rparr> else obj_at h x)"
  by (simp add: bump_def obj_at_upd)

lemma bump_simps [simp]:
  "length (hp_objs (bump d a h)) = length (hp_objs h)" "obj_children (bump d a h) x = obj_children h x"
  "ob_color (obj_at (bump d a h) x) = ob_color (obj_at h x)" "color_count P (bump d a h) = color_count P h"
  by (simp_all add: bump_def obj_at_upd obj_children_def color_count_rc)

lemma set_color_children [simp]: "obj_children (set_color a c h) x = obj_children h x"
  by (simp add: set_color_def obj_at_upd obj_children_def)

lemma obj_at_set_color:
  "obj_at (set_color a c h) x = (if x = a \<and> a < length (hp_objs h) then (obj_at h a)\<lparr>ob_color := c\<rparr> else obj_at h x)"
  by (simp add: set_color_def obj_at_upd)

text \<open>Two heaps that differ in colors and counts only.\<close>

definition repainted :: "heap \<Rightarrow> heap \<Rightarrow> bool" where
  "repainted h h' =
     (h' = h\<lparr>hp_objs := hp_objs h'\<rparr> \<and> length (hp_objs h') = length (hp_objs h) \<and>
      (\<forall>x. obj_at h' x = (obj_at h x)\<lparr>ob_color := ob_color (obj_at h' x), ob_refcount := ob_refcount (obj_at h' x)\<rparr>))"

lemma repaintedD:
  assumes "repainted h h'"
  shows "length (hp_objs h') = length (hp_objs h)" "ob_shared (obj_at h' x) = ob_shared (obj_at h x)"
    "ob_payload (obj_at h' x) = ob_payload (obj_at h x)" "ob_freed (obj_at h' x) = ob_freed (obj_at h x)"
    "ob_buffered (obj_at h' x) = ob_buffered (obj_at h x)" "ob_seq (obj_at h' x) = ob_seq (obj_at h x)"
    "ob_registered (obj_at h' x) = ob_registered (obj_at h x)"
    "obj_children h' x = obj_children h x" "live_at h' x = live_at h x"
    "hp_registry h' = hp_registry h" "hp_candidates h' = hp_candidates h" "hp_mode h' = hp_mode h"
proof -
  have at: "obj_at h' x = (obj_at h x)\<lparr>ob_color := ob_color (obj_at h' x), ob_refcount := ob_refcount (obj_at h' x)\<rparr>"
    using assms unfolding repainted_def by blast
  show len: "length (hp_objs h') = length (hp_objs h)" using assms by (simp add: repainted_def)
  show "ob_shared (obj_at h' x) = ob_shared (obj_at h x)" "ob_payload (obj_at h' x) = ob_payload (obj_at h x)"
    "ob_freed (obj_at h' x) = ob_freed (obj_at h x)" "ob_buffered (obj_at h' x) = ob_buffered (obj_at h x)"
    "ob_seq (obj_at h' x) = ob_seq (obj_at h x)" "ob_registered (obj_at h' x) = ob_registered (obj_at h x)"
    "obj_children h' x = obj_children h x" "live_at h' x = live_at h x"
    unfolding obj_children_def live_at_def len by (subst at, simp)+
  have "h' = h\<lparr>hp_objs := hp_objs h'\<rparr>" using assms by (simp add: repainted_def)
  then show "hp_registry h' = hp_registry h" "hp_candidates h' = hp_candidates h" "hp_mode h' = hp_mode h"
    by (metis heap.select_convs heap.ext_inject heap.surjective heap.update_convs)+
qed

lemma repaintedI:
  assumes "h' = h\<lparr>hp_objs := hp_objs h'\<rparr>" and "length (hp_objs h') = length (hp_objs h)"
    and "\<And>x. obj_at h' x = (obj_at h x)\<lparr>ob_color := ob_color (obj_at h' x), ob_refcount := ob_refcount (obj_at h' x)\<rparr>"
  shows "repainted h h'"
  using assms unfolding repainted_def by blast

lemma repainted_refl: "repainted h h"
  by (rule repaintedI) simp_all

lemma repainted_trans:
  assumes "repainted h g" and "repainted g h'"
  shows "repainted h h'"
proof (rule repaintedI)
  have "h' = g\<lparr>hp_objs := hp_objs h'\<rparr>" "g = h\<lparr>hp_objs := hp_objs g\<rparr>" using assms by (simp_all add: repainted_def)
  then have "h' = (h\<lparr>hp_objs := hp_objs g\<rparr>)\<lparr>hp_objs := hp_objs h'\<rparr>" by metis
  then show "h' = h\<lparr>hp_objs := hp_objs h'\<rparr>" by simp
  show "length (hp_objs h') = length (hp_objs h)" using assms by (simp add: repainted_def)
  fix x
  have "obj_at h' x = (obj_at g x)\<lparr>ob_color := ob_color (obj_at h' x), ob_refcount := ob_refcount (obj_at h' x)\<rparr>"
    "obj_at g x = (obj_at h x)\<lparr>ob_color := ob_color (obj_at g x), ob_refcount := ob_refcount (obj_at g x)\<rparr>"
    using assms unfolding repainted_def by blast+
  then have "obj_at h' x = ((obj_at h x)\<lparr>ob_color := ob_color (obj_at g x), ob_refcount := ob_refcount (obj_at g x)\<rparr>)
      \<lparr>ob_color := ob_color (obj_at h' x), ob_refcount := ob_refcount (obj_at h' x)\<rparr>" by metis
  then show "obj_at h' x = (obj_at h x)\<lparr>ob_color := ob_color (obj_at h' x), ob_refcount := ob_refcount (obj_at h' x)\<rparr>"
    by simp
qed

lemma repainted_steps: "repainted h (bump d a h)" "repainted h (set_color a c h)"
proof -
  show "repainted h (bump d a h)" by (rule repaintedI) (simp_all add: obj_at_bump, simp add: bump_def upd_obj_def)
  show "repainted h (set_color a c h)"
    by (rule repaintedI) (simp_all add: obj_at_set_color, simp add: set_color_def upd_obj_def)
qed

locale tracing_walk =
  fixes walk :: "addr list \<Rightarrow> heap \<Rightarrow> heap"
    and skip :: "obj \<Rightarrow> bool"
    and op :: "color \<Rightarrow> bool"
    and paint :: color
    and delta :: "32 word"
  assumes walk_nil: "walk [] h = h"
    and walk_cons: "walk (a # as) h =
      (if skip (obj_at h a) then walk as h
       else if op (ob_color (obj_at h a)) then walk (obj_children h a @ as) (set_color a paint (bump delta a h))
       else walk as (bump delta a h))"
    and paint_closes: "\<not> op paint"
    and skip_header: "skip (ob\<lparr>ob_color := c\<rparr>) = skip ob" "skip (ob\<lparr>ob_refcount := n\<rparr>) = skip ob"
begin

definition entered :: "heap \<Rightarrow> addr list \<Rightarrow> addr set" where
  "entered h as = opened skip op h as"

lemma enters_bump: "enters skip op (bump delta a h) x = enters skip op h x"
  by (simp add: enters_def obj_at_bump skip_header)

lemma enters_paint:
  assumes "a < length (hp_objs h)"
  shows "enters skip op (set_color a paint (bump delta a h)) x \<longleftrightarrow> enters skip op h x \<and> x \<noteq> a"
  using assms paint_closes by (auto simp: enters_def obj_at_set_color obj_at_bump skip_header)

text \<open>What a walk does to the object at \<open>x\<close>.\<close>

definition outcome :: "heap \<Rightarrow> addr list \<Rightarrow> heap \<Rightarrow> addr \<Rightarrow> bool" where
  "outcome h as h' x =
     (ob_color (obj_at h' x) = (if x \<in> entered h as then paint else ob_color (obj_at h x)) \<and>
      (x < length (hp_objs h) \<longrightarrow> ob_refcount (obj_at h' x) =
        (if skip (obj_at h x) then ob_refcount (obj_at h x)
         else ob_refcount (obj_at h x) + delta * of_nat (arrivals h (entered h as) as x))))"

lemma outcome_nil: "outcome h [] h x"
  by (simp add: outcome_def entered_def arrivals_def)

text \<open>Passing an object that is skipped or not entered.\<close>

lemma outcome_pass:
  assumes "\<not> enters skip op h a" and "outcome (if skip (obj_at h a) then h else bump delta a h) as h' x"
  shows "outcome h (a # as) h' x"
proof -
  let ?g = "if skip (obj_at h a) then h else bump delta a h"
  have R: "entered ?g as = entered h (a # as)"
    unfolding entered_def opened_skip [OF assms(1)] by (rule opened_cong) (simp_all add: enters_bump)
  have sk: "skip (obj_at ?g x) = skip (obj_at h x)" "ob_color (obj_at ?g x) = ob_color (obj_at h x)"
    "length (hp_objs ?g) = length (hp_objs h)"
    by (simp_all add: obj_at_bump skip_header)
  have arr: "arrivals ?g R' as x = arrivals h R' as x" for R' by (simp add: arrivals_def)
  have rc: "ob_refcount (obj_at ?g x) = ob_refcount (obj_at h x) + (if x = a then delta else 0)"
    if "x < length (hp_objs h)" "\<not> skip (obj_at h x)"
    using that by (auto simp: obj_at_bump)
  have rc': "ob_refcount (obj_at ?g x) = ob_refcount (obj_at h x)" if "skip (obj_at h x)"
    using that by (auto simp: obj_at_bump)
  have arr': "arrivals h R' (a # as) x = arrivals h R' as x + (if x = a then 1 else 0)" for R' by (simp add: arrivals_def)
  show ?thesis
    using assms(2) rc rc' unfolding outcome_def R sk arr arr'
    by (auto simp: distrib_left)
qed

lemma outcome_enter:
  assumes a: "enters skip op h a" and "outcome (set_color a paint (bump delta a h)) (obj_children h a @ as) h' x"
  shows "outcome h (a # as) h' x"
proof -
  let ?g = "set_color a paint (bump delta a h)"
  have al: "a < length (hp_objs h)" "\<not> skip (obj_at h a)" using a by (simp_all add: enters_def)
  note o = opened_enter [OF a, of ?g as, OF _ enters_paint [OF al(1)]]
  have R: "entered h (a # as) = insert a (entered ?g (obj_children h a @ as))" and nR: "a \<notin> entered ?g (obj_children h a @ as)"
    unfolding entered_def using o by simp_all
  have len: "length (hp_objs ?g) = length (hp_objs h)" by simp
  have sk: "skip (obj_at ?g x) = skip (obj_at h x)"
    by (simp add: obj_at_set_color obj_at_bump skip_header)
  have col: "ob_color (obj_at ?g x) = (if x = a then paint else ob_color (obj_at h x))"
    using al by (simp add: obj_at_set_color)
  have rc: "ob_refcount (obj_at ?g x) = ob_refcount (obj_at h x) + (if x = a then delta else 0)"
    using al by (simp add: obj_at_set_color obj_at_bump)
  have fin: "finite (entered ?g (obj_children h a @ as))" unfolding entered_def by (rule finite_opened)
  have arr: "arrivals h (entered h (a # as)) (a # as) x =
      arrivals ?g (entered ?g (obj_children h a @ as)) (obj_children h a @ as) x + (if x = a then 1 else 0)"
    unfolding R arrivals_def using nR fin by (simp add: count_list_append)
  have ka: "skip (obj_at h x) \<Longrightarrow> x \<noteq> a" using al(2) by blast
  show ?thesis
    using assms(2) nR ka unfolding outcome_def len sk col rc arr
    by (auto simp: R distrib_left)
qed

lemma walk_outcome: "(\<forall>x. outcome h as (walk as h) x) \<and> repainted h (walk as h)"
proof -
  let ?m = "inv_image (less_than <*lex*> less_than) (\<lambda>(as, h). (color_count op h, length as)) :: ((addr list \<times> heap) \<times> _) set"
  have wf: "wf ?m" by (intro wf_inv_image wf_lex_prod wf_less_than)
  show ?thesis
  proof (induction "(as, h)" arbitrary: as h rule: wf_induct_rule [OF wf])
    case 1
    show ?case
    proof (cases as)
      case Nil
      then have "walk as h = h" by (simp add: walk_nil)
      then show ?thesis unfolding Nil using outcome_nil repainted_refl by metis
    next
      case (Cons a as')
      let ?g = "set_color a paint (bump delta a h)"
      show ?thesis
      proof (cases "enters skip op h a")
        case True
        then have go: "\<not> skip (obj_at h a)" "op (ob_color (obj_at h a))" "a < length (hp_objs h)" by (simp_all add: enters_def)
        have "color_count op ?g < color_count op h"
          using color_count_set [of a "bump delta a h" op paint] go paint_closes by simp
        then have "((obj_children h a @ as', ?g), (as, h)) \<in> ?m" by simp
        from 1 [OF this] have ih: "\<And>x. outcome ?g (obj_children h a @ as') (walk (obj_children h a @ as') ?g) x"
          "repainted ?g (walk (obj_children h a @ as') ?g)" by auto
        have "repainted h ?g" using repainted_steps repainted_trans by blast
        with ih outcome_enter [OF True] show ?thesis
          using go repainted_trans by (auto simp: Cons walk_cons)
      next
        case False
        let ?h = "if skip (obj_at h a) then h else bump delta a h"
        have w: "walk as h = walk as' ?h"
        proof (cases "skip (obj_at h a) \<or> \<not> op (ob_color (obj_at h a))")
          case True
          then show ?thesis by (auto simp: Cons walk_cons)
        next
          case go: False
          with False have "\<not> a < length (hp_objs h)" by (simp add: enters_def)
          with go beyond_heap [of a "bump delta a h" paint] show ?thesis by (simp add: Cons walk_cons)
        qed
        have "((as', ?h), (as, h)) \<in> ?m" by (simp add: Cons)
        from 1 [OF this] have ih: "\<And>x. outcome ?h as' (walk as' ?h) x" "repainted ?h (walk as' ?h)" by auto
        have "repainted h ?h" using repainted_steps(1) repainted_refl by simp
        with ih outcome_pass [OF False] show ?thesis unfolding w unfolding Cons using repainted_trans by blast
      qed
    qed
  qed
qed

lemma walk_color: "ob_color (obj_at (walk as h) x) = (if x \<in> entered h as then paint else ob_color (obj_at h x))"
  using walk_outcome [of h as] by (simp add: outcome_def)

lemma walk_count:
  "x < length (hp_objs h) \<Longrightarrow> \<not> skip (obj_at h x) \<Longrightarrow>
   ob_refcount (obj_at (walk as h) x) = ob_refcount (obj_at h x) + delta * of_nat (arrivals h (entered h as) as x)"
  using walk_outcome [of h as] by (simp add: outcome_def)

lemma walk_repainted: "repainted h (walk as h)"
  using walk_outcome [of h as] by simp

end

section \<open>The walks of the collectors\<close>

lemma bump_zero [simp]: "bump 0 a h = h"
proof -
  have "ob_refcount_update (\<lambda>n. n + 0) (obj_at h a) = obj_at h a" by (rule obj.equality) simp_all
  then have "(hp_objs h)[a := ob_refcount_update (\<lambda>n. n + 0) (obj_at h a)] = hp_objs h"
    by (cases "a < length (hp_objs h)") (simp_all only: list_update_beyond not_less obj_at_def if_True list_update_id)
  then show ?thesis unfolding bump_def upd_obj_def by simp
qed

lemma bump_rc: "bump (- 1) a h = rc_dec a h" "bump 1 a h = rc_inc a h"
  by (simp_all add: bump_def rc_dec_def rc_inc_def)

interpretation mark: tracing_walk mark_walk ob_shared "\<lambda>c. c \<noteq> Gray" Gray 0
  by unfold_locales (simp_all)

interpretation gray: tracing_walk mark_gray_walk ob_shared "\<lambda>c. c \<noteq> Gray" Gray "- 1"
  by unfold_locales (simp_all add: bump_rc Let_def)

interpretation black: tracing_walk scan_black_walk ob_shared "\<lambda>c. c \<noteq> Black" Black 1
  by unfold_locales (simp_all add: bump_rc Let_def)

lemma gather_heap: "fst (gather_walk as h g) = fst (gather_walk as h g')"
proof (induction as h g arbitrary: g' rule: gather_walk.induct)
  case (2 s ss h g)
  show ?case
  proof (cases "ob_color (obj_at h s) = White")
    case True
    then show ?thesis using 2(1) [OF True, of "g' @ [s]"] by simp
  next
    case False
    then show ?thesis using 2(2) [OF False, of g'] by simp
  qed
qed simp

lemma gather_cons:
  "fst (gather_walk (s # ss) h []) =
   (if ob_color (obj_at h s) = White then fst (gather_walk (obj_children h s @ ss) (set_color s Black h) [])
    else fst (gather_walk ss h []))"
  using gather_heap [of "obj_children h s @ ss" "set_color s Black h" "[s]" "[]"] by simp

interpretation white: tracing_walk "\<lambda>as h. fst (gather_walk as h [])" "\<lambda>_. False" "\<lambda>c. c = White" Black 0
  by unfold_locales (simp_all add: gather_cons del: gather_walk.simps(2))

end
