(* ===== verification/Gc_Components.thy ===== *)
theory Gc_Components
  imports Gc_Collect
begin

text \<open>
  \<open>weakly_connected_components\<close> partitions the dead set so that no reference crosses from one part to
  another: reclaiming one component never touches another.
\<close>

section \<open>The adjacency lists\<close>

definition linked :: "addr list \<Rightarrow> nat \<times> addr \<Rightarrow> nat \<Rightarrow> nat \<Rightarrow> bool" where
  "linked garbage e x y =
     (case position (snd e) garbage of
        Some j \<Rightarrow> j \<noteq> fst e \<and> (x = fst e \<and> y = j \<or> x = j \<and> y = fst e)
      | None \<Rightarrow> False)"

lemma add_adjacent_set:
  assumes "length adj = length garbage" and "i < length garbage" and "x < length garbage"
  shows "set (add_adjacent garbage i c adj ! x) = set (adj ! x) \<union> {y. linked garbage (i, c) x y}"
    and "length (add_adjacent garbage i c adj) = length adj"
proof -
  show "length (add_adjacent garbage i c adj) = length adj" by (simp add: add_adjacent_def Let_def split: option.split)
  have "j < length garbage" if "position c garbage = Some j" for j using position_Some [OF that] by simp
  then show "set (add_adjacent garbage i c adj ! x) = set (adj ! x) \<union> {y. linked garbage (i, c) x y}"
    using assms by (auto simp: add_adjacent_def linked_def Let_def nth_list_update split: option.splits)
qed

lemma fold_adjacent:
  assumes "\<forall>e \<in> set es. fst e < length garbage" and "length adj = length garbage" and "x < length garbage"
  shows "set (fold (\<lambda>e. add_adjacent garbage (fst e) (snd e)) es adj ! x) = set (adj ! x) \<union> {y. \<exists>e \<in> set es. linked garbage e x y}
    \<and> length (fold (\<lambda>e. add_adjacent garbage (fst e) (snd e)) es adj) = length adj"
  using assms
proof (induction es arbitrary: adj)
  case (Cons e es)
  have "set (add_adjacent garbage (fst e) (snd e) adj ! x) = set (adj ! x) \<union> {y. linked garbage e x y}"
    "length (add_adjacent garbage (fst e) (snd e) adj) = length adj"
    using add_adjacent_set [of adj garbage "fst e" x "snd e"] Cons.prems by auto
  with Cons.IH [of "add_adjacent garbage (fst e) (snd e) adj"] Cons.prems show ?case by auto
qed simp

lemma adjacency_fold:
  "adjacency garbage h =
     fold (\<lambda>e. add_adjacent garbage (fst e) (snd e))
       (concat (map (\<lambda>i. map (Pair i) (obj_children h (garbage ! i))) [0..<length garbage])) (replicate (length garbage) [])"
proof -
  have "fold (\<lambda>e. add_adjacent garbage (fst e) (snd e)) (concat (map (\<lambda>i. map (Pair i) (f i)) xs)) adj =
      fold (\<lambda>i. fold (add_adjacent garbage i) (f i)) xs adj" for f :: "nat \<Rightarrow> addr list" and xs adj
    by (induction xs arbitrary: adj) (simp_all add: fold_map comp_def)
  then show ?thesis by (simp add: adjacency_def)
qed

lemma position_nth: "distinct xs \<Longrightarrow> i < length xs \<Longrightarrow> position (xs ! i) xs = Some i"
proof (induction xs arbitrary: i)
  case (Cons y ys)
  then show ?case by (cases i) auto
qed simp

text \<open>Two members are adjacent when one refers to the other.\<close>

lemma adjacency_set:
  assumes "distinct garbage" and "x < length garbage" and "y < length garbage"
  shows "y \<in> set (adjacency garbage h ! x) \<longleftrightarrow>
    x \<noteq> y \<and> (garbage ! y \<in> set (obj_children h (garbage ! x)) \<or> garbage ! x \<in> set (obj_children h (garbage ! y)))"
proof -
  let ?es = "concat (map (\<lambda>i. map (Pair i) (obj_children h (garbage ! i))) [0..<length garbage])"
  have es: "\<forall>e \<in> set ?es. fst e < length garbage" by auto
  have "y \<in> set (adjacency garbage h ! x) \<longleftrightarrow> (\<exists>e \<in> set ?es. linked garbage e x y)"
    unfolding adjacency_fold using fold_adjacent [OF es, of "replicate (length garbage) []" x] assms(2) by auto
  also have "\<dots> \<longleftrightarrow> (\<exists>i < length garbage. \<exists>c \<in> set (obj_children h (garbage ! i)). linked garbage (i, c) x y)" by auto
  also have "\<dots> \<longleftrightarrow> x \<noteq> y \<and> (garbage ! y \<in> set (obj_children h (garbage ! x)) \<or> garbage ! x \<in> set (obj_children h (garbage ! y)))"
    (is "?L = ?R")
  proof
    assume ?L
    then obtain i c j where "c \<in> set (obj_children h (garbage ! i))" "position c garbage = Some j" "j \<noteq> i"
      "x = i \<and> y = j \<or> x = j \<and> y = i" by (auto simp: linked_def split: option.splits)
    with position_Some show ?R by fastforce
  next
    assume ?R
    then show ?L using position_nth [OF assms(1,2)] position_nth [OF assms(1,3)] assms(2,3)
      by (elim conjE disjE) (force simp: linked_def)+
  qed
  finally show ?thesis .
qed

lemma adjacency_range:
  assumes "x < length garbage" and "y \<in> set (adjacency garbage h ! x)"
  shows "y < length garbage"
proof -
  let ?es = "concat (map (\<lambda>i. map (Pair i) (obj_children h (garbage ! i))) [0..<length garbage])"
  have "\<exists>e \<in> set ?es. linked garbage e x y"
    using assms fold_adjacent [of ?es garbage "replicate (length garbage) []" x] unfolding adjacency_fold by auto
  then show ?thesis by (auto simp: linked_def split: option.splits dest: position_Some)
qed

lemma length_adjacency: "length (adjacency garbage h) = length garbage"
proof (cases "garbage = []")
  case False
  then show ?thesis unfolding adjacency_fold
    using fold_adjacent [of "concat (map (\<lambda>i. map (Pair i) (obj_children h (garbage ! i))) [0..<length garbage])" garbage
        "replicate (length garbage) []" 0] by auto
qed (simp add: adjacency_def)

section \<open>The search\<close>

lemma comp_visit_spec:
  assumes "comp_visit k js cof queue = (cof', queue')" and "\<forall>j \<in> set js. j < length cof"
    and "distinct queue" and "\<forall>q \<in> set queue. q < length cof \<and> cof ! q \<noteq> None"
  shows "length cof' = length cof \<and> (\<forall>i < length cof. cof' ! i = (if i \<in> set js \<and> cof ! i = None then Some k else cof ! i)) \<and>
    set queue' = set queue \<union> {j \<in> set js. cof ! j = None} \<and> distinct queue'"
  using assms
proof (induction k js cof queue rule: comp_visit.induct)
  case (1 k cof queue)
  then show ?case by auto
next
  case (2 k j js cof queue)
  show ?case
  proof (cases "cof ! j = None")
    case True
    have j: "j < length cof" "j \<notin> set queue" using 2(4,6) True by auto
    have "length cof' = length (cof[j := Some k]) \<and>
      (\<forall>i < length (cof[j := Some k]). cof' ! i = (if i \<in> set js \<and> cof[j := Some k] ! i = None then Some k else cof[j := Some k] ! i)) \<and>
      set queue' = set (queue @ [j]) \<union> {i \<in> set js. cof[j := Some k] ! i = None} \<and> distinct queue'"
      using 2 j True by (intro 2(1)) (auto simp: nth_list_update)
    then show ?thesis using j True by (auto simp: nth_list_update)
  next
    case False
    with 2 have "length cof' = length cof \<and> (\<forall>i < length cof. cof' ! i = (if i \<in> set js \<and> cof ! i = None then Some k else cof ! i)) \<and>
      set queue' = set queue \<union> {i \<in> set js. cof ! i = None} \<and> distinct queue'"
      by (intro 2(2)) auto
    with False show ?thesis by auto
  qed
qed

text \<open>The state of one search: what is queued or collected has the new number, the rest is as before.\<close>

definition search_inv :: "nat list list \<Rightarrow> nat \<Rightarrow> nat option list \<Rightarrow> nat option list \<Rightarrow> nat list \<Rightarrow> nat list \<Rightarrow> bool" where
  "search_inv adj k cof0 cof queue members =
     (length cof = length cof0 \<and> distinct (queue @ members) \<and>
      (\<forall>i \<in> set (queue @ members). i < length cof0 \<and> cof0 ! i = None) \<and>
      (\<forall>i < length cof0. cof ! i = (if i \<in> set (queue @ members) then Some k else cof0 ! i)) \<and>
      (\<forall>i \<in> set members. \<forall>j \<in> set (adj ! i). j \<in> set (queue @ members)))"

lemma search_step:
  assumes inv: "search_inv adj k cof0 cof (queue @ [i]) members"
    and range: "\<forall>i < length cof0. \<forall>j \<in> set (adj ! i). j < length cof0"
    and old: "\<forall>i < length cof0. \<forall>j \<in> set (adj ! i). cof0 ! i = None \<longrightarrow> cof0 ! j = None"
    and v: "comp_visit k (adj ! i) cof queue = (cof', queue')"
  shows "search_inv adj k cof0 cof' queue' (members @ [i])"
proof -
  have I: "length cof = length cof0" "distinct (queue @ i # members)"
    "\<And>x. x \<in> set (queue @ i # members) \<Longrightarrow> x < length cof0 \<and> cof0 ! x = None"
    "\<And>x. x < length cof0 \<Longrightarrow> cof ! x = (if x \<in> set (queue @ i # members) then Some k else cof0 ! x)"
    "\<And>x j. x \<in> set members \<Longrightarrow> j \<in> set (adj ! x) \<Longrightarrow> j \<in> set (queue @ i # members)"
    using inv unfolding search_inv_def by auto
  have il: "i < length cof0" "cof0 ! i = None" using I(3) by auto
  have q: "\<forall>q \<in> set queue. q < length cof \<and> cof ! q \<noteq> None" using I(1,3,4) by auto
  have "\<forall>j \<in> set (adj ! i). j < length cof" using range il I(1) by simp
  from comp_visit_spec [OF v this _ q] I(2)
  have V: "length cof' = length cof" "\<And>x. x < length cof \<Longrightarrow> cof' ! x = (if x \<in> set (adj ! i) \<and> cof ! x = None then Some k else cof ! x)"
    "set queue' = set queue \<union> {j \<in> set (adj ! i). cof ! j = None}" "distinct queue'" by auto
  have adj: "x < length cof0 \<and> cof0 ! x = None" if "x \<in> set (adj ! i)" for x using that range old il by blast
  have new: "j \<in> set (queue @ i # members) \<or> cof ! j = None" if "j \<in> set (adj ! i)" for j
    using that I(4) [of j] range old il by (cases "j \<in> set (queue @ i # members)") auto
  have free: "x \<notin> set (queue @ i # members)" if "x \<in> set (adj ! i)" "cof ! x = None" for x
    using that I(3,4) [of x] by auto
  show ?thesis
    unfolding search_inv_def
  proof (intro conjI)
    show "length cof' = length cof0" using V(1) I(1) by simp
    show "distinct (queue' @ members @ [i])" using V(3,4) I(2) free by auto
    show "\<forall>x \<in> set (queue' @ members @ [i]). x < length cof0 \<and> cof0 ! x = None"
      using I(3) V(3) adj by auto
    show "\<forall>x < length cof0. cof' ! x = (if x \<in> set (queue' @ members @ [i]) then Some k else cof0 ! x)"
      using V(2,3) I(1,4) by auto
    show "\<forall>x \<in> set (members @ [i]). \<forall>j \<in> set (adj ! x). j \<in> set (queue' @ members @ [i])"
      using I(5) V(3) new by auto
  qed
qed

lemma comp_loop_spec:
  "\<lbrakk>search_inv adj k cof0 cof queue members; comp_loop adj k cof queue members = (cof', members');
    \<forall>i < length cof0. \<forall>j \<in> set (adj ! i). j < length cof0;
    \<forall>i < length cof0. \<forall>j \<in> set (adj ! i). cof0 ! i = None \<longrightarrow> cof0 ! j = None\<rbrakk> \<Longrightarrow>
   search_inv adj k cof0 cof' [] members' \<and> set queue \<union> set members \<subseteq> set members'"
proof (induction adj k cof queue members rule: comp_loop.induct)
  case (1 adj k cof queue members)
  show ?case
  proof (cases "queue = []")
    case True
    with 1(2,3) show ?thesis by (simp add: comp_loop.simps)
  next
    case False
    obtain cof1 queue1 where v: "comp_visit k (adj ! last queue) cof (butlast queue) = (cof1, queue1)" by force
    have step: "search_inv adj k cof0 cof1 queue1 (members @ [last queue])"
      using search_step [OF _ 1(4,5) v] 1(2) False by simp
    have eq: "comp_loop adj k cof1 queue1 (members @ [last queue]) = (cof', members')"
      using 1(3) False v by (subst (asm) comp_loop.simps) simp
    have "distinct (butlast queue)" "\<forall>q \<in> set (butlast queue). q < length cof \<and> cof ! q \<noteq> None"
      using 1(2) False unfolding search_inv_def by (auto simp: distinct_butlast dest: in_set_butlastD)
    moreover have "last queue < length cof0" "length cof = length cof0" using 1(2) False unfolding search_inv_def by auto
    then have "\<forall>j \<in> set (adj ! last queue). j < length cof" using 1(4) by simp
    ultimately have "set (butlast queue) \<subseteq> set queue1" using comp_visit_spec [OF v] by blast
    moreover have "set queue = insert (last queue) (set (butlast queue))"
      using False by (metis append_butlast_last_id list.set(1,2) set_append Un_insert_right sup_bot_right)
    ultimately show ?thesis
      using 1(1) [OF False refl v [symmetric] refl step eq 1(4,5)] by auto
  qed
qed

text \<open>After any number of searches: the numbered vertices are the collected ones, each component is
  closed under adjacency.\<close>

definition parts_inv :: "nat list list \<Rightarrow> nat \<Rightarrow> nat option list \<times> nat list list \<Rightarrow> bool" where
  "parts_inv adj n st =
     (case st of (cof, parts) \<Rightarrow>
        length cof = n \<and> distinct (concat parts) \<and>
        (\<forall>i < n. cof ! i \<noteq> None \<longleftrightarrow> i \<in> set (concat parts)) \<and> set (concat parts) \<subseteq> {..<n} \<and>
        (\<forall>part \<in> set parts. \<forall>i \<in> set part. \<forall>j \<in> set (adj ! i). j \<in> set part))"

lemma component_step_inv:
  assumes inv: "parts_inv adj n st" and start: "start < n"
    and range: "\<forall>i < n. \<forall>j \<in> set (adj ! i). j < n" and sym: "\<forall>i < n. \<forall>j < n. j \<in> set (adj ! i) \<longrightarrow> i \<in> set (adj ! j)"
  shows "parts_inv adj n (component_step adj start st)"
    and "start \<in> set (concat (snd (component_step adj start st)))"
    and "set (concat (snd st)) \<subseteq> set (concat (snd (component_step adj start st)))"
proof -
  obtain cof parts where st: "st = (cof, parts)" by force
  have I: "length cof = n" "distinct (concat parts)" "\<And>i. i < n \<Longrightarrow> cof ! i \<noteq> None \<longleftrightarrow> i \<in> set (concat parts)"
    "set (concat parts) \<subseteq> {..<n}" "\<And>part i j. part \<in> set parts \<Longrightarrow> i \<in> set part \<Longrightarrow> j \<in> set (adj ! i) \<Longrightarrow> j \<in> set part"
    using inv unfolding parts_inv_def st by auto
  have closed: "j \<in> set (concat parts)" if "i \<in> set (concat parts)" "j \<in> set (adj ! i)" for i j
    using that I(5) by auto
  have "parts_inv adj n (component_step adj start st) \<and> start \<in> set (concat (snd (component_step adj start st))) \<and>
    set (concat parts) \<subseteq> set (concat (snd (component_step adj start st)))"
  proof (cases "cof ! start = None")
    case False
    then show ?thesis using inv I(3) [OF start] by (simp add: component_step_def st)
  next
    case True
    let ?k = "length parts"
    obtain cof' members where loop: "comp_loop adj ?k (cof[start := Some ?k]) [start] [] = (cof', members)" by force
    have "search_inv adj ?k cof (cof[start := Some ?k]) [start] []"
      using True start I(1) by (simp add: search_inv_def nth_list_update)
    moreover have old: "\<forall>i < length cof. \<forall>j \<in> set (adj ! i). cof ! i = None \<longrightarrow> cof ! j = None"
      using closed I(1,3) range sym by metis
    ultimately have S: "search_inv adj ?k cof cof' [] members" "start \<in> set members"
      using comp_loop_spec [OF _ loop] range I(1) by auto
    have M: "length cof' = n" "distinct members" "\<And>i. i \<in> set members \<Longrightarrow> i < n \<and> cof ! i = None"
      "\<And>i. i < n \<Longrightarrow> cof' ! i = (if i \<in> set members then Some ?k else cof ! i)"
      "\<And>i j. i \<in> set members \<Longrightarrow> j \<in> set (adj ! i) \<Longrightarrow> j \<in> set members"
      using S(1) I(1) unfolding search_inv_def by auto
    have eq: "component_step adj start st = (cof', parts @ [members])" using True loop by (simp add: component_step_def st)
    have disj: "i \<notin> set (concat parts)" if "i \<in> set members" for i using M(3) [OF that] I(3) [of i] by simp
    have "parts_inv adj n (cof', parts @ [members])"
      unfolding parts_inv_def prod.case
    proof (intro conjI)
      show "length cof' = n" by (rule M(1))
      show "distinct (concat (parts @ [members]))" using I(2) M(2) disj by auto
      show "\<forall>i < n. cof' ! i \<noteq> None \<longleftrightarrow> i \<in> set (concat (parts @ [members]))"
      proof (intro allI impI)
        fix i assume "i < n"
        then show "cof' ! i \<noteq> None \<longleftrightarrow> i \<in> set (concat (parts @ [members]))"
          using M(4) [of i] I(3) [of i] by (cases "i \<in> set members") simp_all
      qed
      show "set (concat (parts @ [members])) \<subseteq> {..<n}" using I(4) M(3) by auto
      show "\<forall>part \<in> set (parts @ [members]). \<forall>i \<in> set part. \<forall>j \<in> set (adj ! i). j \<in> set part"
        using I(5) M(5) by auto
    qed
    then show ?thesis unfolding eq using S(2) by simp
  qed
  then show "parts_inv adj n (component_step adj start st)" "start \<in> set (concat (snd (component_step adj start st)))"
    "set (concat (snd st)) \<subseteq> set (concat (snd (component_step adj start st)))" by (auto simp: st)
qed

lemma fold_components:
  assumes "\<forall>i < n. \<forall>j \<in> set (adj ! i). j < n" and "\<forall>i < n. \<forall>j < n. j \<in> set (adj ! i) \<longrightarrow> i \<in> set (adj ! j)"
  shows "parts_inv adj n st \<Longrightarrow> \<forall>s \<in> set ss. s < n \<Longrightarrow>
    parts_inv adj n (fold (component_step adj) ss st) \<and>
    set (concat (snd st)) \<union> set ss \<subseteq> set (concat (snd (fold (component_step adj) ss st)))"
proof (induction ss arbitrary: st)
  case (Cons s ss)
  have s: "s < n" "\<forall>s \<in> set ss. s < n" using Cons.prems(2) by simp_all
  note step = component_step_inv [OF Cons.prems(1) s(1) assms]
  from Cons.IH [OF step(1) s(2)] step(2,3) show ?case unfolding fold_simps set_simps by blast
qed simp

lemma components_partition:
  assumes "distinct garbage"
  shows "distinct (concat (weakly_connected_components garbage h)) \<and>
    set (concat (weakly_connected_components garbage h)) = set garbage \<and>
    (\<forall>part \<in> set (weakly_connected_components garbage h). \<forall>a \<in> set part. \<forall>b \<in> set garbage.
       b \<in> set (obj_children h a) \<or> a \<in> set (obj_children h b) \<longrightarrow> b \<in> set part)"
proof -
  let ?n = "length garbage" and ?adj = "adjacency garbage h"
  define parts where "parts = snd (fold (component_step ?adj) [0..<?n] (replicate ?n None, []))"
  have range: "\<forall>i < ?n. \<forall>j \<in> set (?adj ! i). j < ?n" using adjacency_range by blast
  have sym: "\<forall>i < ?n. \<forall>j < ?n. j \<in> set (?adj ! i) \<longrightarrow> i \<in> set (?adj ! j)" using adjacency_set [OF assms] by blast
  have "parts_inv ?adj ?n (replicate ?n None, [])" by (simp add: parts_inv_def)
  from fold_components [OF range sym this, of "[0..<?n]"]
  have inv: "parts_inv ?adj ?n (fst (fold (component_step ?adj) [0..<?n] (replicate ?n None, [])), parts)"
    and all: "{..<?n} \<subseteq> set (concat parts)" unfolding parts_def by auto
  have P: "distinct (concat parts)" "set (concat parts) = {..<?n}"
    "\<And>part i j. part \<in> set parts \<Longrightarrow> i \<in> set part \<Longrightarrow> j \<in> set (?adj ! i) \<Longrightarrow> j \<in> set part"
    using inv all unfolding parts_inv_def by auto
  have W: "weakly_connected_components garbage h = map (map ((!) garbage)) parts"
    by (simp add: weakly_connected_components_def parts_def)
  have c: "concat (map (map ((!) garbage)) parts) = map ((!) garbage) (concat parts)" by (simp add: map_concat)
  have "inj_on ((!) garbage) {..<?n}" using assms by (simp add: inj_on_nth)
  with P(1,2) have d: "distinct (map ((!) garbage) (concat parts))" by (simp add: distinct_map)
  have sset: "set (map ((!) garbage) (concat parts)) = set garbage"
    using P(2) by (simp add: nth_image lessThan_atLeast0 [symmetric]) (metis image_image nth_image order_refl take_all lessThan_atLeast0)
  have "b \<in> set part"
    if part: "part \<in> set (map (map ((!) garbage)) parts)" and a: "a \<in> set part" and b: "b \<in> set garbage"
      and e: "b \<in> set (obj_children h a) \<or> a \<in> set (obj_children h b)" for part a b
  proof -
    obtain p where p: "p \<in> set parts" "part = map ((!) garbage) p" using part by auto
    obtain i where i: "i \<in> set p" "a = garbage ! i" using a p(2) by auto
    obtain j where j: "j < ?n" "b = garbage ! j" using b by (auto simp: in_set_conv_nth)
    have il: "i < ?n" using P(2) p(1) i(1) by auto
    have "j \<in> set p"
    proof (cases "i = j")
      case True
      then show ?thesis using i(1) by simp
    next
      case False
      then have "j \<in> set (?adj ! i)" using adjacency_set [OF assms il j(1)] e i(2) j(2) by simp
      then show ?thesis using P(3) [OF p(1) i(1)] by blast
    qed
    then show ?thesis using p(2) j(2) by simp
  qed
  then show ?thesis unfolding W c using d sset by blast
qed

end
