(* ===== verification/Gc_Trace.thy ===== *)
theory Gc_Trace
  imports Gc_Count Gc_Walk Gc_Components
begin

text \<open>
  The backup mark-sweep: what \<open>collect_trace\<close> hands back is exactly what the roots do not reach, its
  anomaly count is zero on a heap with exact counts and complete roots, and the safepoint variant is
  safe even when the interpreter forgets a root.
\<close>

section \<open>Marking\<close>

lemma mark_walk_append: "mark_walk (xs @ ys) h = mark_walk ys (mark_walk xs h)"
  by (induction xs h rule: mark_walk.induct) auto

lemma fold_mark: "fold mark roots h = mark_walk (pointers roots) h"
proof (induction roots arbitrary: h)
  case (Cons v vs)
  show ?case
  proof (cases v)
    case Imm
    with Cons show ?thesis by (simp add: mark_def)
  next
    case (Ptr a)
    have "mark_walk (pointers vs) (mark_walk [a] h) = mark_walk ([a] @ pointers vs) h" by (simp only: mark_walk_append)
    with Cons Ptr show ?thesis by (simp add: mark_def del: mark_walk.simps)
  qed
qed simp

text \<open>What the roots reach through objects that are not borrow-shared.\<close>

definition reached_from :: "heap \<Rightarrow> addr list \<Rightarrow> addr set" where
  "reached_from h as = opened ob_shared (\<lambda>_. True) h as"

text \<open>Colors between collections: a gray object is a leaf an earlier trace left behind.\<close>

definition colors_ready :: "heap \<Rightarrow> bool" where
  "colors_ready h = (\<forall>x. ob_color (obj_at h x) = Gray \<longrightarrow> obj_children h x = [] \<and> x \<notin> set (hp_registry h))"

lemma opened_reached:
  assumes "colors_ready h" and "ob_color (obj_at h x) \<noteq> Gray"
  shows "x \<in> opened ob_shared (\<lambda>c. c \<noteq> Gray) h as \<longleftrightarrow> x \<in> reached_from h as"
proof
  show "x \<in> reached_from h as" if "x \<in> opened ob_shared (\<lambda>c. c \<noteq> Gray) h as"
    using that unfolding reached_from_def
  proof induction
    case (first a)
    then show ?case by (intro opened.first) (auto simp: enters_def)
  next
    case (further b c)
    show ?case by (rule opened.further [OF further.IH further.hyps(2)]) (use further.hyps(3) in \<open>simp add: enters_def\<close>)
  qed
  have "x \<in> reached_from h as \<Longrightarrow> ob_color (obj_at h x) \<noteq> Gray \<longrightarrow> x \<in> opened ob_shared (\<lambda>c. c \<noteq> Gray) h as" for x
    unfolding reached_from_def
  proof (induction rule: opened.induct)
    case (first a)
    then show ?case by (auto simp: enters_def intro!: opened.first)
  next
    case (further b c)
    then have "ob_color (obj_at h b) \<noteq> Gray" using assms(1) by (auto simp: colors_ready_def)
    with further.IH have b: "b \<in> opened ob_shared (\<lambda>c. c \<noteq> Gray) h as" by simp
    show ?case using opened.further [OF b further.hyps(2)] further.hyps(3) by (simp add: enters_def)
  qed
  with assms(2) show "x \<in> opened ob_shared (\<lambda>c. c \<noteq> Gray) h as" if "x \<in> reached_from h as" using that by blast
qed

lemma marked_gray:
  assumes "colors_ready h" and "x \<in> set (hp_registry h)"
  shows "ob_color (obj_at (mark_walk as h) x) = Gray \<longleftrightarrow> x \<in> reached_from h as"
proof -
  have "ob_color (obj_at h x) \<noteq> Gray" using assms by (auto simp: colors_ready_def)
  with opened_reached [OF assms(1) this] show ?thesis by (simp add: mark.walk_color mark.entered_def)
qed

lemma mark_counts: "ob_refcount (obj_at (mark_walk as h) x) = ob_refcount (obj_at h x)"
proof (cases "x < length (hp_objs h)")
  case True
  have "mark.outcome h as (mark_walk as h) x" using mark.walk_outcome by blast
  with True show ?thesis unfolding mark.outcome_def by simp
next
  case False
  then show ?thesis using repaintedD(1) [OF mark.walk_repainted [of h as]] by (simp add: obj_at_def)
qed

section \<open>Resetting the survivors\<close>

lemma reset_gray_repainted: "repainted h (reset_gray a h)"
  by (simp add: reset_gray_def repainted_steps repainted_refl)

lemma fold_reset:
  "repainted h (fold reset_gray as h) \<and>
   (\<forall>x. ob_color (obj_at (fold reset_gray as h) x) =
     (if x \<in> set as \<and> ob_color (obj_at h x) = Gray then Black else ob_color (obj_at h x))) \<and>
   (\<forall>x. ob_refcount (obj_at (fold reset_gray as h) x) = ob_refcount (obj_at h x))"
proof (induction as arbitrary: h)
  case Nil
  then show ?case by (simp add: repainted_refl)
next
  case (Cons a as)
  have "ob_color (obj_at (reset_gray a h) x) = (if x = a \<and> ob_color (obj_at h x) = Gray then Black else ob_color (obj_at h x))"
    "ob_refcount (obj_at (reset_gray a h) x) = ob_refcount (obj_at h x)" for x
    using gray_in_range [of h a] by (auto simp: reset_gray_def obj_at_set_color)
  with Cons.IH [of "reset_gray a h"] repainted_trans [OF reset_gray_repainted [of h a]] show ?case by auto
qed

text \<open>The state a trace leaves: only colors have changed.\<close>

lemma trace_state:
  assumes "colors_ready h" and "h2 = fold reset_gray (hp_registry h) (mark_walk as h)"
  shows "repainted h h2" and "ob_refcount (obj_at h2 x) = ob_refcount (obj_at h x)"
    and "ob_color (obj_at h2 x) = Gray \<Longrightarrow> x \<notin> set (hp_registry h)"
proof -
  let ?h1 = "mark_walk as h"
  note r = fold_reset [of ?h1 "hp_registry h"]
  show "repainted h h2" using repainted_trans [OF mark.walk_repainted] r assms(2) by blast
  show "ob_refcount (obj_at h2 x) = ob_refcount (obj_at h x)" using r assms(2) by (simp add: mark_counts)
  show "x \<notin> set (hp_registry h)" if "ob_color (obj_at h2 x) = Gray" using that r assms(2) by (auto split: if_splits)
qed

text \<open>The registry lists exactly the live objects that can have children, in \<open>Trace\<close> mode.\<close>

definition registry_ok :: "heap \<Rightarrow> bool" where
  "registry_ok h = (distinct (hp_registry h) \<and>
     (\<forall>a \<in> set (hp_registry h). live_at h a \<and> \<not> ob_shared (obj_at h a)) \<and>
     (\<forall>a. live_at h a \<and> \<not> ob_shared (obj_at h a) \<and> obj_children h a \<noteq> [] \<longrightarrow> a \<in> set (hp_registry h)))"

lemma registry_okD:
  assumes "registry_ok h"
  shows "distinct (hp_registry h)" "a \<in> set (hp_registry h) \<Longrightarrow> live_at h a" "a \<in> set (hp_registry h) \<Longrightarrow> \<not> ob_shared (obj_at h a)"
    "live_at h a \<Longrightarrow> \<not> ob_shared (obj_at h a) \<Longrightarrow> obj_children h a \<noteq> [] \<Longrightarrow> a \<in> set (hp_registry h)"
  using assms unfolding registry_ok_def by blast+


section \<open>Anomalies\<close>

text \<open>The in-edges of a set of live holders are at most the object's count.\<close>

lemma in_edges_sum:
  assumes "distinct garbage" and "\<forall>a \<in> set garbage. holds h a"
  shows "sum_list (map (\<lambda>a. count_list (obj_children h a) x) garbage) +
      (\<Sum>a \<in> {a. a < length (hp_objs h) \<and> holds h a} - set garbage. count_list (obj_children h a) x) = edges h x"
proof -
  let ?A = "{a. a < length (hp_objs h) \<and> holds h a}"
  have sub: "set garbage \<subseteq> ?A" using assms(2) holds_live by blast
  have "sum_list (map (\<lambda>a. count_list (obj_children h a) x) garbage) = (\<Sum>a \<in> set garbage. count_list (obj_children h a) x)"
    using assms(1) by (rule sum_list_distinct_conv_sum_set)
  moreover have "edges h x = (\<Sum>a \<in> ?A - set garbage. count_list (obj_children h a) x) + (\<Sum>a \<in> set garbage. count_list (obj_children h a) x)"
    unfolding edges_def by (rule sum.subset_diff [OF sub]) simp
  ultimately show ?thesis by simp
qed

lemma unat_of_nat_le: "n \<le> unat (w :: 32 word) \<Longrightarrow> unat (of_nat n :: 32 word) = n"
  using unsigned_less [of w, where ?'a = nat] by (simp add: unat_of_nat)

text \<open>A member balances exactly when nothing outside the set refers to it.\<close>

lemma balanced_iff:
  assumes ex: "exact h ext" and g: "distinct garbage" "\<forall>a \<in> set garbage. holds h a"
    and a: "a \<in> set garbage" "\<not> ob_shared (obj_at h a)"
  shows "ob_refcount (obj_at h a) = in_edges garbage h a \<longleftrightarrow>
    ext a = 0 \<and> (\<forall>b. holds h b \<and> a \<in> set (obj_children h b) \<longrightarrow> b \<in> set garbage)"
proof -
  let ?s = "sum_list (map (\<lambda>b. count_list (obj_children h b) a) garbage)"
  let ?O = "{b. b < length (hp_objs h) \<and> holds h b} - set garbage"
  have live: "live_at h a" using g(2) a(1) holds_live by blast
  have rc: "unat (ob_refcount (obj_at h a)) = ext a + (?s + (\<Sum>b \<in> ?O. count_list (obj_children h b) a))"
    using exactD(1) [OF ex live a(2)] in_edges_sum [OF g, of a] by simp
  then have s: "unat (in_edges garbage h a) = ?s" unfolding in_edges_def by (intro unat_of_nat_le [of _ "ob_refcount (obj_at h a)"]) simp
  have "ob_refcount (obj_at h a) = in_edges garbage h a \<longleftrightarrow> unat (ob_refcount (obj_at h a)) = ?s"
    using s by (metis word_unat_eq_iff)
  also have "\<dots> \<longleftrightarrow> ext a = 0 \<and> (\<Sum>b \<in> ?O. count_list (obj_children h b) a) = 0" using rc by auto
  also have "(\<Sum>b \<in> ?O. count_list (obj_children h b) a) = 0 \<longleftrightarrow> (\<forall>b \<in> ?O. a \<notin> set (obj_children h b))"
    by (subst sum_eq_0_iff) (auto simp: count_list_0_iff)
  also have "\<dots> \<longleftrightarrow> (\<forall>b. holds h b \<and> a \<in> set (obj_children h b) \<longrightarrow> b \<in> set garbage)"
    using holds_live by blast
  finally show ?thesis .
qed

lemma in_edges_cong: "(\<And>a. obj_children h' a = obj_children h a) \<Longrightarrow> in_edges garbage h' = in_edges garbage h"
  by (simp add: in_edges_def fun_eq_iff)

lemma anomalies_cong:
  assumes "\<And>a. obj_children h' a = obj_children h a" and "\<And>a. ob_refcount (obj_at h' a) = ob_refcount (obj_at h a)"
  shows "count_refcount_anomalies garbage h' = count_refcount_anomalies garbage h"
  unfolding count_refcount_anomalies_def using assms in_edges_cong [OF assms(1)] by simp

lemma no_anomalies_iff:
  "count_refcount_anomalies garbage h = 0 \<longleftrightarrow> (\<forall>a \<in> set garbage. ob_refcount (obj_at h a) = in_edges garbage h a)"
  by (auto simp: count_refcount_anomalies_def filter_empty_conv)

text \<open>What the program can still reach: from its own references, through whatever holds references.\<close>

inductive_set in_use :: "heap \<Rightarrow> (addr \<Rightarrow> nat) \<Rightarrow> addr set" for h ext where
  owned: "0 < ext a \<Longrightarrow> a \<in> in_use h ext"
| child: "\<lbrakk>a \<in> in_use h ext; holds h a; c \<in> set (obj_children h a)\<rbrakk> \<Longrightarrow> c \<in> in_use h ext"

lemma balanced_not_in_use:
  assumes "exact h ext" and "distinct garbage" and "\<forall>a \<in> set garbage. holds h a \<and> \<not> ob_shared (obj_at h a)"
    and "count_refcount_anomalies garbage h = 0" and "a \<in> in_use h ext"
  shows "a \<notin> set garbage"
proof -
  have g: "\<forall>a \<in> set garbage. holds h a" using assms(3) by blast
  have bal: "ext a = 0 \<and> (\<forall>b. holds h b \<and> a \<in> set (obj_children h b) \<longrightarrow> b \<in> set garbage)" if "a \<in> set garbage" for a
    using balanced_iff [OF assms(1,2) g that] assms(3,4) that by (simp add: no_anomalies_iff)
  from assms(5) show ?thesis
  proof induction
    case (owned a)
    then show ?case using bal by auto
  next
    case (child a c)
    then show ?case using bal [of c] by blast
  qed
qed

lemma registered_holders:
  assumes "registry_ok h" and "\<forall>a. live_at h a \<longrightarrow> holds h a" and "set garbage \<subseteq> set (hp_registry h)"
  shows "\<forall>a \<in> set garbage. holds h a \<and> \<not> ob_shared (obj_at h a)"
  using registry_okD(2,3) [OF assms(1)] assms(2,3) by blast

text \<open>Promotion copies whole graphs, so what a borrow-shared object refers to is borrow-shared.\<close>

definition shared_closed :: "heap \<Rightarrow> bool" where
  "shared_closed h = (\<forall>a. ob_shared (obj_at h a) \<longrightarrow> (\<forall>c \<in> set (obj_children h a). ob_shared (obj_at h c)))"

text \<open>
  A correct program shows no anomalies. If every count is exact, every live object holds its
  references (nothing is waiting to be freed) and the roots list every object the program owns, then the
  trace finds no mismatch between the counts of its garbage and the references within it: each anomaly
  the leak oracle reports is a genuine counting error.
\<close>

theorem trace_reports_no_false_anomaly:
  assumes "exact h ext" and "colors_ready h" and "registry_ok h" and "\<forall>a. live_at h a \<longrightarrow> holds h a" and "shared_closed h"
    and "\<forall>a. 0 < ext a \<longrightarrow> a \<in> set (pointers roots) \<or> ob_shared (obj_at h a)"
    and "collect_trace roots h = (gb, h')"
  shows "hp_anomalies h' = hp_anomalies h"
proof -
  let ?as = "pointers roots"
  let ?h1 = "mark_walk ?as h"
  define h2 where "h2 = fold reset_gray (hp_registry h) ?h1"
  have reg: "hp_registry ?h1 = hp_registry h" using repaintedD(10) [OF mark.walk_repainted] .
  note st = trace_state [OF assms(2) h2_def]
  let ?g = "filter (\<lambda>a. ob_color (obj_at ?h1 a) \<noteq> Gray) (hp_registry h)"
  have h': "hp_anomalies h' = hp_anomalies h2 + count_refcount_anomalies ?g h2"
    using assms(7) by (auto simp: collect_trace_def Let_def fold_mark reg h2_def)
  have "h2 = h\<lparr>hp_objs := hp_objs h2\<rparr>" using st(1) by (simp add: repainted_def)
  then have an: "hp_anomalies h2 = hp_anomalies h" by (metis heap.select_convs(8) heap.surjective heap.update_convs(1))
  have out: "a \<notin> reached_from h ?as" if "a \<in> set ?g" for a using that marked_gray [OF assms(2), of a ?as] by simp
  have inr: "a \<in> set ?g" if "a \<in> set (hp_registry h)" "a \<notin> reached_from h ?as" for a
    using that marked_gray [OF assms(2), of a ?as] by simp
  have mem: "\<forall>a \<in> set ?g. holds h a \<and> \<not> ob_shared (obj_at h a)"
    by (rule registered_holders [OF assms(3,4)]) auto
  have "ob_refcount (obj_at h a) = in_edges ?g h a" if a: "a \<in> set ?g" for a
  proof (subst balanced_iff [OF assms(1)])
    show "distinct ?g" using registry_okD(1) [OF assms(3)] by simp
    show "\<forall>a \<in> set ?g. holds h a" "\<not> ob_shared (obj_at h a)" using mem a by auto
    have al: "enters ob_shared (\<lambda>_. True) h a" using mem a holds_live [of h a] by (simp add: enters_def)
    have "ext a = 0"
    proof (rule ccontr)
      assume "ext a \<noteq> 0"
      with assms(6) mem a have "a \<in> set ?as" by blast
      with al out [OF a] show False by (auto simp: reached_from_def intro: opened.first)
    qed
    moreover have "b \<in> set ?g" if b: "holds h b" "a \<in> set (obj_children h b)" for b
    proof (rule inr)
      show nb: "b \<notin> reached_from h ?as"
        using out [OF a] al b(2) by (auto simp: reached_from_def intro: opened.further)
      have "\<not> ob_shared (obj_at h b)" using assms(5) b(2) mem a unfolding shared_closed_def by blast
      then show "b \<in> set (hp_registry h)" using b(2) holds_live [OF b(1)] registry_okD(4) [OF assms(3), of b] by fastforce
    qed
    ultimately show "ext a = 0 \<and> (\<forall>b. holds h b \<and> a \<in> set (obj_children h b) \<longrightarrow> b \<in> set ?g)" by blast
  qed (rule a)
  then have "count_refcount_anomalies ?g h = 0" by (simp add: no_anomalies_iff)
  then show ?thesis using h' an anomalies_cong [of h2 h ?g] st(2) repaintedD(8) [OF st(1)] by simp
qed

section \<open>The safepoint trace\<close>

lemma set_newest_first [simp]: "set (newest_first h as) = set as"
  by (simp add: newest_first_def)

lemma safepoint_fresh:
  assumes "colors_ready h" and "registry_ok h" and "collect_trace_safepoint defer roots h = (gb, h')"
    and g: "g = filter (\<lambda>a. ob_color (obj_at (mark_walk (pointers roots) h) a) \<noteq> Gray) (hp_registry h)"
  shows "gb_fresh gb = [] \<or>
    count_refcount_anomalies g h = 0 \<and>
    set (gb_fresh gb) = \<Union> (set ` {part \<in> set (weakly_connected_components g h'). \<not> list_ex defer part})"
    and "repainted h h'" and "ob_refcount (obj_at h' x) = ob_refcount (obj_at h x)"
proof -
  let ?h1 = "mark_walk (pointers roots) h"
  have reg: "hp_registry ?h1 = hp_registry h" using repaintedD(10) [OF mark.walk_repainted] .
  have h': "h' = fold reset_gray (hp_registry h) ?h1"
    using assms(3) by (auto simp: collect_trace_safepoint_def Let_def fold_mark reg split: if_splits)
  note st = trace_state [OF assms(1) h']
  show "repainted h h'" "ob_refcount (obj_at h' x) = ob_refcount (obj_at h x)" by (rule st)+
  have an: "count_refcount_anomalies g h' = count_refcount_anomalies g h"
    by (rule anomalies_cong) (use st repaintedD(8) [OF st(1)] in simp_all)
  show "gb_fresh gb = [] \<or> count_refcount_anomalies g h = 0 \<and>
    set (gb_fresh gb) = \<Union> (set ` {part \<in> set (weakly_connected_components g h'). \<not> list_ex defer part})"
  proof (cases "g = [] \<or> count_refcount_anomalies g h \<noteq> 0")
    case True
    then have "gb = garbage_default" using assms(3) an
      by (auto simp: collect_trace_safepoint_def Let_def fold_mark reg g [symmetric] h' [symmetric])
    then show ?thesis by (simp add: garbage_default_def)
  next
    case False
    then have "gb_fresh gb = newest_first h' (concat (filter (\<lambda>part. \<not> list_ex defer part) (weakly_connected_components g h')))"
      using assms(3) an by (auto simp: collect_trace_safepoint_def Let_def fold_mark reg g [symmetric] h' [symmetric])
    with False show ?thesis by simp
  qed
qed

text \<open>
  C37: a safepoint collection never frees anything in use, even if the interpreter forgot a root. With
  exact counts and any list of roots, what the safepoint trace reclaims is unreachable from everything
  the program owns, bears no destructor (nothing the \<open>defer\<close> predicate holds for), and has no reference
  to or from a dead object that is kept for the exit collection. Nothing but colors has changed.
\<close>

theorem safepoint_survives_missed_roots:
  assumes "exact h ext" and "colors_ready h" and "registry_ok h" and "\<forall>a. live_at h a \<longrightarrow> holds h a"
    and "collect_trace_safepoint defer roots h = (gb, h')"
  shows "set (gb_fresh gb) \<inter> in_use h ext = {} \<and> (\<forall>a \<in> set (gb_fresh gb). \<not> defer a) \<and>
    (\<forall>a \<in> set (gb_fresh gb). \<forall>b \<in> set (hp_registry h) - reached_from h (pointers roots) - set (gb_fresh gb).
       b \<notin> set (obj_children h a) \<and> a \<notin> set (obj_children h b)) \<and>
    (\<forall>a. same_mem (obj_at h a) (obj_at h' a))"
proof -
  define g where "g = filter (\<lambda>a. ob_color (obj_at (mark_walk (pointers roots) h) a) \<noteq> Gray) (hp_registry h)"
  note f = safepoint_fresh [OF assms(2,3,5) g_def]
  have set_g: "set g = set (hp_registry h) - reached_from h (pointers roots)"
    unfolding g_def set_filter using marked_gray [OF assms(2), of _ "pointers roots"] by blast
  have d: "distinct g" unfolding g_def using registry_okD(1) [OF assms(3)] by simp
  have mem: "\<forall>a \<in> set g. holds h a \<and> \<not> ob_shared (obj_at h a)"
    by (rule registered_holders [OF assms(3,4)]) (simp add: set_g)
  have kids: "obj_children h' a = obj_children h a" for a using repaintedD(8) [OF f(2)] .
  have same: "same_mem (obj_at h a) (obj_at h' a)" for a
    unfolding same_mem_def using f(3) repaintedD(2-4) [OF f(2)] by blast
  note parts = components_partition [OF d, of h', unfolded kids]
  show ?thesis
  proof (cases "gb_fresh gb = []")
    case True
    with same show ?thesis by simp
  next
    case False
    with f(1) have an: "count_refcount_anomalies g h = 0" and fresh:
      "set (gb_fresh gb) = \<Union> (set ` {part \<in> set (weakly_connected_components g h'). \<not> list_ex defer part})" by auto
    have sub: "set (gb_fresh gb) \<subseteq> set g" unfolding fresh using parts by auto
    have "set (gb_fresh gb) \<inter> in_use h ext = {}"
      using balanced_not_in_use [OF assms(1) d mem an] sub by blast
    moreover have "\<forall>a \<in> set (gb_fresh gb). \<not> defer a" unfolding fresh by (auto simp: list_ex_iff)
    moreover have "b \<notin> set (obj_children h a) \<and> a \<notin> set (obj_children h b)"
      if a: "a \<in> set (gb_fresh gb)" and b: "b \<in> set g - set (gb_fresh gb)" for a b
    proof -
      obtain part where p: "part \<in> set (weakly_connected_components g h')" "\<not> list_ex defer part" "a \<in> set part"
        using a unfolding fresh by blast
      have "b \<notin> set part" using b p(1,2) unfolding fresh by blast
      then show ?thesis using parts p(1,3) b by blast
    qed
    ultimately show ?thesis using same unfolding set_g by blast
  qed
qed

end
