(* ===== verification/Gc_Trial.thy ===== *)
theory Gc_Trial
  imports Gc_Trace
begin

text \<open>
  Trial deletion (Bacon and Rajan's synchronous cycle collection): the first phase takes the references
  inside the candidate subgraph out of the counts, the second restores what is still referenced from
  outside, the third gathers what is left. The proof follows the three phases, each with the counts
  written as the original count less the references from the objects trial-deleted so far.
\<close>

section \<open>Vocabulary\<close>

text \<open>The references into \<open>x\<close> from a set of objects.\<close>

definition refs :: "heap \<Rightarrow> addr set \<Rightarrow> addr \<Rightarrow> nat" where
  "refs h S x = (\<Sum>y \<in> S. count_list (obj_children h y) x)"

definition unshared :: "heap \<Rightarrow> addr \<Rightarrow> bool" where
  "unshared h x = (x < length (hp_objs h) \<and> \<not> ob_shared (obj_at h x))"

text \<open>A set of objects that keeps every unshared child.\<close>

definition child_closed :: "heap \<Rightarrow> addr set \<Rightarrow> bool" where
  "child_closed h S = (\<forall>y \<in> S. \<forall>c \<in> set (obj_children h y). unshared h c \<longrightarrow> c \<in> S)"

text \<open>Heaps that agree on everything a collection leaves alone.\<close>

definition same_graph :: "heap \<Rightarrow> heap \<Rightarrow> bool" where
  "same_graph h h' = (length (hp_objs h') = length (hp_objs h) \<and>
     (\<forall>x. obj_children h' x = obj_children h x \<and> ob_shared (obj_at h' x) = ob_shared (obj_at h x) \<and>
          ob_freed (obj_at h' x) = ob_freed (obj_at h x)))"

lemma same_graphD:
  assumes "same_graph h h'"
  shows "length (hp_objs h') = length (hp_objs h)" "obj_children h' x = obj_children h x"
    "ob_shared (obj_at h' x) = ob_shared (obj_at h x)" "unshared h' x = unshared h x" "refs h' S x = refs h S x"
    "child_closed h' S = child_closed h S" "live_at h' x = live_at h x"
  using assms by (simp_all add: same_graph_def unshared_def refs_def child_closed_def live_at_def)

lemma same_graph_refl: "same_graph h h"
  by (simp add: same_graph_def)

lemma same_graph_trans: "same_graph h g \<Longrightarrow> same_graph g k \<Longrightarrow> same_graph h k"
  by (simp add: same_graph_def)

lemma repainted_same_graph: "repainted h h' \<Longrightarrow> same_graph h h'"
  by (simp add: same_graph_def repaintedD)

lemma set_buffered_same:
  "same_graph h (set_buffered a b h)" "ob_color (obj_at (set_buffered a b h) x) = ob_color (obj_at h x)"
  "ob_refcount (obj_at (set_buffered a b h) x) = ob_refcount (obj_at h x)"
  by (simp_all add: same_graph_def set_buffered_def obj_at_upd obj_children_def)

lemma refs_insert: "finite S \<Longrightarrow> a \<notin> S \<Longrightarrow> refs h (insert a S) x = count_list (obj_children h a) x + refs h S x"
  by (simp add: refs_def)

lemma refs_union: "finite S \<Longrightarrow> finite T \<Longrightarrow> S \<inter> T = {} \<Longrightarrow> refs h (S \<union> T) x = refs h S x + refs h T x"
  by (simp add: refs_def sum.union_disjoint)

lemma refs_pos: "finite S \<Longrightarrow> 0 < refs h S x \<longleftrightarrow> (\<exists>y \<in> S. x \<in> set (obj_children h y))"
  by (simp add: refs_def sum_pos2 zero_less_iff_neq_zero sum_eq_0_iff count_list_0_iff)

text \<open>What a walk from the children of \<open>s\<close> enters after \<open>s\<close> itself was painted.\<close>

definition spread :: "(color \<Rightarrow> bool) \<Rightarrow> color \<Rightarrow> heap \<Rightarrow> addr \<Rightarrow> addr set" where
  "spread op paint h s = opened ob_shared op (set_color s paint h) (obj_children h s)"

lemma spread_enters:
  assumes "x \<in> spread op paint h s" and "\<not> op paint"
  shows "unshared h x" "op (ob_color (obj_at h x))" "x \<noteq> s \<or> s \<ge> length (hp_objs h)"
  using opened_enters [OF assms(1) [unfolded spread_def]] assms(2)
  by (auto simp: enters_def unshared_def obj_at_set_color split: if_splits)

lemma spread_closed:
  assumes "y \<in> insert s (spread op paint h s)" and "c \<in> set (obj_children h y)" and "unshared h c"
  shows "c \<in> insert s (spread op paint h s) \<or> \<not> op (ob_color (obj_at h c))"
proof (cases "c = s \<or> \<not> op (ob_color (obj_at h c))")
  case False
  then have c: "enters ob_shared op (set_color s paint h) c"
    using assms(3) by (simp add: enters_def unshared_def obj_at_set_color)
  from assms(1) have "c \<in> spread op paint h s"
  proof
    assume "y = s"
    then have "c \<in> set (obj_children h s)" using assms(2) by simp
    from opened.first [OF this c] show ?thesis unfolding spread_def .
  next
    assume "y \<in> spread op paint h s"
    from opened.further [OF this [unfolded spread_def] _ c] assms(2) show ?thesis unfolding spread_def by simp
  qed
  then show ?thesis by simp
qed auto

lemma finite_spread: "finite (spread op paint h s)"
  unfolding spread_def by (rule finite_opened)

text \<open>Everything a walk enters is reached from where it starts.\<close>

lemma spread_reached:
  assumes "s \<in> reached_from h as" and "x \<in> spread op paint h s"
  shows "x \<in> reached_from h as"
proof -
  have e: "enters ob_shared (\<lambda>_. True) h a" if "enters ob_shared op (set_color s paint h) a" for a
    using that by (auto simp: enters_def obj_at_set_color split: if_splits)
  from assms(2) [unfolded spread_def] show ?thesis
  proof induction
    case (first a)
    from opened.further [OF assms(1) [unfolded reached_from_def] first(1) e [OF first(2)]]
    show ?case unfolding reached_from_def .
  next
    case (further b c)
    have "c \<in> set (obj_children h b)" using further.hyps(2) by simp
    from opened.further [OF further.IH [unfolded reached_from_def] this e [OF further.hyps(3)]]
    show ?case unfolding reached_from_def .
  qed
qed

section \<open>First phase: trial decrements\<close>

definition gray_inv :: "heap \<Rightarrow> heap \<Rightarrow> addr set \<Rightarrow> bool" where
  "gray_inv h0 h G =
     (same_graph h0 h \<and> (\<forall>x. ob_color (obj_at h x) = (if x \<in> G then Gray else ob_color (obj_at h0 x))) \<and>
      (\<forall>x \<in> G. unshared h0 x) \<and> child_closed h0 G \<and>
      (\<forall>x. unshared h0 x \<longrightarrow> ob_refcount (obj_at h x) = ob_refcount (obj_at h0 x) - of_nat (refs h0 G x)))"

lemma gray_invD:
  assumes "gray_inv h0 h G"
  shows "same_graph h0 h" "ob_color (obj_at h x) = (if x \<in> G then Gray else ob_color (obj_at h0 x))"
    "x \<in> G \<Longrightarrow> unshared h0 x" "child_closed h0 G"
    "unshared h0 x \<Longrightarrow> ob_refcount (obj_at h x) = ob_refcount (obj_at h0 x) - of_nat (refs h0 G x)" "finite G"
proof -
  show "same_graph h0 h" "ob_color (obj_at h x) = (if x \<in> G then Gray else ob_color (obj_at h0 x))"
    "x \<in> G \<Longrightarrow> unshared h0 x" "child_closed h0 G"
    "unshared h0 x \<Longrightarrow> ob_refcount (obj_at h x) = ob_refcount (obj_at h0 x) - of_nat (refs h0 G x)"
    using assms unfolding gray_inv_def by blast+
  have "G \<subseteq> {..<length (hp_objs h0)}" using assms unfolding gray_inv_def unshared_def by blast
  then show "finite G" by (rule finite_subset) simp
qed

lemma mark_gray_inv:
  assumes inv: "gray_inv h0 h G" and s: "unshared h0 s" "s \<notin> G"
    and idle: "\<And>x. ob_color (obj_at h0 x) \<noteq> Gray"
  shows "gray_inv h0 (mark_gray s h) (G \<union> insert s (spread (\<lambda>c. c \<noteq> Gray) Gray h s))"
proof -
  let ?R = "spread (\<lambda>c. c \<noteq> Gray) Gray h s" let ?g = "set_color s Gray h" let ?h = "mark_gray s h"
  let ?S = "insert s ?R"
  note I = gray_invD [OF inv] and sg = same_graphD [OF gray_invD(1) [OF inv]]
  have sl: "s < length (hp_objs h)" "\<not> ob_shared (obj_at h s)" using s(1) sg by (simp_all add: unshared_def)
  have hh: "?h = mark_gray_walk (obj_children h s) ?g" using s(2) idle [of s] I(2) [of s] by (simp add: mark_gray_def)
  have ent: "gray.entered ?g (obj_children h s) = ?R" by (simp add: gray.entered_def spread_def)
  have graph: "same_graph h0 ?h"
    using same_graph_trans [OF I(1)] repainted_same_graph [OF repainted_trans [OF repainted_steps(2) gray.walk_repainted]] hh by metis
  have R: "unshared h0 x \<and> x \<notin> G \<and> x \<noteq> s" if "x \<in> ?R" for x
    using spread_enters [OF that] I(2) [of x] sg sl by (auto split: if_splits)
  have disj: "G \<inter> ?S = {}" "s \<notin> ?R" using R s(2) by auto
  have fin: "finite ?S" using finite_spread by simp
  have "ob_color (obj_at ?h x) = (if x \<in> G \<union> ?S then Gray else ob_color (obj_at h0 x))" for x
    unfolding hh gray.walk_color ent using I(2) [of x] sl by (auto simp: obj_at_set_color)
  moreover have "unshared h0 x" if "x \<in> G \<union> ?S" for x using that I(3) R s(1) by auto
  moreover have "child_closed h0 (G \<union> ?S)"
    unfolding child_closed_def
  proof (intro ballI impI)
    fix y c assume y: "y \<in> G \<union> ?S" and c: "c \<in> set (obj_children h0 y)" "unshared h0 c"
    show "c \<in> G \<union> ?S"
    proof (cases "y \<in> G")
      case True
      then show ?thesis using I(4) c unfolding child_closed_def by blast
    next
      case False
      then have "c \<in> ?S \<or> ob_color (obj_at h c) = Gray"
        using spread_closed [of y s "\<lambda>c. c \<noteq> Gray" Gray h c] y c sg by auto
      then show ?thesis using I(2) [of c] idle [of c] by (auto split: if_splits)
    qed
  qed
  moreover have "ob_refcount (obj_at ?h x) = ob_refcount (obj_at h0 x) - of_nat (refs h0 (G \<union> ?S) x)" if x: "unshared h0 x" for x
  proof -
    have xl: "x < length (hp_objs ?g)" "\<not> ob_shared (obj_at ?g x)" using x sg by (auto simp: unshared_def obj_at_set_color)
    have "arrivals ?g ?R (obj_children h s) x = refs h0 ?S x"
      using disj(2) finite_spread by (simp add: arrivals_def refs_insert refs_def sg)
    then have "ob_refcount (obj_at ?h x) = ob_refcount (obj_at h x) - of_nat (refs h0 ?S x)"
      unfolding hh gray.walk_count [OF xl] ent by (auto simp: obj_at_set_color)
    then show ?thesis using I(5) [OF x] refs_union [OF I(6) fin disj(1)] by simp
  qed
  ultimately show ?thesis using graph unfolding gray_inv_def by blast
qed

lemma reached_same: "same_graph h h' \<Longrightarrow> reached_from h' as = reached_from h as"
  unfolding reached_from_def by (rule opened_cong) (simp_all add: same_graph_def enters_def)

lemma reached_mono: "set as \<subseteq> set bs \<Longrightarrow> reached_from h as \<subseteq> reached_from h bs"
proof
  assume sub: "set as \<subseteq> set bs"
  fix x assume "x \<in> reached_from h as"
  then show "x \<in> reached_from h bs"
    unfolding reached_from_def
  proof induction
    case (first a)
    then show ?case using sub by (auto intro: opened.first)
  next
    case (further b c)
    show ?case by (rule opened.further [OF further.IH further.hyps(2,3)])
  qed
qed

lemma gray_inv_buffered: "gray_inv h0 h G \<Longrightarrow> gray_inv h0 (set_buffered a b h) G"
  unfolding gray_inv_def using same_graph_trans [OF _ set_buffered_same(1) [of h a b]] by (simp add: set_buffered_same(2,3))

text \<open>After the candidates \<open>cs\<close>: the gray set is what the gray roots reach, and holds every purple candidate.\<close>

definition roots_inv :: "heap \<Rightarrow> addr set \<Rightarrow> heap \<times> addr list \<times> addr list \<Rightarrow> addr set \<Rightarrow> bool" where
  "roots_inv h0 cs st G =
     (case st of (h, grays, deferred) \<Rightarrow>
        gray_inv h0 h G \<and> set grays \<subseteq> G \<and> G \<subseteq> reached_from h0 grays \<and>
        set grays \<subseteq> {s \<in> cs. ob_color (obj_at h0 s) = Purple} \<and>
        (\<forall>s \<in> cs. ob_color (obj_at h0 s) = Purple \<longrightarrow> s \<in> G))"

lemma mark_root_inv:
  assumes inv: "roots_inv h0 cs st G" and idle: "\<And>x. ob_color (obj_at h0 x) \<noteq> Gray"
    and s: "ob_color (obj_at h0 s) = Purple \<Longrightarrow> unshared h0 s"
  shows "\<exists>G'. roots_inv h0 (insert s cs) (mark_root s st) G'"
proof -
  obtain h grays deferred where st: "st = (h, grays, deferred)" by (cases st) auto
  have I: "gray_inv h0 h G" "set grays \<subseteq> G" "G \<subseteq> reached_from h0 grays"
    "set grays \<subseteq> {s \<in> cs. ob_color (obj_at h0 s) = Purple}" "\<forall>s \<in> cs. ob_color (obj_at h0 s) = Purple \<longrightarrow> s \<in> G"
    using inv unfolding roots_inv_def st by auto
  let ?h = "set_buffered s False h"
  have g: "gray_inv h0 ?h G" by (rule gray_inv_buffered [OF I(1)])
  have col: "ob_color (obj_at ?h s) = (if s \<in> G then Gray else ob_color (obj_at h0 s))" by (rule gray_invD(2) [OF g])
  show ?thesis
  proof (cases "ob_color (obj_at ?h s) = Purple")
    case False
    then have "mark_root s st = (?h, grays, deferred @ [s])" by (simp add: mark_root_def st)
    moreover have "ob_color (obj_at h0 s) = Purple \<longrightarrow> s \<in> G" using False col by (auto split: if_splits)
    ultimately show ?thesis using g I by (auto simp: roots_inv_def)
  next
    case True
    with col have p: "s \<notin> G" "ob_color (obj_at h0 s) = Purple" by (auto split: if_splits)
    let ?R = "spread (\<lambda>c. c \<noteq> Gray) Gray ?h s"
    have G': "gray_inv h0 (mark_gray s ?h) (G \<union> insert s ?R)" by (rule mark_gray_inv [OF g s [OF p(2)] p(1) idle])
    have sr: "s \<in> reached_from h0 (grays @ [s])"
      using s [OF p(2)] unfolding reached_from_def by (intro opened.first) (auto simp: enters_def unshared_def)
    note same = reached_same [OF gray_invD(1) [OF g]]
    have "?R \<subseteq> reached_from h0 (grays @ [s])" using spread_reached [of s ?h "grays @ [s]"] sr unfolding same by blast
    then have "G \<union> insert s ?R \<subseteq> reached_from h0 (grays @ [s])"
      using I(3) sr reached_mono [of grays "grays @ [s]" h0] by auto
    moreover have "mark_root s st = (mark_gray s ?h, grays @ [s], deferred)" using True by (simp add: mark_root_def st)
    ultimately have "roots_inv h0 (insert s cs) (mark_root s st) (G \<union> insert s ?R)"
      using G' I(2,4,5) p(2) by (auto simp: roots_inv_def)
    then show ?thesis by blast
  qed
qed

lemma fold_mark_root:
  assumes idle: "\<And>x. ob_color (obj_at h0 x) \<noteq> Gray"
  shows "\<lbrakk>roots_inv h0 cs st G; \<And>s. s \<in> set ss \<Longrightarrow> ob_color (obj_at h0 s) = Purple \<Longrightarrow> unshared h0 s\<rbrakk> \<Longrightarrow>
    \<exists>G'. roots_inv h0 (cs \<union> set ss) (fold mark_root ss st) G'"
proof (induction ss arbitrary: cs st G)
  case Nil
  then show ?case by auto
next
  case (Cons s ss)
  from mark_root_inv [OF Cons.prems(1) idle, of s] Cons.prems(2) [of s] obtain G1
    where "roots_inv h0 (insert s cs) (mark_root s st) G1" by auto
  from Cons.IH [OF this] Cons.prems(2) show ?case by auto
qed

text \<open>The purple candidates' subgraph.\<close>

definition suspects :: "heap \<Rightarrow> addr set" where
  "suspects h = reached_from h (filter (\<lambda>s. ob_color (obj_at h s) = Purple) (hp_candidates h))"

lemma reached_closed:
  assumes "set as \<subseteq> S" and "child_closed h S"
  shows "reached_from h as \<subseteq> S"
proof
  fix x assume "x \<in> reached_from h as"
  then show "x \<in> S" unfolding reached_from_def
  proof induction
    case (first a)
    then show ?case using assms(1) by blast
  next
    case (further b c)
    then show ?case using assms(2) unfolding child_closed_def by (auto simp: enters_def unshared_def)
  qed
qed

lemma first_phase:
  assumes idle: "\<And>x. ob_color (obj_at h x) \<noteq> Gray"
    and cands: "\<And>s. s \<in> set (hp_candidates h) \<Longrightarrow> ob_color (obj_at h s) = Purple \<Longrightarrow> unshared h s"
    and st: "fold mark_root (hp_candidates h) (h\<lparr>hp_candidates := []\<rparr>, [], []) = (h1, grays, deferred)"
  shows "gray_inv h h1 (suspects h)" and "suspects h = reached_from h grays" and "set grays \<subseteq> suspects h"
proof -
  let ?h = "h\<lparr>hp_candidates := []\<rparr>" let ?P = "filter (\<lambda>s. ob_color (obj_at h s) = Purple) (hp_candidates h)"
  have "same_graph h ?h" by (simp add: same_graph_def obj_children_def)
  then have "roots_inv h {} (?h, [], []) {}"
    by (simp add: roots_inv_def gray_inv_def child_closed_def refs_def)
  from fold_mark_root [OF idle this, of "hp_candidates h"] cands st obtain G
    where R: "roots_inv h (set (hp_candidates h)) (h1, grays, deferred) G" by auto
  then have G: "gray_inv h h1 G" "set grays \<subseteq> G" "G \<subseteq> reached_from h grays" "set grays \<subseteq> set ?P" "set ?P \<subseteq> G"
    by (auto simp: roots_inv_def)
  have "reached_from h ?P \<subseteq> G" by (rule reached_closed [OF G(5) gray_invD(4) [OF G(1)]])
  moreover have "reached_from h grays \<subseteq> reached_from h ?P" by (rule reached_mono [OF G(4)])
  ultimately have eq: "G = suspects h" "reached_from h grays = suspects h" using G(3) unfolding suspects_def by blast+
  then show "gray_inv h h1 (suspects h)" "suspects h = reached_from h grays" "set grays \<subseteq> suspects h" using G(1,2) by auto
qed

section \<open>Second phase: restoring what is referenced from outside\<close>

text \<open>The suspects that something outside the suspects refers to, and all they lead to.\<close>

inductive_set anchored :: "heap \<Rightarrow> (addr \<Rightarrow> nat) \<Rightarrow> addr set \<Rightarrow> addr set" for h ext G where
  held: "a \<in> G \<Longrightarrow> 0 < ext a \<Longrightarrow> a \<in> anchored h ext G"
| outside: "\<lbrakk>a \<in> G; holds h b; b \<notin> G; a \<in> set (obj_children h b)\<rbrakk> \<Longrightarrow> a \<in> anchored h ext G"
| inside: "\<lbrakk>b \<in> anchored h ext G; a \<in> set (obj_children h b); a \<in> G\<rbrakk> \<Longrightarrow> a \<in> anchored h ext G"

lemma spread_subset:
  assumes "child_closed h S" and "s \<in> S"
  shows "spread op paint h s \<subseteq> S"
proof
  fix x assume "x \<in> spread op paint h s"
  then show "x \<in> S"
    unfolding spread_def
  proof induction
    case (first a)
    then show ?case using assms by (auto simp: child_closed_def enters_def unshared_def obj_at_set_color split: if_splits)
  next
    case (further b c)
    then show ?case using assms by (auto simp: child_closed_def enters_def unshared_def obj_at_set_color split: if_splits)
  qed
qed

text \<open>During the scan: \<open>B\<close> is restored, \<open>W\<close> provisionally garbage, the rest of \<open>G\<close> still gray.\<close>

definition scan_inv :: "heap \<Rightarrow> (addr \<Rightarrow> nat) \<Rightarrow> addr set \<Rightarrow> heap \<Rightarrow> addr list \<Rightarrow> addr set \<Rightarrow> addr set \<Rightarrow> bool" where
  "scan_inv h0 ext G h as B W =
     (same_graph h0 h \<and> B \<union> W \<subseteq> G \<and> B \<inter> W = {} \<and>
      (\<forall>x. ob_color (obj_at h x) = (if x \<in> B then Black else if x \<in> W then White else if x \<in> G then Gray else ob_color (obj_at h0 x))) \<and>
      (\<forall>x. unshared h0 x \<longrightarrow> ob_refcount (obj_at h x) = ob_refcount (obj_at h0 x) - of_nat (refs h0 (G - B) x)) \<and>
      child_closed h0 B \<and> (\<forall>x \<in> W. ob_refcount (obj_at h x) = 0) \<and>
      (\<forall>y \<in> W. \<forall>c \<in> set (obj_children h0 y). c \<in> G \<longrightarrow> c \<in> B \<union> W \<union> set as) \<and> B \<subseteq> anchored h0 ext G)"

lemma scan_invD:
  assumes "scan_inv h0 ext G h as B W"
  shows "same_graph h0 h" "B \<subseteq> G" "W \<subseteq> G" "B \<inter> W = {}"
    "ob_color (obj_at h x) = (if x \<in> B then Black else if x \<in> W then White else if x \<in> G then Gray else ob_color (obj_at h0 x))"
    "unshared h0 x \<Longrightarrow> ob_refcount (obj_at h x) = ob_refcount (obj_at h0 x) - of_nat (refs h0 (G - B) x)"
    "child_closed h0 B" "x \<in> W \<Longrightarrow> ob_refcount (obj_at h x) = 0"
    "y \<in> W \<Longrightarrow> c \<in> set (obj_children h0 y) \<Longrightarrow> c \<in> G \<Longrightarrow> c \<in> B \<union> W \<union> set as" "B \<subseteq> anchored h0 ext G"
  using assms unfolding scan_inv_def by blast+

text \<open>The suspects: live, counted, and closed under unshared references.\<close>

definition suspect_set :: "heap \<Rightarrow> addr set \<Rightarrow> bool" where
  "suspect_set h G = (finite G \<and> child_closed h G \<and> (\<forall>x \<in> G. unshared h x \<and> holds h x \<and> ob_color (obj_at h x) \<noteq> White))"

text \<open>The counts, with the trial decrements written out: what is left refers to the object from outside
  the suspects or from a restored one.\<close>

lemma residual_count:
  assumes ex: "exact h0 ext" and G: "suspect_set h0 G" and B: "B \<subseteq> G" and x: "live_at h0 x" "\<not> ob_shared (obj_at h0 x)"
    and rc: "w = ob_refcount (obj_at h0 x) - of_nat (refs h0 (G - B) x)"
  shows "unat w = ext x + refs h0 {b. holds h0 b \<and> b \<notin> G - B} x"
proof -
  let ?A = "{b. b < length (hp_objs h0) \<and> holds h0 b}"
  have A: "?A = {b. holds h0 b}" using holds_live by auto
  have sub: "G - B \<subseteq> ?A" using G holds_live unfolding suspect_set_def by blast
  note rc0 = exactD(1) [OF ex x]
  have "edges h0 x = refs h0 (?A - (G - B)) x + refs h0 (G - B) x"
    unfolding edges_def refs_def by (rule sum.subset_diff [OF sub]) simp
  also have "?A - (G - B) = {b. holds h0 b \<and> b \<notin> G - B}" unfolding A by blast
  finally have e: "unat (ob_refcount (obj_at h0 x)) = ext x + refs h0 {b. holds h0 b \<and> b \<notin> G - B} x + refs h0 (G - B) x"
    using rc0 by simp
  then have "unat (of_nat (refs h0 (G - B) x) :: 32 word) = refs h0 (G - B) x"
    by (intro unat_of_nat_le [of _ "ob_refcount (obj_at h0 x)"]) simp
  then have "unat w = unat (ob_refcount (obj_at h0 x)) - refs h0 (G - B) x"
    unfolding rc using e by (subst unat_sub) (simp_all add: word_le_nat_alt)
  with e show ?thesis by simp
qed

lemma residual_pos:
  assumes "exact h0 ext" and "suspect_set h0 G" and "B \<subseteq> G" and "x \<in> G"
    and "w = ob_refcount (obj_at h0 x) - of_nat (refs h0 (G - B) x)"
  shows "0 < w \<longleftrightarrow> 0 < ext x \<or> (\<exists>b. holds h0 b \<and> b \<notin> G - B \<and> x \<in> set (obj_children h0 b))"
proof -
  have x: "live_at h0 x" "\<not> ob_shared (obj_at h0 x)"
    using assms(2,4) holds_live by (auto simp: suspect_set_def unshared_def)
  have "finite {b. holds h0 b}" by (rule finite_subset [of _ "{..<length (hp_objs h0)}"]) (auto dest: holds_live)
  then have "finite {b. holds h0 b \<and> b \<notin> G - B}" by (rule rev_finite_subset) auto
  note pos = refs_pos [OF this, of h0 x]
  have "0 < w \<longleftrightarrow> 0 < unat w" by (simp add: word_less_nat_alt)
  also have "\<dots> \<longleftrightarrow> 0 < ext x \<or> 0 < refs h0 {b. holds h0 b \<and> b \<notin> G - B} x"
    unfolding residual_count [OF assms(1-3) x assms(5)] by auto
  finally show ?thesis unfolding pos by blast
qed

lemma anchored_closed:
  assumes "child_closed h G"
  shows "child_closed h (anchored h ext G)" and "anchored h ext G \<subseteq> G"
proof -
  show sub: "anchored h ext G \<subseteq> G" by (rule subsetI) (erule anchored.cases, simp_all)
  show "child_closed h (anchored h ext G)"
    unfolding child_closed_def
  proof (intro ballI impI)
    fix y c assume y: "y \<in> anchored h ext G" "c \<in> set (obj_children h y)" "unshared h c"
    with sub assms have "c \<in> G" unfolding child_closed_def by blast
    from anchored.inside [OF y(1,2) this] show "c \<in> anchored h ext G" .
  qed
qed

text \<open>Restoring from \<open>s\<close>: \<open>s\<close> and what it leads to turn black, and their references count again.\<close>

lemma scan_black_inv:
  assumes ex: "exact h0 ext" and G: "suspect_set h0 G" and inv: "scan_inv h0 ext G h (s # ss) B W"
    and s: "ob_color (obj_at h s) = Gray" "0 < ob_refcount (obj_at h s)" "s \<in> G"
  shows "\<exists>B' W'. scan_inv h0 ext G (scan_black s h) ss B' W' \<and> B \<union> W \<union> {s} \<subseteq> B' \<union> W'"
proof -
  let ?R = "spread (\<lambda>c. c \<noteq> Black) Black h s" let ?g = "set_color s Black h" let ?h = "scan_black s h"
  let ?S = "insert s ?R" let ?B = "B \<union> ?S" let ?W = "W - ?S"
  note I = scan_invD [OF inv] and sg = same_graphD [OF scan_invD(1) [OF inv]]
  have G': "finite G" "child_closed h0 G" "\<And>x. x \<in> G \<Longrightarrow> unshared h0 x" using G by (auto simp: suspect_set_def)
  have sB: "s \<notin> B" using I(5) [of s] s(1) by (auto split: if_splits)
  have sl: "s < length (hp_objs h)" using G'(3) [OF s(3)] sg by (simp add: unshared_def)
  have anch: "s \<in> anchored h0 ext G"
  proof -
    have "0 < ext s \<or> (\<exists>b. holds h0 b \<and> b \<notin> G - B \<and> s \<in> set (obj_children h0 b))"
      using residual_pos [OF ex G I(2) s(3) I(6) [OF G'(3) [OF s(3)]]] s(2) by blast
    moreover have "s \<notin> set (obj_children h0 b)" if "b \<in> B" for b
      using I(7) that sB G'(3) [OF s(3)] unfolding child_closed_def by blast
    ultimately show ?thesis using anchored.held [OF s(3)] anchored.outside [OF s(3)] by blast
  qed
  have RA: "?R \<subseteq> anchored h0 ext G"
    using spread_subset [of h "anchored h0 ext G" s] anchored_closed(1) [OF G'(2)] anch sg by simp
  have SG: "?S \<subseteq> G" using RA s(3) anchored_closed(2) [OF G'(2)] by blast
  have R: "x \<notin> B \<and> x \<noteq> s" if "x \<in> ?R" for x
    using spread_enters [OF that] I(5) [of x] sl by (auto split: if_splits)
  have disj: "?S \<inter> B = {}" "s \<notin> ?R" using R sB by auto
  have clS: "c \<in> ?B" if "y \<in> ?S" "c \<in> set (obj_children h0 y)" "unshared h0 c" for y c
  proof -
    have "c \<in> G" using that SG G'(2) unfolding child_closed_def by blast
    moreover have "c \<in> ?S \<or> \<not> ob_color (obj_at h c) \<noteq> Black"
      using spread_closed [of y s "\<lambda>c. c \<noteq> Black" Black h c] that sg by simp
    ultimately show ?thesis using I(5) [of c] by (auto split: if_splits)
  qed
  have ent: "black.entered ?g (obj_children h s) = ?R" by (simp add: black.entered_def spread_def)
  have "same_graph h0 ?h"
    unfolding scan_black_def
    by (rule same_graph_trans [OF I(1) repainted_same_graph [OF repainted_trans [OF repainted_steps(2) black.walk_repainted]]])
  moreover have "ob_color (obj_at ?h x) =
      (if x \<in> ?B then Black else if x \<in> ?W then White else if x \<in> G then Gray else ob_color (obj_at h0 x))" for x
    unfolding scan_black_def black.walk_color ent using I(5) [of x] sl by (auto simp: obj_at_set_color)
  moreover have cnt: "ob_refcount (obj_at ?h x) = ob_refcount (obj_at h0 x) - of_nat (refs h0 (G - ?B) x)"
    and add: "ob_refcount (obj_at ?h x) = ob_refcount (obj_at h x) + of_nat (refs h0 ?S x)" if x: "unshared h0 x" for x
  proof -
    have xl: "x < length (hp_objs ?g)" "\<not> ob_shared (obj_at ?g x)" using x sg by (auto simp: unshared_def obj_at_set_color)
    have "arrivals ?g ?R (obj_children h s) x = refs h0 ?S x"
      using disj(2) finite_spread by (simp add: arrivals_def refs_insert refs_def sg)
    then show add: "ob_refcount (obj_at ?h x) = ob_refcount (obj_at h x) + of_nat (refs h0 ?S x)"
      unfolding scan_black_def black.walk_count [OF xl] ent by (auto simp: obj_at_set_color)
    have "G - B = (G - ?B) \<union> ?S" using SG disj(1) by blast
    then have "refs h0 (G - B) x = refs h0 (G - ?B) x + refs h0 ?S x"
      using refs_union [of "G - ?B" ?S h0 x] G'(1) finite_subset [OF SG] by auto
    with add I(6) [OF x] show "ob_refcount (obj_at ?h x) = ob_refcount (obj_at h0 x) - of_nat (refs h0 (G - ?B) x)" by simp
  qed
  moreover have "child_closed h0 ?B" using I(7) clS unfolding child_closed_def by blast
  moreover have "ob_refcount (obj_at ?h x) = 0" if x: "x \<in> ?W" for x
  proof -
    have ux: "unshared h0 x" "x \<notin> ?B" using x I(3,4) G'(3) by auto
    then have "refs h0 ?S x = 0" using clS [of _ x] refs_pos [OF finite_subset [OF SG G'(1)], of h0 x] by fastforce
    with add [OF ux(1)] I(8) [of x] x show ?thesis by simp
  qed
  moreover have "c \<in> ?B \<union> ?W \<union> set ss" if "y \<in> ?W" "c \<in> set (obj_children h0 y)" "c \<in> G" for y c
    using I(9) [of y c] that by auto
  moreover have "?B \<union> ?W \<subseteq> G" "?B \<inter> ?W = {}" "?B \<subseteq> anchored h0 ext G"
    using I(2,3,4,10) SG RA anch by auto
  ultimately have "scan_inv h0 ext G ?h ss ?B ?W" unfolding scan_inv_def by blast
  then show ?thesis by blast
qed

lemma scan_white_inv:
  assumes G: "suspect_set h0 G" and inv: "scan_inv h0 ext G h (s # ss) B W"
    and s: "ob_color (obj_at h s) = Gray" "ob_refcount (obj_at h s) = 0" "s \<in> G"
  shows "scan_inv h0 ext G (set_color s White h) (obj_children h s @ ss) B (insert s W)"
proof -
  note I = scan_invD [OF inv] and sg = same_graphD [OF scan_invD(1) [OF inv]]
  have sl: "s < length (hp_objs h)" using G s(3) sg by (simp add: suspect_set_def unshared_def)
  have sB: "s \<notin> B" using I(5) [of s] s(1) by (auto split: if_splits)
  have "same_graph h0 (set_color s White h)"
    by (rule same_graph_trans [OF I(1) repainted_same_graph [OF repainted_steps(2)]])
  moreover have "ob_color (obj_at (set_color s White h) x) =
      (if x \<in> B then Black else if x \<in> insert s W then White else if x \<in> G then Gray else ob_color (obj_at h0 x))" for x
    using I(5) [of x] sl sB by (auto simp: obj_at_set_color)
  moreover have rc: "ob_refcount (obj_at (set_color s White h) x) = ob_refcount (obj_at h x)" for x
    by (simp add: obj_at_set_color)
  moreover have "c \<in> B \<union> insert s W \<union> set (obj_children h s @ ss)"
    if "y \<in> insert s W" "c \<in> set (obj_children h0 y)" "c \<in> G" for y c
    using I(9) [of y c] that sg by auto
  ultimately show ?thesis using I(2,3,4,6,7,8,10) s(2,3) sB unfolding scan_inv_def by auto
qed

lemma scan_walk_inv:
  assumes ex: "exact h0 ext" and G: "suspect_set h0 G" and idle: "\<And>x. ob_color (obj_at h0 x) \<noteq> Gray"
  shows "scan_inv h0 ext G h as B W \<Longrightarrow>
    \<exists>B' W'. scan_inv h0 ext G (scan_walk as h) [] B' W' \<and> B \<union> W \<union> (set as \<inter> G) \<subseteq> B' \<union> W'"
proof (induction as h arbitrary: B W rule: scan_walk.induct)
  case (1 h)
  then show ?case by auto
next
  case (2 s ss h)
  note I = scan_invD [OF "2.prems"]
  show ?case
  proof (cases "ob_color (obj_at h s) = Gray")
    case False
    then have s: "s \<in> G \<Longrightarrow> s \<in> B \<union> W" using I(5) [of s] by (auto split: if_splits)
    have "c \<in> B \<union> W \<union> set ss" if "y \<in> W" "c \<in> set (obj_children h0 y)" "c \<in> G" for y c
      using I(9) [OF that] s that(3) by auto
    then have "scan_inv h0 ext G h ss B W" using "2.prems" unfolding scan_inv_def by blast
    from "2.IH"(1) [OF False this] obtain B' W'
      where B': "scan_inv h0 ext G (scan_walk ss h) [] B' W'" "B \<union> W \<union> (set ss \<inter> G) \<subseteq> B' \<union> W'" by blast
    with s have "B \<union> W \<union> (set (s # ss) \<inter> G) \<subseteq> B' \<union> W'" by auto
    with B'(1) False show ?thesis by auto
  next
    case True
    then have s: "s \<in> G" using I(5) [of s] idle [of s] by (auto split: if_splits)
    show ?thesis
    proof (cases "ob_refcount (obj_at h s) > 0")
      case pos: True
      from scan_black_inv [OF ex G "2.prems" True pos s] obtain B1 W1
        where "scan_inv h0 ext G (scan_black s h) ss B1 W1" "B \<union> W \<union> {s} \<subseteq> B1 \<union> W1" by blast
      with "2.IH"(2) [OF _ pos this(1)] True pos show ?thesis by (simp del: ex_simps) blast
    next
      case zero: False
      then have "ob_refcount (obj_at h s) = 0" by (simp add: word_gt_0)
      from "2.IH"(3) [OF _ zero scan_white_inv [OF G "2.prems" True this s]] True zero show ?thesis by (simp del: ex_simps) blast
    qed
  qed
qed

lemma scan_walk_append: "scan_walk (xs @ ys) h = scan_walk ys (scan_walk xs h)"
  by (induction xs h rule: scan_walk.induct) auto

lemma fold_scan: "fold scan as h = scan_walk as h"
proof (induction as arbitrary: h)
  case (Cons a as)
  have "scan_walk as (scan_walk [a] h) = scan_walk ([a] @ as) h" by (simp only: scan_walk_append)
  with Cons show ?case by (simp add: scan_def del: scan_walk.simps)
qed simp

text \<open>After the scan the suspects are split: the anchored ones are restored, the others are white.\<close>

lemma second_phase:
  assumes ex: "exact h0 ext" and G: "suspect_set h0 G" and idle: "\<And>x. ob_color (obj_at h0 x) \<noteq> Gray"
    and inv: "gray_inv h0 h1 G" and grays: "set grays \<subseteq> G" "G = reached_from h0 grays"
  shows "scan_inv h0 ext G (fold scan grays h1) [] (anchored h0 ext G) (G - anchored h0 ext G)"
proof -
  have "scan_inv h0 ext G h1 grays {} {}"
    using gray_invD(1,2,4,5) [OF inv] by (simp add: scan_inv_def child_closed_def)
  from scan_walk_inv [OF ex G idle this] obtain B W
    where i: "scan_inv h0 ext G (scan_walk grays h1) [] B W" and sub: "set grays \<subseteq> B \<union> W" using grays(1) by blast
  note I = scan_invD [OF i]
  have clG: "child_closed h0 G" using G by (simp add: suspect_set_def)
  have "child_closed h0 (B \<union> W)"
    unfolding child_closed_def
  proof (intro ballI impI)
    fix y c assume y: "y \<in> B \<union> W" and c: "c \<in> set (obj_children h0 y)" "unshared h0 c"
    then have "c \<in> G" using clG I(2,3) unfolding child_closed_def by blast
    then show "c \<in> B \<union> W" using y c I(7) I(9) [of y c] unfolding child_closed_def by auto
  qed
  with reached_closed [OF sub] grays(2) I(2,3) have GBW: "G = B \<union> W" by blast
  have "x \<notin> W" if "x \<in> anchored h0 ext G" for x
    using that
  proof induction
    case (held a)
    show ?case
    proof
      assume "a \<in> W"
      with I(8) [of a] residual_pos [OF ex G I(2) held(1) I(6)] held G show False by (auto simp: suspect_set_def)
    qed
  next
    case (outside a b)
    show ?case
    proof
      assume "a \<in> W"
      with I(8) [of a] residual_pos [OF ex G I(2) outside(1) I(6)] outside G show False by (auto simp: suspect_set_def)
    qed
  next
    case (inside b a)
    then have "b \<in> B" using GBW anchored_closed(2) [OF clG] by blast
    moreover have "unshared h0 a" using inside G by (simp add: suspect_set_def)
    ultimately show ?case using I(4,7) inside(2) unfolding child_closed_def by blast
  qed
  with GBW I(4,10) anchored_closed(2) [OF clG, of ext] have "B = anchored h0 ext G" "W = G - anchored h0 ext G" by blast+
  with i show ?thesis by (simp add: fold_scan)
qed

section \<open>Third phase: gathering the white objects\<close>

lemma gather_list:
  "\<exists>l. snd (gather_walk as h g) = g @ l \<and> distinct l \<and> set l = opened (\<lambda>_. False) (\<lambda>c. c = White) h as"
proof (induction as h g rule: gather_walk.induct)
  case (2 s ss h g)
  let ?o = "opened (\<lambda>_. False) (\<lambda>c. c = White)"
  show ?case
  proof (cases "ob_color (obj_at h s) = White")
    case True
    let ?h = "set_color s Black h"
    have sl: "s < length (hp_objs h)" using True by (auto simp: obj_at_def nil_obj_def split: if_splits)
    have ent: "enters (\<lambda>_. False) (\<lambda>c. c = White) h s" using True sl by (simp add: enters_def)
    have step: "enters (\<lambda>_. False) (\<lambda>c. c = White) ?h x \<longleftrightarrow> enters (\<lambda>_. False) (\<lambda>c. c = White) h x \<and> x \<noteq> s" for x
      using sl by (auto simp: enters_def obj_at_set_color)
    note o = opened_enter [OF ent set_color_children step, of ss]
    from "2.IH"(1) [OF True] obtain l where l: "snd (gather_walk (obj_children h s @ ss) ?h (g @ [s])) = (g @ [s]) @ l"
      "distinct l" "set l = ?o ?h (obj_children h s @ ss)" by blast
    have "snd (gather_walk (s # ss) h g) = g @ (s # l)" using True l(1) by simp
    moreover have "distinct (s # l)" "set (s # l) = ?o h (s # ss)" using l(2,3) o by simp_all
    ultimately show ?thesis by blast
  next
    case False
    then have "\<not> enters (\<lambda>_. False) (\<lambda>c. c = White) h s" by (simp add: enters_def)
    from "2.IH"(2) [OF False] opened_skip [OF this, of ss] False show ?thesis by simp
  qed
qed simp

lemma gather_append:
  "gather_walk (xs @ ys) h g = (let (h', g') = gather_walk xs h g in gather_walk ys h' g')"
proof (induction xs h g rule: gather_walk.induct)
  case (2 s ss h g)
  then show ?case by (cases "ob_color (obj_at h s) = White") auto
qed simp

lemma fold_gather: "fold gather_white as st = gather_walk as (fst st) (snd st)"
proof (induction as arbitrary: st)
  case (Cons a as)
  have "gather_walk ([a] @ as) (fst st) (snd st) = gather_walk as (fst (gather_white a st)) (snd (gather_white a st))"
    unfolding gather_append by (simp add: gather_white_def case_prod_beta del: gather_walk.simps)
  with Cons show ?case by simp
qed simp

lemma dedup_distinct:
  "distinct as \<Longrightarrow> set as \<inter> seen = {} \<Longrightarrow> dedup as seen = (as, seen \<union> set as)"
  by (induction as seen rule: dedup.induct) auto

lemma third_phase:
  assumes G: "suspect_set h0 G" and idle: "\<And>x. ob_color (obj_at h0 x) \<noteq> White"
    and inv: "scan_inv h0 ext G h2 [] (anchored h0 ext G) (G - anchored h0 ext G)"
    and grays: "G = reached_from h0 grays"
  shows "opened (\<lambda>_. False) (\<lambda>c. c = White) h2 grays = G - anchored h0 ext G"
proof -
  let ?o = "opened (\<lambda>_. False) (\<lambda>c. c = White) h2 grays" let ?A = "anchored h0 ext G"
  note I = scan_invD [OF inv] and sg = same_graphD [OF scan_invD(1) [OF inv]]
  have white: "ob_color (obj_at h2 x) = White \<longleftrightarrow> x \<in> G - ?A" for x using I(5) [of x] idle [of x] by auto
  have ent: "enters (\<lambda>_. False) (\<lambda>c. c = White) h2 x" if "x \<in> G - ?A" for x
    using that white [of x] G sg by (auto simp: enters_def suspect_set_def unshared_def)
  have "x \<in> G - ?A" if "x \<in> ?o" for x using opened_enters [OF that] white by (simp add: enters_def)
  moreover have "x \<in> reached_from h0 grays \<Longrightarrow> x \<notin> ?A \<longrightarrow> x \<in> ?o" for x
    unfolding reached_from_def
  proof (induction rule: opened.induct)
    case (first a)
    then have "a \<in> G" unfolding grays reached_from_def by (rule opened.first)
    then show ?case using opened.first [OF first(1) ent] by blast
  next
    case (further b c)
    have "c \<in> G" unfolding grays reached_from_def by (rule opened.further [OF further.hyps(1-3)])
    then have "c \<in> ?A" if "b \<in> ?A" using anchored.inside [OF that further.hyps(2)] by blast
    then show ?case using further.IH opened.further [of b _ _ h2 grays c, OF _ _ ent] further.hyps(2) \<open>c \<in> G\<close> sg by auto
  qed
  ultimately show ?thesis using grays by blast
qed

section \<open>What a trial deletion reclaims\<close>

text \<open>The colors between collections: black, or purple in wait for a trial deletion.\<close>

definition colors_idle :: "heap \<Rightarrow> bool" where
  "colors_idle h = (\<forall>x. ob_color (obj_at h x) = Black \<or> ob_color (obj_at h x) = Purple)"

lemma colors_idleD: "colors_idle h \<Longrightarrow> ob_color (obj_at h x) \<noteq> Gray" "colors_idle h \<Longrightarrow> ob_color (obj_at h x) \<noteq> White"
  unfolding colors_idle_def by (metis color.distinct)+

lemma suspects_ok:
  assumes ex: "exact h ext" and idle: "colors_idle h"
    and cands: "\<And>s. s \<in> set (hp_candidates h) \<Longrightarrow> ob_color (obj_at h s) = Purple \<Longrightarrow> holds h s \<and> \<not> ob_shared (obj_at h s)"
    and closed: "child_closed h (suspects h)"
  shows "suspect_set h (suspects h)"
proof -
  have "x \<in> suspects h \<Longrightarrow> unshared h x \<and> holds h x" for x
    unfolding suspects_def reached_from_def
  proof (induction rule: opened.induct)
    case (first a)
    then show ?case using cands [of a] holds_live [of h a] by (auto simp: unshared_def)
  next
    case (further b c)
    then have "0 < edges h c" "live_at h c" using edges_pos exactD(2) [OF ex] by blast+
    moreover have "\<not> ob_shared (obj_at h c)" using further.hyps(3) by (simp add: enters_def)
    ultimately show ?case using exactD(1) [OF ex, of c] by (auto simp: unshared_def holds_def live_at_def)
  qed
  moreover have "finite (suspects h)" unfolding suspects_def reached_from_def by (rule finite_opened)
  ultimately show ?thesis using closed colors_idleD(2) [OF idle] by (simp add: suspect_set_def)
qed

lemma garbage_not_in_use:
  assumes "x \<in> in_use h ext" shows "x \<notin> G - anchored h ext G"
  using assms
proof induction
  case (owned a)
  then show ?case using anchored.held by blast
next
  case (child a c)
  show ?case
  proof (cases "a \<in> G")
    case True
    with child have "a \<in> anchored h ext G" by blast
    from anchored.inside [OF this child.hyps(3)] show ?thesis by blast
  next
    case False
    from anchored.outside [OF _ child.hyps(2) False child.hyps(3)] show ?thesis by blast
  qed
qed

lemma trial_outcome:
  assumes ex: "exact h ext" and idle: "colors_idle h"
    and cands: "\<And>s. s \<in> set (hp_candidates h) \<Longrightarrow> ob_color (obj_at h s) = Purple \<Longrightarrow> holds h s \<and> \<not> ob_shared (obj_at h s)"
    and run: "trial_deletion h = (fresh, already, h')"
  shows "distinct fresh" and "set fresh = suspects h - anchored h ext (suspects h)" and "same_graph h h'" and "colors_idle h'"
    and "\<And>x. live_at h x \<Longrightarrow> \<not> ob_shared (obj_at h x) \<Longrightarrow>
      unat (ob_refcount (obj_at h' x)) = ext x + refs h {b. holds h b \<and> b \<notin> set fresh} x"
proof -
  let ?G = "suspects h" let ?A = "anchored h ext ?G" let ?W = "?G - ?A"
  obtain h1 grays deferred where st: "fold mark_root (hp_candidates h) (h\<lparr>hp_candidates := []\<rparr>, [], []) = (h1, grays, deferred)"
    by (metis prod_cases3)
  have un: "unshared h s" if "s \<in> set (hp_candidates h)" "ob_color (obj_at h s) = Purple" for s
    using cands [OF that] holds_live by (auto simp: unshared_def)
  note p1 = first_phase [OF colors_idleD(1) [OF idle] un st]
  have G: "suspect_set h ?G" by (rule suspects_ok [OF ex idle cands gray_invD(4) [OF p1(1)]])
  define h2 where "h2 = fold scan grays h1"
  have p2: "scan_inv h ext ?G h2 [] ?A ?W"
    unfolding h2_def by (rule second_phase [OF ex G colors_idleD(1) [OF idle] p1(1,3,2)])
  note I = scan_invD [OF p2]
  note p3 = third_phase [OF G colors_idleD(2) [OF idle] p2 p1(2)]
  from gather_list [of grays h2 "[]"] obtain l where "snd (gather_walk grays h2 []) = [] @ l" "distinct l"
    "set l = opened (\<lambda>_. False) (\<lambda>c. c = White) h2 grays" by blast
  then have l: "snd (gather_walk grays h2 []) = l" "distinct l" "set l = ?W" using p3 by (simp_all only: append_Nil)
  have g: "fold gather_white grays (h2, []) = (fst (gather_walk grays h2 []), l)"
    unfolding fold_gather using l(1) by (simp add: prod_eq_iff)
  have "trial_deletion h = (l, fst (dedup deferred (set l)), fst (gather_walk grays h2 []))"
    unfolding trial_deletion_def take_candidates_def Let_def prod.case st h2_def [symmetric] g
    using dedup_distinct [OF l(2), of "{}"] by (simp add: case_prod_beta)
  then have out: "fresh = l" "h' = fst (gather_walk grays h2 [])" using run by simp_all
  show fresh: "distinct fresh" "set fresh = ?W" using l out by simp_all
  show "same_graph h h'"
    unfolding out(2) by (rule same_graph_trans [OF I(1) repainted_same_graph [OF white.walk_repainted]])
  have ent: "white.entered h2 grays = ?W"
    unfolding white.entered_def by (rule p3)
  have col: "ob_color (obj_at h' x) = (if x \<in> ?W then Black else ob_color (obj_at h2 x))" for x
    unfolding out(2) white.walk_color ent ..
  show "colors_idle h'" unfolding colors_idle_def col using I(5) idle by (auto simp: colors_idle_def)
  show "unat (ob_refcount (obj_at h' x)) = ext x + refs h {b. holds h b \<and> b \<notin> set fresh} x"
    if x: "live_at h x" "\<not> ob_shared (obj_at h x)" for x
  proof -
    have xl: "x < length (hp_objs h2)" using x(1) same_graphD(1) [OF I(1)] by (simp add: live_at_def)
    have "ob_refcount (obj_at h' x) = ob_refcount (obj_at h2 x)"
      unfolding out(2) by (subst white.walk_count [OF xl]) simp_all
    then have w: "ob_refcount (obj_at h' x) = ob_refcount (obj_at h x) - of_nat (refs h (?G - ?A) x)"
      using I(6) [of x] x by (simp add: unshared_def live_at_def)
    show ?thesis unfolding fresh(2) by (rule residual_count [OF ex G I(2) x w])
  qed
qed

text \<open>
  C35: trial deletion reclaims exactly the unanchored suspects. With exact counts and idle colors, the
  fresh garbage of a trial deletion is, each object once, the objects reached from the purple candidates
  that nothing outside refers to, directly or through other suspects. None of it is in use, and every
  count in the heap is left at the references the object has from the program and from the objects that
  are not garbage, so the members can be freed without releasing their references again.
\<close>

theorem trial_deletion_exact:
  assumes "exact h ext" and "colors_idle h"
    and "\<forall>s \<in> set (hp_candidates h). ob_color (obj_at h s) = Purple \<longrightarrow> holds h s \<and> \<not> ob_shared (obj_at h s)"
    and "collect_trial_deletion h = (gb, h')"
  shows "distinct (gb_fresh gb) \<and> set (gb_fresh gb) = suspects h - anchored h ext (suspects h) \<and>
    set (gb_fresh gb) \<inter> in_use h ext = {} \<and> colors_idle h' \<and> (\<forall>x. obj_children h' x = obj_children h x) \<and>
    (\<forall>x. live_at h x \<and> \<not> ob_shared (obj_at h x) \<longrightarrow>
       unat (ob_refcount (obj_at h' x)) = ext x + refs h {b. holds h b \<and> b \<notin> set (gb_fresh gb)} x)"
proof -
  have run: "trial_deletion h = (gb_fresh gb, gb_already_destructed gb, h')"
    using assms(4) by (auto simp: collect_trial_deletion_def split: prod.splits)
  have c: "\<And>s. s \<in> set (hp_candidates h) \<Longrightarrow> ob_color (obj_at h s) = Purple \<Longrightarrow> holds h s \<and> \<not> ob_shared (obj_at h s)"
    using assms(3) by blast
  note t = trial_outcome [OF assms(1,2) c run]
  have "set (gb_fresh gb) \<inter> in_use h ext = {}" using t(2) garbage_not_in_use [of _ h ext "suspects h"] by blast
  then show ?thesis using t same_graphD(2) [OF t(3)] by blast
qed

end
