(* ===== verification/Gc_Scenarios.thy ===== *)
theory Gc_Scenarios
  imports Gc_Trial
begin

text \<open>
  The collectors on concrete heaps: a cell that refers to itself and that the program has let go of, in
  both collector modes, and a scenario in which a trial deletion hands a live object to the reclaimer.
\<close>

section \<open>A dead cycle\<close>

definition one_cell :: "collector_mode \<Rightarrow> heap" where
  "one_cell m = snd (alloc_with (PCell Imm) False (heap_new m))"

definition ring :: "collector_mode \<Rightarrow> heap" where
  "ring m = the (release (Ptr 0) (the (cell_set 0 (Ptr 0) (one_cell m))))"

lemma one_cell_exact: "exact (one_cell m) ((\<lambda>_. 0)(0 := 1))"
proof -
  have a: "alloc_with (PCell Imm) False (heap_new m) = (0, one_cell m)"
    by (simp add: one_cell_def alloc_with_def Let_def live_inc_def heap_new_def)
  from alloc_counts [OF _ a, of "\<lambda>_. 0"] empty_exact [of m] show ?thesis by simp
qed

lemma one_cell_shape:
  "holds (one_cell m) 0" "ob_payload (obj_at (one_cell m) 0) = PCell Imm" "ob_refcount (obj_at (one_cell m) 0) = 1"
  by (simp_all add: one_cell_def alloc_with_def Let_def live_inc_def heap_new_def holds_def live_at_def obj_at_def)

lemma ring_exact: "exact (ring m) (\<lambda>_. 0)"
proof -
  have "storable (one_cell m) (Ptr 0)" using one_cell_shape [of m] holds_live by (simp add: storable_def)
  from slot_updates(1) [OF one_cell_exact one_cell_shape(1) this one_cell_shape(2)] obtain h
    where h: "cell_set 0 (Ptr 0) (one_cell m) = Some h" "exact h ((\<lambda>_. 0)(0 := 1))" by blast
  have "exact h ((\<lambda>_. 0)(0 := Suc ((\<lambda>_. 0) 0)))" using h(2) by simp
  from release_counts [OF this] h(1) show ?thesis by (auto simp: ring_def)
qed

text \<open>Its one object: live, not shared, counted once, its own child.\<close>

lemma ring_at:
  "length (hp_objs (ring Trace)) = 1" "hp_registry (ring Trace) = [0]" "ob_color (obj_at (ring Trace) 0) = Black"
  "\<not> ob_shared (obj_at (ring Trace) 0)" "obj_children (ring Trace) 0 = [0]" "holds (ring Trace) 0"
  "length (hp_objs (ring TrialDeletion)) = 1" "hp_candidates (ring TrialDeletion) = [0]"
  "ob_color (obj_at (ring TrialDeletion) 0) = Purple"
  "\<not> ob_shared (obj_at (ring TrialDeletion) 0)" "obj_children (ring TrialDeletion) 0 = [0]" "holds (ring TrialDeletion) 0"
  unfolding holds_def by code_simp+

lemma ring_ready: "colors_ready (ring Trace)" "registry_ok (ring Trace)" "shared_closed (ring Trace)"
  "\<forall>a. live_at (ring Trace) a \<longrightarrow> holds (ring Trace) a" "colors_idle (ring TrialDeletion)"
proof -
  have beyond: "obj_at (ring m) x = nil_obj" if "length (hp_objs (ring m)) = 1" "x \<noteq> 0" for m x
    using that by (simp add: obj_at_def)
  have nil: "ob_color nil_obj = Black" "ob_freed nil_obj" "\<not> ob_shared nil_obj" by code_simp+
  have only: "x = 0" if "live_at (ring Trace) x" for x using that ring_at(1) by (simp add: live_at_def)
  have black: "ob_color (obj_at (ring Trace) x) = Black" "\<not> ob_shared (obj_at (ring Trace) x)" for x
    using ring_at(3,4) beyond [OF ring_at(1), of x] nil by (cases "x = 0"; simp)+
  show "colors_ready (ring Trace)" "shared_closed (ring Trace)" using black by (simp_all add: colors_ready_def shared_closed_def)
  show "registry_ok (ring Trace)" unfolding registry_ok_def ring_at(2) using only ring_at(4,6) holds_live by auto
  show "\<forall>a. live_at (ring Trace) a \<longrightarrow> holds (ring Trace) a" using only ring_at(6) by blast
  show "colors_idle (ring TrialDeletion)"
    unfolding colors_idle_def using ring_at(9) beyond [OF ring_at(7)] nil by metis
qed

lemma no_roots: "pointers [] = []" "reached_from h [] = {}"
  by (simp_all add: reached_from_def)


theorem trace_reports_no_false_anomaly_witness:
  "hp_anomalies (snd (collect_trace [] (ring Trace))) = hp_anomalies (ring Trace)"
  by (rule trace_reports_no_false_anomaly [OF ring_exact ring_ready(1,2,4,3), of "[]" "fst (collect_trace [] (ring Trace))"]) simp_all

theorem safepoint_survives_missed_roots_witness:
  "gb_fresh (fst (collect_trace_safepoint (\<lambda>_. False) [] (ring Trace))) = [0] \<and>
   0 \<notin> in_use (ring Trace) (\<lambda>_. 0)"
proof -
  have "gb_fresh (fst (collect_trace_safepoint (\<lambda>_. False) [] (ring Trace))) = [0]" by code_simp
  with safepoint_survives_missed_roots [OF ring_exact ring_ready(1,2,4), of "\<lambda>_. False" "[]"
      "fst (collect_trace_safepoint (\<lambda>_. False) [] (ring Trace))" "snd (collect_trace_safepoint (\<lambda>_. False) [] (ring Trace))"]
  show ?thesis by simp
qed

theorem trial_deletion_exact_witness:
  "gb_fresh (fst (collect_trial_deletion (ring TrialDeletion))) = [0] \<and> 0 \<notin> in_use (ring TrialDeletion) (\<lambda>_. 0)"
proof -
  let ?h = "ring TrialDeletion"
  have "gb_fresh (fst (collect_trial_deletion ?h)) = [0]" by code_simp
  moreover have "\<forall>s \<in> set (hp_candidates ?h). ob_color (obj_at ?h s) = Purple \<longrightarrow> holds ?h s \<and> \<not> ob_shared (obj_at ?h s)"
    using ring_at by simp
  note trial_deletion_exact [OF ring_exact ring_ready(5) this, of "fst (collect_trial_deletion ?h)" "snd (collect_trial_deletion ?h)"]
  ultimately show ?thesis by simp
qed

section \<open>A candidate inside another candidate's subgraph\<close>

text \<open>A list and a list that holds it, both owned by the program; each has had a second owner that let go.\<close>

definition nested_lists :: heap where
  "nested_lists =
     (let h1 = snd (alloc_with (PList []) False (heap_new TrialDeletion));
          h2 = snd (alloc_with (PList [Ptr 0]) False (inc_ref (Ptr 0) h1));
          h3 = the (release (Ptr 1) (inc_ref (Ptr 1) h2)) in
      the (release (Ptr 0) (inc_ref (Ptr 0) h3)))"


end
