(* ===== verification/Bytecode.thy ===== *)
theory Bytecode
  imports Builtin_Traits Source_Span
begin

text \<open>
  The instruction set and the prototypes of the register machine (\<open>crates/noeta-bytecode/src/lib.rs\<close>):
  every instruction with all its fields, the visitor of jump destinations, chunks with their line
  tables, and the rule that binds a call's arguments to registers.

  Instructions are parametric in the type of a register (\<open>'r\<close>) and of a jump destination (\<open>'j\<close>), both
  natural numbers in a chunk; \<open>'m\<close> stands for the descriptions of the syntax tree and the extension
  interface (attribute values, type recipes, render hints) that instructions only carry along. The enum
  has 108 variants; here it is cut, in its own order, into eight datatypes under one sum. Indices are
  natural numbers, \<open>f64\<close> and \<open>f32\<close> constants their bit patterns.
\<close>

unbundle bit_operations_syntax

section \<open>Operands\<close>

type_synonym name_id = nat
type_synonym global_id = nat

datatype bool_side = LeftSide | RightSide

datatype 'r capture_from = Local 'r | Upvalue nat

datatype builtin = BLen | BMap | BFilter | BSum | BAssert | BMakeOk | BMakeErr | BMakeSome | BPanic

datatype const =
    CUnit | CBool bool | CInt int | CFloat "64 word" | CF32 "32 word" | CStr string | CNativeModule string
  | CModuleFn string string | CMethodHandle string string bool

datatype 'r str_part = Literal nat | Hole 'r

datatype 'm narrow_target =
    NInt | NFloat | NF32 | NBool | NString | NBytes | NUnit | NList | NMap | NSet | NTuple | NFn | NDyn
  | NNamed string | NDynTrait string | NAnyOf "'m narrow_target list" | NAnyEnum | NAnyStruct | NAnyClass
  | NGeneric "'m narrow_target" "'m list"

datatype reuse_check = Runtime | Static

datatype unary_op = UNeg | UNot | USpread

datatype int_method =
    CountOnes | CountZeros | LeadingZeros | TrailingZeros | RotateLeft | RotateRight | ReverseBits | SwapBytes
  | Convert bool nat | CheckedConvert bool bool nat

datatype hint_door = HDisplay | HOrder | HJson

section \<open>Instructions\<close>

text \<open>Values, globals, cells and closures.\<close>

datatype 'r move_op =
    LoadConst 'r nat
  | Move 'r 'r
  | LoadGlobal 'r global_id span
  | StoreGlobal global_id 'r
  | TakeGlobal 'r global_id span
  | Drop 'r bool
  | ConcatInPlace 'r 'r 'r span
  | MakeClosure 'r nat "'r capture_from list"
  | MakeCell 'r 'r
  | CellGet 'r 'r
  | CellSet 'r 'r
  | UpvalueGet 'r nat
  | UpvalueSet nat 'r
  | LoadNativeFn 'r builtin
  | BindMethod 'r 'r name_id

text \<open>Collections and iteration.\<close>

datatype 'r coll_op =
    MakeList 'r "'r list" "nat option"
  | PackedListNew 'r nat
  | PackedListPush 'r 'r 'r span
  | MakeTuple 'r "'r list"
  | TupleIndex 'r 'r nat span
  | MakeRange 'r 'r 'r bool span
  | MakeMap 'r "('r \<times> 'r) list" "nat option"
  | RequireMapKey 'r span
  | IterSnapshot 'r 'r span
  | ListLen 'r 'r span
  | ListGet 'r 'r 'r
  | IterForNext 'r 'r 'r span

text \<open>Calls on receivers, records and enums.\<close>

datatype ('r, dead 'm) obj_op =
    CallBuiltin 'r builtin "'r list" span
  | CallMethod 'r 'r name_id "'r list" "'r list" span nat bool bool "64 word option"
  | Index 'r 'r 'r span
  | IndexField 'r 'r 'r name_id span
  | MakeStruct 'r nat "(nat \<times> 'r) list" "'r option" "nat option" span
  | MakeStructInPlace 'r nat "(nat \<times> 'r) list" 'r reuse_check "nat option" span
  | MakeOpaque 'r name_id "(name_id \<times> 'r) list" "'r option"
  | MakeEnum 'r nat "'r list" "nat option"
  | EnumFromStr 'r 'r name_id "(name_id \<times> 'm option \<times> nat) list" nat nat bool span
  | LoadField 'r 'r name_id span nat
  | SetField 'r 'r name_id 'r bool span

text \<open>Failure, propagation and narrowing.\<close>

datatype ('r, 'j, dead 'm) check_op =
    Panic 'r span
  | TryUnwrap 'r 'r "('r \<times> bool) list" span
  | Coalesce 'r 'r 'j span
  | Narrow 'r 'r "'m narrow_target" "'r option" nat nat
  | IsType 'r 'r "'m narrow_target" "'r option"

text \<open>Generators, futures, scopes and channels.\<close>

datatype 'r task_op =
    MakeGen 'r 'r
  | MakeFuture 'r 'r
  | RunFuture 'r 'r span
  | PollFuture 'r 'r span
  | LoadPending 'r
  | ScopeBegin
  | ScopeBeginValue 'r span
  | ScopeReady 'r 'r span
  | Spawn 'r 'r span
  | SpawnIsolate 'r 'r "'r list" span
  | ScopeEnd span
  | ScopeEndAt 'r span
  | MakeChannel 'r 'r span

text \<open>Reflection.\<close>

datatype ('r, dead 'm) reflect_op =
    AttributesOf 'r 'r
  | RolesOf 'r "'r option"
  | ParamsOf 'r 'r
  | ReturnsOf 'r 'r
  | FieldSpecsOf 'r 'r
  | VariantsOf 'r 'r
  | Construct 'r 'r 'r nat nat span
  | Retag 'r nat
  | RetagDynamic 'r 'r
  | TypeOf 'r 'r
  | TypeArgName 'r 'r nat "string \<times> string" span
  | SelfRenderSlot 'r 'r nat
  | ComposeTypeArg 'r "'r list" "'m list"
  | TypeSlotName 'r 'r span
  | FieldsOf 'r 'r bool
  | TraitsOf 'r 'r
  | FromBytes 'r 'r nat bool span
  | TypeOfStatic 'r 'm
  | TypeValue 'r name_id

text \<open>Dynamic calls, matching and calls.\<close>

datatype ('r, 'j, dead 'm) call_op =
    Invoke 'r "'r option" 'r 'r nat nat span
  | TypedModuleCall 'r name_id name_id "'r list" "'m option" "'r option" span
  | TypedMethodCall 'r 'r name_id "'r list" "'m option" "'r option" span
  | DecodeTyped 'r 'r 'r nat nat span
  | TraitMethod 'r 'r name_id name_id "'r list" span
  | MatchInt 'r int 'j
  | MatchStr 'r name_id 'j
  | MatchBool 'r bool 'j
  | MatchVariant 'r "name_id option" name_id nat 'j
  | MatchTuple 'r nat 'j
  | ExtractField 'r 'r nat
  | MatchFail 'r span
  | Call 'r 'r "'r list" "'r list" span "64 word option"
  | CallGlobal 'r global_id "'r list" "'r list" span "64 word option"
  | Return 'r

text \<open>Arithmetic, jumps and output.\<close>

datatype ('r, 'j, dead 'm) flow_op =
    Unary unary_op 'r 'r span
  | MaskWidth 'r 'r bool nat
  | WideInt binary_op 'r 'r 'r bool nat span
  | WidthIntMethod 'r 'r int_method "'r option" nat span
  | Binary binary_op 'r 'r 'r span
  | RequireBool 'r bool_side binary_op span
  | RequireCondBool 'r span
  | Jump 'j
  | JumpIfTrue 'r 'j
  | JumpIfFalse 'r 'j
  | CondBranch 'r 'j span
  | Echo 'r
  | Stringify 'r 'r span "('m \<times> 'r list) option"
  | JsonStringify 'r 'r "'m \<times> 'r list"
  | ResolveHint span hint_door "'r list"
  | BuildString 'r "'r str_part list"
  | Raise nat
  | Halt

text \<open>An instruction.\<close>

datatype ('r, 'j, dead 'm) op =
    MoveOp "'r move_op"
  | CollOp "'r coll_op"
  | ObjOp "('r, 'm) obj_op"
  | CheckOp "('r, 'j, 'm) check_op"
  | TaskOp "'r task_op"
  | ReflectOp "('r, 'm) reflect_op"
  | CallOp "('r, 'j, 'm) call_op"
  | FlowOp "('r, 'j, 'm) flow_op"

section \<open>Jump destinations\<close>

text \<open>\<open>for_each_jump_pc\<close> visits the destinations of an instruction, \<open>for_each_jump_pc_mut\<close> rewrites them.\<close>

fun check_jump_pcs :: "('r, 'j, 'm) check_op \<Rightarrow> 'j list" where
  "check_jump_pcs (Coalesce dst src fallback span) = [fallback]"
| "check_jump_pcs _ = []"

fun call_jump_pcs :: "('r, 'j, 'm) call_op \<Rightarrow> 'j list" where
  "call_jump_pcs (MatchInt src val fail) = [fail]"
| "call_jump_pcs (MatchStr src val fail) = [fail]"
| "call_jump_pcs (MatchBool src val fail) = [fail]"
| "call_jump_pcs (MatchVariant src tname variant arity fail) = [fail]"
| "call_jump_pcs (MatchTuple src arity fail) = [fail]"
| "call_jump_pcs _ = []"

fun flow_jump_pcs :: "('r, 'j, 'm) flow_op \<Rightarrow> 'j list" where
  "flow_jump_pcs (Jump target) = [target]"
| "flow_jump_pcs (JumpIfTrue reg target) = [target]"
| "flow_jump_pcs (JumpIfFalse reg target) = [target]"
| "flow_jump_pcs (CondBranch reg target span) = [target]"
| "flow_jump_pcs _ = []"

fun for_each_jump_pc :: "('r, 'j, 'm) op \<Rightarrow> 'j list" where
  "for_each_jump_pc (CheckOp i) = check_jump_pcs i"
| "for_each_jump_pc (CallOp i) = call_jump_pcs i"
| "for_each_jump_pc (FlowOp i) = flow_jump_pcs i"
| "for_each_jump_pc _ = []"

fun check_jump_pcs_mut :: "('j \<Rightarrow> 'j) \<Rightarrow> ('r, 'j, 'm) check_op \<Rightarrow> ('r, 'j, 'm) check_op" where
  "check_jump_pcs_mut f (Coalesce dst src fallback span) = Coalesce dst src (f fallback) span"
| "check_jump_pcs_mut f i = i"

fun call_jump_pcs_mut :: "('j \<Rightarrow> 'j) \<Rightarrow> ('r, 'j, 'm) call_op \<Rightarrow> ('r, 'j, 'm) call_op" where
  "call_jump_pcs_mut f (MatchInt src val fail) = MatchInt src val (f fail)"
| "call_jump_pcs_mut f (MatchStr src val fail) = MatchStr src val (f fail)"
| "call_jump_pcs_mut f (MatchBool src val fail) = MatchBool src val (f fail)"
| "call_jump_pcs_mut f (MatchVariant src tname variant arity fail) = MatchVariant src tname variant arity (f fail)"
| "call_jump_pcs_mut f (MatchTuple src arity fail) = MatchTuple src arity (f fail)"
| "call_jump_pcs_mut f i = i"

fun flow_jump_pcs_mut :: "('j \<Rightarrow> 'j) \<Rightarrow> ('r, 'j, 'm) flow_op \<Rightarrow> ('r, 'j, 'm) flow_op" where
  "flow_jump_pcs_mut f (Jump target) = Jump (f target)"
| "flow_jump_pcs_mut f (JumpIfTrue reg target) = JumpIfTrue reg (f target)"
| "flow_jump_pcs_mut f (JumpIfFalse reg target) = JumpIfFalse reg (f target)"
| "flow_jump_pcs_mut f (CondBranch reg target span) = CondBranch reg (f target) span"
| "flow_jump_pcs_mut f i = i"

fun for_each_jump_pc_mut :: "('j \<Rightarrow> 'j) \<Rightarrow> ('r, 'j, 'm) op \<Rightarrow> ('r, 'j, 'm) op" where
  "for_each_jump_pc_mut f (CheckOp i) = CheckOp (check_jump_pcs_mut f i)"
| "for_each_jump_pc_mut f (CallOp i) = CallOp (call_jump_pcs_mut f i)"
| "for_each_jump_pc_mut f (FlowOp i) = FlowOp (flow_jump_pcs_mut f i)"
| "for_each_jump_pc_mut f i = i"

definition has_jump_pc :: "('r, 'j, 'm) op \<Rightarrow> bool" where
  "has_jump_pc i = (for_each_jump_pc i \<noteq> [])"

section \<open>Chunks\<close>

record local_debug =
  ld_name :: string
  ld_reg :: nat
  ld_def_span :: span

record line_entry =
  le_pc :: nat
  le_span :: span

record 'm chunk =
  ck_code :: "(nat, nat, 'm) op list"
  ck_consts :: "const list"
  ck_num_params :: nat
  ck_hidden :: nat
  ck_hidden_base :: nat
  ck_num_registers :: nat
  ck_frame_locals :: "nat list"
  ck_defaults :: "(nat \<times> nat) list"
  ck_name :: "string option"
  ck_def_span :: "span option"
  ck_debug_locals :: "local_debug list"
  ck_line_table :: "line_entry list"

definition chunk_placeholder :: "'m chunk" where
  "chunk_placeholder = \<lparr>ck_code = [], ck_consts = [], ck_num_params = 0, ck_hidden = 0, ck_hidden_base = 0,
     ck_num_registers = 0, ck_frame_locals = [], ck_defaults = [], ck_name = None, ck_def_span = None,
     ck_debug_locals = [], ck_line_table = []\<rparr>"

text \<open>The entries are in ascending order of \<open>pc\<close>; the partition point is the first entry beyond \<open>pc\<close>.\<close>

definition line_span :: "'m chunk \<Rightarrow> nat \<Rightarrow> span option" where
  "line_span ck pc =
     (let i = length (takeWhile (\<lambda>e. le_pc e \<le> pc) (ck_line_table ck)) in
      if 0 < i then Some (le_span (ck_line_table ck ! (i - 1))) else None)"

end
