(* ===== verification/Regalloc.thy ===== *)
theory Regalloc
  imports Bytecode
begin

text \<open>
  Register allocation of the bytecode compiler (\<open>crates/noeta-compiler/src/regalloc.rs\<close>): what each
  instruction reads, writes and falls through to, bit sets, backward liveness, interference, greedy
  coloring, the rewriting of registers, and the three passes over a chunk.

  An index out of range panics in the source; here an update out of range has no effect, and the
  properties are about chunks whose registers are below \<open>num_registers\<close>.
\<close>

section \<open>Reads, writes and control flow\<close>

definition opt_regs :: "'r option \<Rightarrow> 'r list" where
  "opt_regs x = (case x of None \<Rightarrow> [] | Some r \<Rightarrow> [r])"

fun capture_reg :: "'r capture_from \<Rightarrow> 'r list" where
  "capture_reg (Local r) = [r]"
| "capture_reg (Upvalue i) = []"

definition capture_regs :: "'r capture_from list \<Rightarrow> 'r list" where
  "capture_regs cs = concat (map capture_reg cs)"

definition pair_regs :: "('r \<times> 'r) list \<Rightarrow> 'r list" where
  "pair_regs kvs = concat (map (\<lambda>(k, v). [k, v]) kvs)"

definition hint_regs :: "('m \<times> 'r list) option \<Rightarrow> 'r list" where
  "hint_regs h = (case h of None \<Rightarrow> [] | Some (_, slots) \<Rightarrow> slots)"

fun hole_reg :: "'r str_part \<Rightarrow> 'r list" where
  "hole_reg (Literal k) = []"
| "hole_reg (Hole r) = [r]"

definition hole_regs :: "'r str_part list \<Rightarrow> 'r list" where
  "hole_regs ps = concat (map hole_reg ps)"

text \<open>Per instruction: the register it overwrites and the registers it reads, in the order of the arms of
  \<open>op_facts\<close>.\<close>

primrec move_facts :: "'r move_op \<Rightarrow> 'r option \<times> 'r list" where
  "move_facts (LoadConst dst k) = (Some dst, [])"
| "move_facts (Move dst src) = (Some dst, [src])"
| "move_facts (LoadGlobal dst global span) = (Some dst, [])"
| "move_facts (StoreGlobal global src) = (None, [src])"
| "move_facts (TakeGlobal dst global span) = (Some dst, [])"
| "move_facts (Drop reg relevant) = (Some reg, [reg])"
| "move_facts (ConcatInPlace dst lhs rhs span) = (Some dst, [lhs, rhs])"
| "move_facts (MakeClosure dst proto captures) = (Some dst, capture_regs captures)"
| "move_facts (MakeCell dst src) = (Some dst, [src])"
| "move_facts (CellGet dst cell) = (Some dst, [cell])"
| "move_facts (CellSet cell src) = (None, [cell, src])"
| "move_facts (UpvalueGet dst idx) = (Some dst, [])"
| "move_facts (UpvalueSet idx src) = (None, [src])"
| "move_facts (LoadNativeFn dst func) = (Some dst, [])"
| "move_facts (BindMethod dst recv meth) = (Some dst, [recv])"

primrec coll_facts :: "'r coll_op \<Rightarrow> 'r option \<times> 'r list" where
  "coll_facts (MakeList dst items reflect) = (Some dst, items)"
| "coll_facts (PackedListNew dst schema) = (Some dst, [])"
| "coll_facts (PackedListPush dst lst val span) = (Some dst, [lst, val])"
| "coll_facts (MakeTuple dst items) = (Some dst, items)"
| "coll_facts (TupleIndex dst receiver idx span) = (Some dst, [receiver])"
| "coll_facts (MakeRange dst start stop inclusive span) = (Some dst, [start, stop])"
| "coll_facts (MakeMap dst entries reflect) = (Some dst, pair_regs entries)"
| "coll_facts (RequireMapKey reg span) = (None, [reg])"
| "coll_facts (IterSnapshot dst src span) = (Some dst, [src])"
| "coll_facts (ListLen dst src span) = (Some dst, [src])"
| "coll_facts (ListGet dst lst idx) = (Some dst, [lst, idx])"
| "coll_facts (IterForNext it elem has span) = (Some elem, [it])"

primrec obj_facts :: "('r, 'm) obj_op \<Rightarrow> 'r option \<times> 'r list" where
  "obj_facts (CallBuiltin dst builtin args span) = (Some dst, args)"
| "obj_facts (CallMethod dst recv meth args targs span cache reuse consume_key supplied) = (Some dst, [recv] @ args @ targs)"
| "obj_facts (Index dst recv idx span) = (Some dst, [recv, idx])"
| "obj_facts (IndexField dst recv idx field span) = (Some dst, [recv, idx])"
| "obj_facts (MakeStruct dst shape named spread reflect span) = (Some dst, map snd named @ opt_regs spread)"
| "obj_facts (MakeStructInPlace dst shape named base chk reflect span) = (Some dst, map snd named @ [base])"
| "obj_facts (MakeOpaque dst tname keys spread) = (Some dst, map snd keys @ opt_regs spread)"
| "obj_facts (MakeEnum dst shape args reflect) = (Some dst, args)"
| "obj_facts (EnumFromStr dst arg enum_name cases some_shape none_shape panic span) = (Some dst, [arg])"
| "obj_facts (LoadField dst obj field span cache) = (Some dst, [obj])"
| "obj_facts (SetField dst obj field val reuse span) = (Some dst, [obj, val])"

primrec check_facts :: "('r, 'j, 'm) check_op \<Rightarrow> 'r option \<times> 'r list" where
  "check_facts (Panic msg span) = (None, [msg])"
| "check_facts (TryUnwrap dst src onerr span) = (Some dst, [src] @ map fst onerr)"
| "check_facts (Coalesce dst src fallback span) = (Some dst, [src])"
| "check_facts (Narrow dst src target dyn some_shape none_shape) = (Some dst, [src] @ opt_regs dyn)"
| "check_facts (IsType dst src target dyn) = (Some dst, [src] @ opt_regs dyn)"

primrec task_facts :: "'r task_op \<Rightarrow> 'r option \<times> 'r list" where
  "task_facts (MakeGen dst src) = (Some dst, [src])"
| "task_facts (MakeFuture dst src) = (Some dst, [src])"
| "task_facts (RunFuture dst src span) = (Some dst, [src])"
| "task_facts (PollFuture dst src span) = (Some dst, [src])"
| "task_facts (LoadPending dst) = (Some dst, [])"
| "task_facts ScopeBegin = (None, [])"
| "task_facts (ScopeBeginValue dst span) = (Some dst, [])"
| "task_facts (ScopeReady dst src span) = (Some dst, [src])"
| "task_facts (Spawn dst src span) = (Some dst, [src])"
| "task_facts (SpawnIsolate dst callee args span) = (Some dst, [callee] @ args)"
| "task_facts (ScopeEnd span) = (None, [])"
| "task_facts (ScopeEndAt src span) = (None, [src])"
| "task_facts (MakeChannel dst capacity span) = (Some dst, [capacity])"

primrec reflect_facts :: "('r, 'm) reflect_op \<Rightarrow> 'r option \<times> 'r list" where
  "reflect_facts (AttributesOf dst src) = (Some dst, [src])"
| "reflect_facts (RolesOf dst src) = (Some dst, opt_regs src)"
| "reflect_facts (ParamsOf dst src) = (Some dst, [src])"
| "reflect_facts (ReturnsOf dst src) = (Some dst, [src])"
| "reflect_facts (FieldSpecsOf dst src) = (Some dst, [src])"
| "reflect_facts (VariantsOf dst src) = (Some dst, [src])"
| "reflect_facts (Construct dst nm flds ok_shape err_shape span) = (Some dst, [nm, flds])"
| "reflect_facts (Retag reg repr) = (None, [reg])"
| "reflect_facts (RetagDynamic reg slot) = (None, [reg, slot])"
| "reflect_facts (TypeOf dst src) = (Some dst, [src])"
| "reflect_facts (TypeArgName dst src idx nms span) = (Some dst, [src])"
| "reflect_facts (SelfRenderSlot dst src idx) = (Some dst, [src])"
| "reflect_facts (ComposeTypeArg dst slots cases) = (Some dst, slots)"
| "reflect_facts (TypeSlotName dst src span) = (Some dst, [src])"
| "reflect_facts (FieldsOf dst src priv) = (Some dst, [src])"
| "reflect_facts (TraitsOf dst src) = (Some dst, [src])"
| "reflect_facts (FromBytes dst src schema validate span) = (Some dst, [src])"
| "reflect_facts (TypeOfStatic dst repr) = (Some dst, [])"
| "reflect_facts (TypeValue dst nm) = (Some dst, [])"

primrec call_facts :: "('r, 'j, 'm) call_op \<Rightarrow> 'r option \<times> 'r list" where
  "call_facts (Invoke dst recv nm args ok_shape err_shape span) = (Some dst, opt_regs recv @ [nm, args])"
| "call_facts (TypedModuleCall dst module func args recipe dyn span) = (Some dst, args @ opt_regs dyn)"
| "call_facts (TypedMethodCall dst recv meth args recipe dyn span) = (Some dst, [recv] @ args @ opt_regs dyn)"
| "call_facts (DecodeTyped dst nm text ok_shape err_shape span) = (Some dst, [nm, text])"
| "call_facts (TraitMethod dst recv trname meth args span) = (Some dst, [recv] @ args)"
| "call_facts (MatchInt src val fail) = (None, [src])"
| "call_facts (MatchStr src val fail) = (None, [src])"
| "call_facts (MatchBool src val fail) = (None, [src])"
| "call_facts (MatchVariant src tname variant arity fail) = (None, [src])"
| "call_facts (MatchTuple src arity fail) = (None, [src])"
| "call_facts (ExtractField dst src idx) = (Some dst, [src])"
| "call_facts (MatchFail src span) = (None, [src])"
| "call_facts (Call dst callee args targs span supplied) = (Some dst, [callee] @ args @ targs)"
| "call_facts (CallGlobal dst global args targs span supplied) = (Some dst, args @ targs)"
| "call_facts (Return src) = (None, [src])"

primrec flow_facts :: "('r, 'j, 'm) flow_op \<Rightarrow> 'r option \<times> 'r list" where
  "flow_facts (Unary opr dst src span) = (Some dst, [src])"
| "flow_facts (MaskWidth dst src sgnd bits) = (Some dst, [src])"
| "flow_facts (WideInt opr dst a b sgnd bits span) = (Some dst, [a, b])"
| "flow_facts (WidthIntMethod dst recv meth arg bits span) = (Some dst, [recv] @ opt_regs arg)"
| "flow_facts (Binary opr dst a b span) = (Some dst, [a, b])"
| "flow_facts (RequireBool reg side opr span) = (None, [reg])"
| "flow_facts (RequireCondBool reg span) = (None, [reg])"
| "flow_facts (Jump target) = (None, [])"
| "flow_facts (JumpIfTrue reg target) = (None, [reg])"
| "flow_facts (JumpIfFalse reg target) = (None, [reg])"
| "flow_facts (CondBranch reg target span) = (None, [reg])"
| "flow_facts (Echo reg) = (None, [reg])"
| "flow_facts (Stringify dst src span hint) = (Some dst, [src] @ hint_regs hint)"
| "flow_facts (JsonStringify dst src hint) = (Some dst, [src] @ snd hint)"
| "flow_facts (ResolveHint span door slots) = (None, slots)"
| "flow_facts (BuildString dst parts) = (Some dst, hole_regs parts)"
| "flow_facts (Raise idx) = (None, [])"
| "flow_facts Halt = (None, [])"

text \<open>An instruction falls through unless it jumps, returns or aborts.\<close>

fun falls_through :: "('r, 'j, 'm) op \<Rightarrow> bool" where
  "falls_through (CheckOp (Panic msg span)) = False"
| "falls_through (CallOp (MatchFail src span)) = False"
| "falls_through (CallOp (Return src)) = False"
| "falls_through (FlowOp (Jump target)) = False"
| "falls_through (FlowOp (Raise idx)) = False"
| "falls_through (FlowOp Halt) = False"
| "falls_through i = True"

fun regs_of_op :: "('r, 'j, 'm) op \<Rightarrow> 'r option \<times> 'r list" where
  "regs_of_op (MoveOp i) = move_facts i"
| "regs_of_op (CollOp i) = coll_facts i"
| "regs_of_op (ObjOp i) = obj_facts i"
| "regs_of_op (CheckOp i) = check_facts i"
| "regs_of_op (TaskOp i) = task_facts i"
| "regs_of_op (ReflectOp i) = reflect_facts i"
| "regs_of_op (CallOp i) = call_facts i"
| "regs_of_op (FlowOp i) = flow_facts i"

record ('r, 'j) op_fact =
  of_def :: "'r option"
  of_uses :: "'r list"
  of_targets :: "'j list"
  of_fallthrough :: bool

definition op_facts :: "('r, 'j, 'm) op \<Rightarrow> ('r, 'j) op_fact" where
  "op_facts i =
     \<lparr>of_def = fst (regs_of_op i), of_uses = snd (regs_of_op i), of_targets = for_each_jump_pc i,
      of_fallthrough = falls_through i\<rparr>"

fun extra_defs :: "('r, 'j, 'm) op \<Rightarrow> 'r option" where
  "extra_defs (CollOp (IterForNext it elem has span)) = Some has"
| "extra_defs i = None"

section \<open>Rewriting registers\<close>

fun remap_capture :: "('r \<Rightarrow> 'r) \<Rightarrow> 'r capture_from \<Rightarrow> 'r capture_from" where
  "remap_capture m (Local r) = Local (m r)"
| "remap_capture m (Upvalue i) = Upvalue i"

fun remap_part :: "('r \<Rightarrow> 'r) \<Rightarrow> 'r str_part \<Rightarrow> 'r str_part" where
  "remap_part m (Literal k) = Literal k"
| "remap_part m (Hole r) = Hole (m r)"

primrec move_remap :: "('r \<Rightarrow> 'r) \<Rightarrow> 'r move_op \<Rightarrow> 'r move_op" where
  "move_remap m (LoadConst dst k) = LoadConst (m dst) k"
| "move_remap m (Move dst src) = Move (m dst) (m src)"
| "move_remap m (LoadGlobal dst global span) = LoadGlobal (m dst) global span"
| "move_remap m (StoreGlobal global src) = StoreGlobal global (m src)"
| "move_remap m (TakeGlobal dst global span) = TakeGlobal (m dst) global span"
| "move_remap m (Drop reg relevant) = Drop (m reg) relevant"
| "move_remap m (ConcatInPlace dst lhs rhs span) = ConcatInPlace (m dst) (m lhs) (m rhs) span"
| "move_remap m (MakeClosure dst proto captures) = MakeClosure (m dst) proto (map (remap_capture m) captures)"
| "move_remap m (MakeCell dst src) = MakeCell (m dst) (m src)"
| "move_remap m (CellGet dst cell) = CellGet (m dst) (m cell)"
| "move_remap m (CellSet cell src) = CellSet (m cell) (m src)"
| "move_remap m (UpvalueGet dst idx) = UpvalueGet (m dst) idx"
| "move_remap m (UpvalueSet idx src) = UpvalueSet idx (m src)"
| "move_remap m (LoadNativeFn dst func) = LoadNativeFn (m dst) func"
| "move_remap m (BindMethod dst recv meth) = BindMethod (m dst) (m recv) meth"

primrec coll_remap :: "('r \<Rightarrow> 'r) \<Rightarrow> 'r coll_op \<Rightarrow> 'r coll_op" where
  "coll_remap m (MakeList dst items reflect) = MakeList (m dst) (map m items) reflect"
| "coll_remap m (PackedListNew dst schema) = PackedListNew (m dst) schema"
| "coll_remap m (PackedListPush dst lst val span) = PackedListPush (m dst) (m lst) (m val) span"
| "coll_remap m (MakeTuple dst items) = MakeTuple (m dst) (map m items)"
| "coll_remap m (TupleIndex dst receiver idx span) = TupleIndex (m dst) (m receiver) idx span"
| "coll_remap m (MakeRange dst start stop inclusive span) = MakeRange (m dst) (m start) (m stop) inclusive span"
| "coll_remap m (MakeMap dst entries reflect) = MakeMap (m dst) (map (\<lambda>(k, v). (m k, m v)) entries) reflect"
| "coll_remap m (RequireMapKey reg span) = RequireMapKey (m reg) span"
| "coll_remap m (IterSnapshot dst src span) = IterSnapshot (m dst) (m src) span"
| "coll_remap m (ListLen dst src span) = ListLen (m dst) (m src) span"
| "coll_remap m (ListGet dst lst idx) = ListGet (m dst) (m lst) (m idx)"
| "coll_remap m (IterForNext it elem has span) = IterForNext (m it) (m elem) (m has) span"

primrec obj_remap :: "('r \<Rightarrow> 'r) \<Rightarrow> ('r, 'm) obj_op \<Rightarrow> ('r, 'm) obj_op" where
  "obj_remap m (CallBuiltin dst builtin args span) = CallBuiltin (m dst) builtin (map m args) span"
| "obj_remap m (CallMethod dst recv meth args targs span cache reuse consume_key supplied) =
     CallMethod (m dst) (m recv) meth (map m args) (map m targs) span cache reuse consume_key supplied"
| "obj_remap m (Index dst recv idx span) = Index (m dst) (m recv) (m idx) span"
| "obj_remap m (IndexField dst recv idx field span) = IndexField (m dst) (m recv) (m idx) field span"
| "obj_remap m (MakeStruct dst shape named spread reflect span) =
     MakeStruct (m dst) shape (map (\<lambda>(i, r). (i, m r)) named) (map_option m spread) reflect span"
| "obj_remap m (MakeStructInPlace dst shape named base chk reflect span) =
     MakeStructInPlace (m dst) shape (map (\<lambda>(i, r). (i, m r)) named) (m base) chk reflect span"
| "obj_remap m (MakeOpaque dst tname keys spread) =
     MakeOpaque (m dst) tname (map (\<lambda>(i, r). (i, m r)) keys) (map_option m spread)"
| "obj_remap m (MakeEnum dst shape args reflect) = MakeEnum (m dst) shape (map m args) reflect"
| "obj_remap m (EnumFromStr dst arg enum_name cases some_shape none_shape panic span) =
     EnumFromStr (m dst) (m arg) enum_name cases some_shape none_shape panic span"
| "obj_remap m (LoadField dst obj field span cache) = LoadField (m dst) (m obj) field span cache"
| "obj_remap m (SetField dst obj field val reuse span) = SetField (m dst) (m obj) field (m val) reuse span"

primrec check_remap :: "('r \<Rightarrow> 'r) \<Rightarrow> ('r, 'j, 'm) check_op \<Rightarrow> ('r, 'j, 'm) check_op" where
  "check_remap m (Panic msg span) = Panic (m msg) span"
| "check_remap m (TryUnwrap dst src onerr span) =
     TryUnwrap (m dst) (m src) (map (\<lambda>(r, b). (m r, b)) onerr) span"
| "check_remap m (Coalesce dst src fallback span) = Coalesce (m dst) (m src) fallback span"
| "check_remap m (Narrow dst src target dyn some_shape none_shape) =
     Narrow (m dst) (m src) target (map_option m dyn) some_shape none_shape"
| "check_remap m (IsType dst src target dyn) = IsType (m dst) (m src) target (map_option m dyn)"

primrec task_remap :: "('r \<Rightarrow> 'r) \<Rightarrow> 'r task_op \<Rightarrow> 'r task_op" where
  "task_remap m (MakeGen dst src) = MakeGen (m dst) (m src)"
| "task_remap m (MakeFuture dst src) = MakeFuture (m dst) (m src)"
| "task_remap m (RunFuture dst src span) = RunFuture (m dst) (m src) span"
| "task_remap m (PollFuture dst src span) = PollFuture (m dst) (m src) span"
| "task_remap m (LoadPending dst) = LoadPending (m dst)"
| "task_remap m ScopeBegin = ScopeBegin"
| "task_remap m (ScopeBeginValue dst span) = ScopeBeginValue (m dst) span"
| "task_remap m (ScopeReady dst src span) = ScopeReady (m dst) (m src) span"
| "task_remap m (Spawn dst src span) = Spawn (m dst) (m src) span"
| "task_remap m (SpawnIsolate dst callee args span) = SpawnIsolate (m dst) (m callee) (map m args) span"
| "task_remap m (ScopeEnd span) = ScopeEnd span"
| "task_remap m (ScopeEndAt src span) = ScopeEndAt (m src) span"
| "task_remap m (MakeChannel dst capacity span) = MakeChannel (m dst) (m capacity) span"

primrec reflect_remap :: "('r \<Rightarrow> 'r) \<Rightarrow> ('r, 'm) reflect_op \<Rightarrow> ('r, 'm) reflect_op" where
  "reflect_remap m (AttributesOf dst src) = AttributesOf (m dst) (m src)"
| "reflect_remap m (RolesOf dst src) = RolesOf (m dst) (map_option m src)"
| "reflect_remap m (ParamsOf dst src) = ParamsOf (m dst) (m src)"
| "reflect_remap m (ReturnsOf dst src) = ReturnsOf (m dst) (m src)"
| "reflect_remap m (FieldSpecsOf dst src) = FieldSpecsOf (m dst) (m src)"
| "reflect_remap m (VariantsOf dst src) = VariantsOf (m dst) (m src)"
| "reflect_remap m (Construct dst nm flds ok_shape err_shape span) =
     Construct (m dst) (m nm) (m flds) ok_shape err_shape span"
| "reflect_remap m (Retag reg repr) = Retag (m reg) repr"
| "reflect_remap m (RetagDynamic reg slot) = RetagDynamic (m reg) (m slot)"
| "reflect_remap m (TypeOf dst src) = TypeOf (m dst) (m src)"
| "reflect_remap m (TypeArgName dst src idx nms span) = TypeArgName (m dst) (m src) idx nms span"
| "reflect_remap m (SelfRenderSlot dst src idx) = SelfRenderSlot (m dst) (m src) idx"
| "reflect_remap m (ComposeTypeArg dst slots cases) = ComposeTypeArg (m dst) (map m slots) cases"
| "reflect_remap m (TypeSlotName dst src span) = TypeSlotName (m dst) (m src) span"
| "reflect_remap m (FieldsOf dst src priv) = FieldsOf (m dst) (m src) priv"
| "reflect_remap m (TraitsOf dst src) = TraitsOf (m dst) (m src)"
| "reflect_remap m (FromBytes dst src schema validate span) = FromBytes (m dst) (m src) schema validate span"
| "reflect_remap m (TypeOfStatic dst repr) = TypeOfStatic (m dst) repr"
| "reflect_remap m (TypeValue dst nm) = TypeValue (m dst) nm"

primrec call_remap :: "('r \<Rightarrow> 'r) \<Rightarrow> ('r, 'j, 'm) call_op \<Rightarrow> ('r, 'j, 'm) call_op" where
  "call_remap m (Invoke dst recv nm args ok_shape err_shape span) =
     Invoke (m dst) (map_option m recv) (m nm) (m args) ok_shape err_shape span"
| "call_remap m (TypedModuleCall dst module func args recipe dyn span) =
     TypedModuleCall (m dst) module func (map m args) recipe (map_option m dyn) span"
| "call_remap m (TypedMethodCall dst recv meth args recipe dyn span) =
     TypedMethodCall (m dst) (m recv) meth (map m args) recipe (map_option m dyn) span"
| "call_remap m (DecodeTyped dst nm text ok_shape err_shape span) =
     DecodeTyped (m dst) (m nm) (m text) ok_shape err_shape span"
| "call_remap m (TraitMethod dst recv trname meth args span) =
     TraitMethod (m dst) (m recv) trname meth (map m args) span"
| "call_remap m (MatchInt src val fail) = MatchInt (m src) val fail"
| "call_remap m (MatchStr src val fail) = MatchStr (m src) val fail"
| "call_remap m (MatchBool src val fail) = MatchBool (m src) val fail"
| "call_remap m (MatchVariant src tname variant arity fail) = MatchVariant (m src) tname variant arity fail"
| "call_remap m (MatchTuple src arity fail) = MatchTuple (m src) arity fail"
| "call_remap m (ExtractField dst src idx) = ExtractField (m dst) (m src) idx"
| "call_remap m (MatchFail src span) = MatchFail (m src) span"
| "call_remap m (Call dst callee args targs span supplied) =
     Call (m dst) (m callee) (map m args) (map m targs) span supplied"
| "call_remap m (CallGlobal dst global args targs span supplied) =
     CallGlobal (m dst) global (map m args) (map m targs) span supplied"
| "call_remap m (Return src) = Return (m src)"

primrec flow_remap :: "('r \<Rightarrow> 'r) \<Rightarrow> ('r, 'j, 'm) flow_op \<Rightarrow> ('r, 'j, 'm) flow_op" where
  "flow_remap m (Unary opr dst src span) = Unary opr (m dst) (m src) span"
| "flow_remap m (MaskWidth dst src sgnd bits) = MaskWidth (m dst) (m src) sgnd bits"
| "flow_remap m (WideInt opr dst a b sgnd bits span) = WideInt opr (m dst) (m a) (m b) sgnd bits span"
| "flow_remap m (WidthIntMethod dst recv meth arg bits span) =
     WidthIntMethod (m dst) (m recv) meth (map_option m arg) bits span"
| "flow_remap m (Binary opr dst a b span) = Binary opr (m dst) (m a) (m b) span"
| "flow_remap m (RequireBool reg side opr span) = RequireBool (m reg) side opr span"
| "flow_remap m (RequireCondBool reg span) = RequireCondBool (m reg) span"
| "flow_remap m (Jump target) = Jump target"
| "flow_remap m (JumpIfTrue reg target) = JumpIfTrue (m reg) target"
| "flow_remap m (JumpIfFalse reg target) = JumpIfFalse (m reg) target"
| "flow_remap m (CondBranch reg target span) = CondBranch (m reg) target span"
| "flow_remap m (Echo reg) = Echo (m reg)"
| "flow_remap m (Stringify dst src span hint) =
     Stringify (m dst) (m src) span (map_option (\<lambda>(h, slots). (h, map m slots)) hint)"
| "flow_remap m (JsonStringify dst src hint) =
     JsonStringify (m dst) (m src) (case hint of (h, slots) \<Rightarrow> (h, map m slots))"
| "flow_remap m (ResolveHint span door slots) = ResolveHint span door (map m slots)"
| "flow_remap m (BuildString dst parts) = BuildString (m dst) (map (remap_part m) parts)"
| "flow_remap m (Raise idx) = Raise idx"
| "flow_remap m Halt = Halt"

fun remap_with :: "('r \<Rightarrow> 'r) \<Rightarrow> ('r, 'j, 'm) op \<Rightarrow> ('r, 'j, 'm) op" where
  "remap_with m (MoveOp i) = MoveOp (move_remap m i)"
| "remap_with m (CollOp i) = CollOp (coll_remap m i)"
| "remap_with m (ObjOp i) = ObjOp (obj_remap m i)"
| "remap_with m (CheckOp i) = CheckOp (check_remap m i)"
| "remap_with m (TaskOp i) = TaskOp (task_remap m i)"
| "remap_with m (ReflectOp i) = ReflectOp (reflect_remap m i)"
| "remap_with m (CallOp i) = CallOp (call_remap m i)"
| "remap_with m (FlowOp i) = FlowOp (flow_remap m i)"

text \<open>\<open>colors[r] as Reg\<close>: the cast keeps sixteen bits.\<close>

definition recolor :: "nat list \<Rightarrow> nat \<Rightarrow> nat" where
  "recolor colors r = colors ! r mod 2 ^ 16"

definition remap_op :: "nat list \<Rightarrow> (nat, 'j, 'm) op \<Rightarrow> (nat, 'j, 'm) op" where
  "remap_op colors i = remap_with (recolor colors) i"

section \<open>Bit sets\<close>

type_synonym bitset = "64 word list"

definition bs_new :: "nat \<Rightarrow> bitset" where
  "bs_new n = replicate ((n + 63) div 64) 0"

definition bs_insert :: "nat \<Rightarrow> bitset \<Rightarrow> bitset" where
  "bs_insert i ws = ws[i div 64 := ws ! (i div 64) OR push_bit (i mod 64) 1]"

definition bs_remove :: "nat \<Rightarrow> bitset \<Rightarrow> bitset" where
  "bs_remove i ws = ws[i div 64 := ws ! (i div 64) AND NOT (push_bit (i mod 64) 1)]"

definition bs_contains :: "bitset \<Rightarrow> nat \<Rightarrow> bool" where
  "bs_contains ws i = (i div 64 < length ws \<and> ws ! (i div 64) AND push_bit (i mod 64) 1 \<noteq> 0)"

text \<open>\<open>zip\<close> stops at the shorter vector; the words beyond it stay.\<close>

definition bs_union_with :: "bitset \<Rightarrow> bitset \<Rightarrow> bitset" where
  "bs_union_with ws vs = map (\<lambda>(a, b). a OR b) (zip ws vs) @ drop (length vs) ws"

definition bs_iter :: "bitset \<Rightarrow> nat list" where
  "bs_iter ws =
     concat (map (\<lambda>w. map (\<lambda>b. w * 64 + b) (filter (\<lambda>b. ws ! w AND push_bit b 1 \<noteq> 0) [0..<64])) [0..<length ws])"

section \<open>Liveness\<close>

text \<open>One instruction of a backward sweep; the state is \<open>live_in\<close>, \<open>live_out\<close> and the changed flag.\<close>

definition out_set :: "nat \<Rightarrow> (nat, nat, 'm) op list \<Rightarrow> bitset list \<Rightarrow> nat \<Rightarrow> bitset" where
  "out_set n code lin i =
     (let f = op_facts (code ! i);
          out1 = (if of_fallthrough f \<and> i + 1 < length code then bs_union_with (bs_new n) (lin ! (i + 1)) else bs_new n) in
      fold (\<lambda>t out. if t < length code then bs_union_with out (lin ! t) else out) (of_targets f) out1)"

definition in_set :: "(nat, nat, 'm) op \<Rightarrow> bitset \<Rightarrow> bitset" where
  "in_set i out =
     (let f = op_facts i;
          in1 = (case of_def f of None \<Rightarrow> out | Some d \<Rightarrow> bs_remove d out);
          in2 = (case extra_defs i of None \<Rightarrow> in1 | Some d \<Rightarrow> bs_remove d in1) in
      fold bs_insert (of_uses f) in2)"

type_synonym sweep_state = "bitset list \<times> bitset list \<times> bool"

definition sweep_at :: "nat \<Rightarrow> (nat, nat, 'm) op list \<Rightarrow> nat \<Rightarrow> sweep_state \<Rightarrow> sweep_state" where
  "sweep_at n code i st =
     (case st of (lin, lout, changed) \<Rightarrow>
        let out = out_set n code lin i;
            inn = in_set (code ! i) out;
            (lout', changed') = (if out \<noteq> lout ! i then (lout[i := out], True) else (lout, changed)) in
        if inn \<noteq> lin ! i then (lin[i := inn], lout', True) else (lin, lout', changed'))"

definition sweep :: "nat \<Rightarrow> (nat, nat, 'm) op list \<Rightarrow> bitset list \<times> bitset list \<Rightarrow> sweep_state" where
  "sweep n code st = fold (sweep_at n code) (rev [0..<length code]) (fst st, snd st, False)"

partial_function (option) analyze_loop ::
  "nat \<Rightarrow> (nat, nat, 'm) op list \<Rightarrow> bitset list \<times> bitset list \<Rightarrow> (bitset list \<times> bitset list) option" where
  "analyze_loop n code st =
     (case sweep n code st of (lin, lout, changed) \<Rightarrow>
        if changed then analyze_loop n code (lin, lout) else Some (lin, lout))"

definition analyze :: "(nat, nat, 'm) op list \<Rightarrow> nat \<Rightarrow> (bitset list \<times> bitset list) option" where
  "analyze code n = analyze_loop n code (replicate (length code) (bs_new n), replicate (length code) (bs_new n))"

section \<open>Interference and coloring\<close>

definition add_interference :: "nat \<Rightarrow> nat \<Rightarrow> bitset list \<Rightarrow> bitset list" where
  "add_interference a b adj =
     (if a \<noteq> b then (let adj1 = adj[a := bs_insert b (adj ! a)] in adj1[b := bs_insert a (adj1 ! b)]) else adj)"

definition op_defs :: "('r, 'j, 'm) op \<Rightarrow> 'r list" where
  "op_defs i = opt_regs (of_def (op_facts i)) @ opt_regs (extra_defs i)"

definition interfere_at :: "(nat, nat, 'm) op \<Rightarrow> bitset \<Rightarrow> bitset list \<Rightarrow> bitset list" where
  "interfere_at i out adj =
     fold (\<lambda>d adj. fold (add_interference d) (op_defs i) (fold (add_interference d) (of_uses (op_facts i)) (fold (add_interference d) (bs_iter out) adj)))
       (op_defs i) adj"

definition build_interference :: "(nat, nat, 'm) op list \<Rightarrow> bitset list \<Rightarrow> nat \<Rightarrow> bitset list" where
  "build_interference code lout n =
     fold (\<lambda>i. interfere_at (code ! i) (lout ! i)) [0..<length code] (replicate n (bs_new n))"

text \<open>Give a register an edge to every other one.\<close>

definition pin :: "nat \<Rightarrow> nat \<Rightarrow> bitset list \<Rightarrow> bitset list" where
  "pin n r adj = fold (\<lambda>other. add_interference r other) [0..<n] adj"

fun lowest_free :: "bool list \<Rightarrow> nat" where
  "lowest_free [] = 0"
| "lowest_free (b # bs) = (if b then Suc (lowest_free bs) else 0)"

definition taken_by :: "nat \<Rightarrow> nat option list \<Rightarrow> nat list \<Rightarrow> bool list" where
  "taken_by n colors nbs =
     fold (\<lambda>nb taken. case colors ! nb of None \<Rightarrow> taken | Some c \<Rightarrow> taken[c := True]) nbs (replicate n False)"

definition color_step :: "nat \<Rightarrow> bitset list \<Rightarrow> nat \<Rightarrow> nat option list \<Rightarrow> nat option list" where
  "color_step n adj r colors = colors[r := Some (lowest_free (taken_by n colors (bs_iter (adj ! r))))]"

definition color_graph :: "bitset list \<Rightarrow> nat \<Rightarrow> nat \<Rightarrow> nat list" where
  "color_graph adj n num_params =
     map the (fold (color_step n adj) [num_params..<n]
       (map (\<lambda>r. if r < num_params then Some r else None) [0..<n]))"

section \<open>Coalescing a chunk\<close>

fun retain_first :: "nat list \<Rightarrow> nat set \<Rightarrow> nat list" where
  "retain_first [] seen = []"
| "retain_first (c # cs) seen = (if c \<in> seen then retain_first cs seen else c # retain_first cs (insert c seen))"

definition pinned_regs :: "'m chunk \<Rightarrow> nat list" where
  "pinned_regs ck = ck_frame_locals ck @ map ld_reg (ck_debug_locals ck)"

definition coalesce_colors :: "'m chunk \<Rightarrow> nat list option" where
  "coalesce_colors ck =
     (let n = ck_num_registers ck in
      map_option (\<lambda>(lin, lout).
        color_graph (fold (pin n) (pinned_regs ck) (build_interference (ck_code ck) lout n)) n (ck_num_params ck))
        (analyze (ck_code ck) n))"

definition new_count :: "nat list \<Rightarrow> nat" where
  "new_count colors = (if colors = [] then 0 else Suc (Max (set colors)))"

definition apply_colors :: "nat list \<Rightarrow> 'm chunk \<Rightarrow> 'm chunk" where
  "apply_colors colors ck =
     ck\<lparr>ck_code := map (remap_op colors) (ck_code ck),
        ck_frame_locals := retain_first (map (recolor colors) (ck_frame_locals ck)) {},
        ck_debug_locals := map (\<lambda>l. l\<lparr>ld_reg := recolor colors (ld_reg l)\<rparr>) (ck_debug_locals ck),
        ck_num_registers := new_count colors mod 2 ^ 16\<rparr>"

definition coalesce :: "'m chunk \<Rightarrow> 'm chunk option" where
  "coalesce ck =
     (if ck_num_registers ck = 0 then Some ck else map_option (\<lambda>colors. apply_colors colors ck) (coalesce_colors ck))"

end
