(* ===== verification/Regalloc_Ops.thy ===== *)
theory Regalloc_Ops
  imports Regalloc
begin

text \<open>
  The register bookkeeping of instructions is complete: the datatype's own map and set functions are the
  reference for which fields are registers and which are jump destinations.
\<close>

section \<open>Operand lists\<close>

lemma opt_regs_simps [simp]:
  "set (opt_regs x) = set_option x" "opt_regs (map_option f x) = map f (opt_regs x)"
  by (cases x; simp add: opt_regs_def)+

lemma capture_regs_simps [simp]:
  "set (capture_regs cs) = (\<Union>c \<in> set cs. set_capture_from c)"
  "capture_regs (map (map_capture_from f) cs) = map f (capture_regs cs)"
proof -
  have s: "set (capture_reg c) = set_capture_from c" for c :: "'c capture_from" by (cases c) simp_all
  have m: "capture_reg (map_capture_from f c) = map f (capture_reg c)" for c by (cases c) simp_all
  show "set (capture_regs cs) = (\<Union>c \<in> set cs. set_capture_from c)" by (simp add: capture_regs_def s)
  show "capture_regs (map (map_capture_from f) cs) = map f (capture_regs cs)"
    by (simp add: capture_regs_def map_concat o_def m)
qed

lemma pair_regs_simps [simp]:
  "set (pair_regs kvs) = (\<Union>kv \<in> set kvs. {fst kv, snd kv})"
  "pair_regs (map (map_prod f f) kvs) = map f (pair_regs kvs)"
proof -
  show "set (pair_regs kvs) = (\<Union>kv \<in> set kvs. {fst kv, snd kv})" by (auto simp: pair_regs_def)
  show "pair_regs (map (map_prod f f) kvs) = map f (pair_regs kvs)"
    by (induction kvs) (auto simp: pair_regs_def)
qed

lemma hint_regs_simps [simp]:
  "set (hint_regs h) = (\<Union>p \<in> set_option h. set (snd p))"
  "hint_regs (map_option (map_prod id (map f)) h) = map f (hint_regs h)"
  by (cases h; auto simp: hint_regs_def)+

lemma hole_regs_simps [simp]:
  "set (hole_regs ps) = (\<Union>p \<in> set ps. set_str_part p)"
  "hole_regs (map (map_str_part f) ps) = map f (hole_regs ps)"
proof -
  have s: "set (hole_reg c) = set_str_part c" for c :: "'c str_part" by (cases c) simp_all
  have m: "hole_reg (map_str_part f c) = map f (hole_reg c)" for c by (cases c) simp_all
  show "set (hole_regs ps) = (\<Union>p \<in> set ps. set_str_part p)" by (simp add: hole_regs_def s)
  show "hole_regs (map (map_str_part f) ps) = map f (hole_regs ps)"
    by (simp add: hole_regs_def map_concat o_def m)
qed

lemma remap_operand [simp]: "remap_capture m = map_capture_from m" "remap_part m = map_str_part m"
proof -
  show "remap_capture m = map_capture_from m"
  proof
    fix c show "remap_capture m c = map_capture_from m c" by (cases c) simp_all
  qed
  show "remap_part m = map_str_part m"
  proof
    fix p show "remap_part m p = map_str_part m p" by (cases p) simp_all
  qed
qed

lemma pair_maps [simp]:
  "(\<lambda>(k, v). (m k, m v)) = map_prod m m" "(\<lambda>(i, r). (i, m r)) = map_prod id m" "(\<lambda>(r, b). (m r, b)) = map_prod m id"
  "(case h of (x, slots) \<Rightarrow> (x, map m slots)) = map_prod id (map m) h" "(\<lambda>(h, slots). (h, map m slots)) = map_prod id (map m)"
  by (auto simp: fun_eq_iff split: prod.splits)

section \<open>Rewriting\<close>

lemma group_remap:
  "move_remap m i1 = map_move_op m i1" "coll_remap m i2 = map_coll_op m i2" "obj_remap m i3 = map_obj_op m i3"
  "check_remap m i4 = map_check_op m id i4" "task_remap m i5 = map_task_op m i5"
  "reflect_remap m i6 = map_reflect_op m i6" "call_remap m i7 = map_call_op m id i7" "flow_remap m i8 = map_flow_op m id i8"
proof -
  show "move_remap m i1 = map_move_op m i1" by (cases i1) simp_all
  show "coll_remap m i2 = map_coll_op m i2" by (cases i2) simp_all
  show "obj_remap m i3 = map_obj_op m i3" by (cases i3) simp_all
  show "check_remap m i4 = map_check_op m id i4" by (cases i4) simp_all
  show "task_remap m i5 = map_task_op m i5" by (cases i5) simp_all
  show "reflect_remap m i6 = map_reflect_op m i6" by (cases i6) simp_all
  show "call_remap m i7 = map_call_op m id i7" by (cases i7) simp_all
  show "flow_remap m i8 = map_flow_op m id i8" by (cases i8) simp_all
qed

lemma remap_is_map: "remap_with m i = map_op m id i"
  by (cases i) (simp_all add: group_remap)

lemma jump_pcs_mut_is_map: "for_each_jump_pc_mut g i = map_op id g i"
proof -
  have "check_jump_pcs_mut g c = map_check_op id g c" for c :: "('a, 'b, 'c) check_op" by (cases c) (simp_all add: prod.map_id0 list.map_id option.map_id)
  moreover have "call_jump_pcs_mut g c = map_call_op id g c" for c :: "('a, 'b, 'c) call_op" by (cases c) (simp_all add: list.map_id option.map_id)
  moreover have "flow_jump_pcs_mut g c = map_flow_op id g c" for c :: "('a, 'b, 'c) flow_op"
    by (cases c) (simp_all add: list.map_id0 list.map_id option.map_id0 option.map_id prod.map_id0 str_part.map_id0)
  ultimately show ?thesis
    by (cases i) (simp_all add: move_op.map_id coll_op.map_id obj_op.map_id task_op.map_id reflect_op.map_id)
qed

section \<open>Reads, writes and destinations\<close>

text \<open>Renaming registers renames what is read and written, in place.\<close>

lemma move_facts_map: "move_facts (map_move_op f i) = map_prod (map_option f) (map f) (move_facts i)"
  by (cases i) (simp_all add: o_def)

lemma coll_facts_map: "coll_facts (map_coll_op f i) = map_prod (map_option f) (map f) (coll_facts i)"
  by (cases i) (simp_all add: o_def)

lemma obj_facts_map: "obj_facts (map_obj_op f i) = map_prod (map_option f) (map f) (obj_facts i)"
  by (cases i) (simp_all add: o_def)

lemma check_facts_map: "check_facts (map_check_op f g i) = map_prod (map_option f) (map f) (check_facts i)"
  by (cases i) (simp_all add: o_def)

lemma task_facts_map: "task_facts (map_task_op f i) = map_prod (map_option f) (map f) (task_facts i)"
  by (cases i) (simp_all add: o_def)

lemma reflect_facts_map: "reflect_facts (map_reflect_op f i) = map_prod (map_option f) (map f) (reflect_facts i)"
  by (cases i) (simp_all add: o_def)

lemma call_facts_map: "call_facts (map_call_op f g i) = map_prod (map_option f) (map f) (call_facts i)"
  by (cases i) (simp_all add: o_def)

lemma flow_facts_map: "flow_facts (map_flow_op f g i) = map_prod (map_option f) (map f) (flow_facts i)"
  by (cases i) (simp_all add: o_def)

lemmas group_facts_map = move_facts_map coll_facts_map obj_facts_map check_facts_map task_facts_map reflect_facts_map call_facts_map flow_facts_map

lemma regs_of_map: "regs_of_op (map_op f g i) = map_prod (map_option f) (map f) (regs_of_op i)"
  by (cases i) (simp_all add: group_facts_map)

lemma jump_pcs_map: "for_each_jump_pc (map_op f g i) = map g (for_each_jump_pc i)"
proof -
  have "check_jump_pcs (map_check_op f g c) = map g (check_jump_pcs c)" for c by (cases c) simp_all
  moreover have "call_jump_pcs (map_call_op f g c) = map g (call_jump_pcs c)" for c by (cases c) simp_all
  moreover have "flow_jump_pcs (map_flow_op f g c) = map g (flow_jump_pcs c)" for c by (cases c) simp_all
  ultimately show ?thesis by (cases i) simp_all
qed

lemma move_regs: "set_move_op i = set_option (fst (move_facts i)) \<union> set (snd (move_facts i))"
  by (cases i) (simp_all, (force simp: fsts.simps snds.simps)+)

lemma obj_regs: "set_obj_op i = set_option (fst (obj_facts i)) \<union> set (snd (obj_facts i))"
  by (cases i) (simp_all, (force simp: fsts.simps snds.simps)+)

lemma check_regs: "set1_check_op i = set_option (fst (check_facts i)) \<union> set (snd (check_facts i))"
  by (cases i) (simp_all, (force simp: fsts.simps snds.simps)+)

lemma task_regs: "set_task_op i = set_option (fst (task_facts i)) \<union> set (snd (task_facts i))"
  by (cases i) (simp_all, (force simp: fsts.simps snds.simps)+)

lemma reflect_regs: "set_reflect_op i = set_option (fst (reflect_facts i)) \<union> set (snd (reflect_facts i))"
  by (cases i) (simp_all, (force simp: fsts.simps snds.simps)+)

lemma call_regs: "set1_call_op i = set_option (fst (call_facts i)) \<union> set (snd (call_facts i))"
  by (cases i) (simp_all, (force simp: fsts.simps snds.simps)+)

lemma flow_regs: "set1_flow_op i = set_option (fst (flow_facts i)) \<union> set (snd (flow_facts i))"
  by (cases i) (simp_all, (force simp: fsts.simps snds.simps)+)

lemma coll_regs:
  "set_coll_op i = set_option (fst (coll_facts i)) \<union> set (snd (coll_facts i)) \<union>
     set_option (extra_defs (CollOp i :: ('r, 'j, 'm) op))"
  by (cases i) (simp_all, (force simp: fsts.simps snds.simps)+)

lemma no_extra_defs:
  "extra_defs (MoveOp i1) = None" "extra_defs (ObjOp i3) = None" "extra_defs (CheckOp i4) = None" "extra_defs (TaskOp i5) = None"
  "extra_defs (ReflectOp i6) = None" "extra_defs (CallOp i7) = None" "extra_defs (FlowOp i8) = None"
  by simp_all

lemma op_regs: "set1_op i = set_option (fst (regs_of_op i)) \<union> set (snd (regs_of_op i)) \<union> set_option (extra_defs i)"
  by (cases i) (simp_all add: move_regs coll_regs obj_regs check_regs task_regs reflect_regs call_regs flow_regs)

lemma op_jumps: "set2_op (i :: ('a, 'b, 'c) op) = set (for_each_jump_pc i)"
proof -
  have "set2_check_op c = set (check_jump_pcs c)" for c :: "('a, 'b, 'c) check_op" by (cases c) simp_all
  moreover have "set2_call_op c = set (call_jump_pcs c)" for c :: "('a, 'b, 'c) call_op" by (cases c) simp_all
  moreover have "set2_flow_op c = set (flow_jump_pcs c)" for c :: "('a, 'b, 'c) flow_op" by (cases c) simp_all
  ultimately show ?thesis by (cases i) simp_all
qed

lemma falls_through_map: "falls_through (map_op f g i) = falls_through i"
proof (cases i)
  case (CheckOp c)
  then show ?thesis by (cases c) simp_all
next
  case (CallOp c)
  then show ?thesis by (cases c) simp_all
next
  case (FlowOp c)
  then show ?thesis by (cases c) simp_all
qed simp_all

lemma extra_defs_map: "extra_defs (map_op f g i) = map_option f (extra_defs i)"
proof (cases i)
  case (CollOp c)
  then show ?thesis by (cases c) simp_all
qed simp_all

text \<open>The facts of an instruction whose registers are renamed.\<close>

lemma op_facts_remap:
  "of_def (op_facts (remap_with m i)) = map_option m (of_def (op_facts i))"
  "of_uses (op_facts (remap_with m i)) = map m (of_uses (op_facts i))"
  "of_targets (op_facts (remap_with m i)) = of_targets (op_facts i)"
  "of_fallthrough (op_facts (remap_with m i)) = of_fallthrough (op_facts i)"
  "extra_defs (remap_with m i) = map_option m (extra_defs i)"
  "op_defs (remap_with m i) = map m (op_defs i)"
  by (simp_all add: op_facts_def op_defs_def remap_is_map regs_of_map jump_pcs_map falls_through_map extra_defs_map)

text \<open>
  C24: the register bookkeeping of the allocator is complete for all 108 instructions. The registers that
  \<open>op_facts\<close> and \<open>extra_defs\<close> report are exactly the register fields of the instruction, the destinations
  that \<open>for_each_jump_pc\<close> visits are exactly its jump fields, \<open>remap_op\<close> rewrites every register field
  and nothing else, and \<open>for_each_jump_pc_mut\<close> every destination and nothing else.
\<close>

theorem op_bookkeeping_complete:
  "set (of_uses (op_facts i)) \<union> set (op_defs i) = set1_op i \<and> set (for_each_jump_pc i) = set2_op i \<and>
   remap_op colors j = map_op (recolor colors) id j \<and> for_each_jump_pc_mut g i = map_op id g i"
  by (auto simp: op_facts_def op_defs_def op_regs op_jumps remap_op_def remap_is_map jump_pcs_mut_is_map)

end
