(* ===== verification/Regalloc_Liveness.thy ===== *)
theory Regalloc_Liveness
  imports Regalloc_Ops
begin

text \<open>
  The bit sets implement sets of registers, and the backward sweep computes liveness: the loop
  terminates, and a register is in \<open>live_out\<close> exactly when some path from a successor reads it before
  writing it.
\<close>

section \<open>Sets of registers\<close>

text \<open>What the analysis needs of a set of register numbers below a capacity.\<close>

locale register_set =
  fixes fits :: "nat \<Rightarrow> 's \<Rightarrow> bool" and mem :: "'s \<Rightarrow> nat set"
    and emp :: "nat \<Rightarrow> 's" and ins :: "nat \<Rightarrow> 's \<Rightarrow> 's" and del :: "nat \<Rightarrow> 's \<Rightarrow> 's" and uni :: "'s \<Rightarrow> 's \<Rightarrow> 's"
  assumes fits_ops: "fits n (emp n)" "fits n s \<Longrightarrow> fits n (ins i s)" "fits n s \<Longrightarrow> fits n (del i s)"
      "fits n s \<Longrightarrow> fits n t \<Longrightarrow> fits n (uni s t)"
    and mem_emp: "mem (emp n) = {}"
    and mem_ins: "fits n s \<Longrightarrow> i < n \<Longrightarrow> mem (ins i s) = insert i (mem s)"
    and mem_del: "fits n s \<Longrightarrow> i < n \<Longrightarrow> mem (del i s) = mem s - {i}"
    and mem_uni: "fits n s \<Longrightarrow> fits n t \<Longrightarrow> mem (uni s t) = mem s \<union> mem t"
    and mem_inject: "fits n s \<Longrightarrow> fits n t \<Longrightarrow> mem s = mem t \<Longrightarrow> s = t"
begin

lemma fold_ins:
  "fits n s \<Longrightarrow> \<forall>i \<in> set is. i < n \<Longrightarrow> fits n (fold ins is s) \<and> mem (fold ins is s) = set is \<union> mem s"
  by (induction "is" arbitrary: s) (auto simp: fits_ops mem_ins)

lemma fold_uni:
  assumes "fits n s" and "\<And>t. t \<in> set ts \<Longrightarrow> P t \<Longrightarrow> fits n (f t)"
  shows "fits n (fold (\<lambda>t s. if P t then uni s (f t) else s) ts s) \<and>
    mem (fold (\<lambda>t s. if P t then uni s (f t) else s) ts s) = mem s \<union> (\<Union>t \<in> {t \<in> set ts. P t}. mem (f t))"
  using assms
proof (induction ts arbitrary: s)
  case (Cons t ts)
  let ?s = "if P t then uni s (f t) else s"
  have "fits n ?s" "mem ?s = mem s \<union> (if P t then mem (f t) else {})"
    using Cons.prems by (auto simp: fits_ops mem_uni)
  with Cons.IH [of ?s] Cons.prems show ?case by auto
qed simp

end

definition members :: "bitset \<Rightarrow> nat set" where
  "members ws = {i. i < 64 * length ws \<and> bit (ws ! (i div 64)) (i mod 64)}"

lemma bit_power [simp]: "b < 64 \<Longrightarrow> bit (2 ^ b :: 64 word) k \<longleftrightarrow> k = b"
  by (auto simp: bit_exp_iff)

lemma word_bit_test: "b < 64 \<Longrightarrow> w AND 2 ^ b \<noteq> 0 \<longleftrightarrow> bit (w :: 64 word) b"
proof -
  assume b: "b < 64"
  have "bit (w AND 2 ^ b) k \<longleftrightarrow> k = b \<and> bit w b" for k using b by (auto simp: bit_and_iff)
  then show ?thesis by (metis bit_0_eq bot_apply bot_bool_def bit_eq_iff)
qed

lemma members_new [simp]: "members (bs_new n) = {}"
  by (auto simp: members_def bs_new_def div_less_iff_less_mult)

lemma index_in_range: "i < 64 * length ws \<Longrightarrow> i div 64 < length (ws :: bitset)"
  by (simp add: div_less_iff_less_mult mult.commute)

lemma members_insert: "i < 64 * length ws \<Longrightarrow> members (bs_insert i ws) = insert i (members ws)"
proof (rule set_eqI)
  fix k assume i: "i < 64 * length ws"
  note r = index_in_range [OF i]
  have eq: "k = i \<longleftrightarrow> k div 64 = i div 64 \<and> k mod 64 = i mod 64" by (metis div_mult_mod_eq)
  have "bit (ws ! (i div 64) OR push_bit (i mod 64) 1) (k mod 64) \<longleftrightarrow> bit (ws ! (i div 64)) (k mod 64) \<or> k mod 64 = i mod 64"
    by (auto simp: bit_or_iff)
  with r i eq show "k \<in> members (bs_insert i ws) \<longleftrightarrow> k \<in> insert i (members ws)"
    by (cases "k div 64 = i div 64") (auto simp: members_def bs_insert_def)
qed

lemma members_remove: "i < 64 * length ws \<Longrightarrow> members (bs_remove i ws) = members ws - {i}"
proof (rule set_eqI)
  fix k assume i: "i < 64 * length ws"
  note r = index_in_range [OF i]
  have eq: "k = i \<longleftrightarrow> k div 64 = i div 64 \<and> k mod 64 = i mod 64" by (metis div_mult_mod_eq)
  have "bit (ws ! (i div 64) AND NOT (push_bit (i mod 64) 1)) (k mod 64) \<longleftrightarrow> bit (ws ! (i div 64)) (k mod 64) \<and> k mod 64 \<noteq> i mod 64"
    by (auto simp: bit_and_iff bit_not_iff)
  with r i eq show "k \<in> members (bs_remove i ws) \<longleftrightarrow> k \<in> members ws - {i}"
    by (cases "k div 64 = i div 64") (auto simp: members_def bs_remove_def)
qed

lemma members_union: "length vs = length ws \<Longrightarrow> members (bs_union_with ws vs) = members ws \<union> members vs"
proof (rule set_eqI)
  fix k assume l: "length vs = length ws"
  show "k \<in> members (bs_union_with ws vs) \<longleftrightarrow> k \<in> members ws \<union> members vs"
    using l index_in_range [of k ws] by (auto simp: members_def bs_union_with_def bit_or_iff)
qed

lemma length_bitset [simp]:
  "length (bs_new n) = (n + 63) div 64" "length (bs_insert i ws) = length ws" "length (bs_remove i ws) = length ws"
  "length vs = length ws \<Longrightarrow> length (bs_union_with ws vs) = length ws"
  by (simp_all add: bs_new_def bs_insert_def bs_remove_def bs_union_with_def)

lemma members_inject: "length ws = length vs \<Longrightarrow> members ws = members vs \<Longrightarrow> ws = vs"
proof (rule nth_equalityI)
  fix i assume l: "length ws = length vs" and m: "members ws = members vs" and i: "i < length ws"
  show "ws ! i = vs ! i"
  proof (rule bit_word_eqI)
    fix b assume "b < LENGTH(64)"
    then have b: "b < 64" by simp
    have "i * 64 + b \<in> members ws \<longleftrightarrow> i * 64 + b \<in> members vs" using m by simp
    then show "bit (ws ! i) b \<longleftrightarrow> bit (vs ! i) b" using i l b by (simp add: members_def)
  qed
qed

lemma iter_members: "set (bs_iter ws) = members ws"
proof (rule set_eqI)
  fix k
  have "k \<in> set (bs_iter ws) \<longleftrightarrow> (\<exists>w \<in> {0..<length ws}. \<exists>b \<in> {0..<64}. ws ! w AND 2 ^ b \<noteq> 0 \<and> k = w * 64 + b)"
    by (simp add: bs_iter_def image_iff) (meson atLeastLessThan_iff zero_le)
  also have "\<dots> \<longleftrightarrow> (\<exists>w < length ws. \<exists>b < 64. bit (ws ! w) b \<and> k = w * 64 + b)"
    using word_bit_test by (metis atLeastLessThan_iff zero_le)
  also have "\<dots> \<longleftrightarrow> k \<in> members ws"
  proof
    assume "k \<in> members ws"
    then show "\<exists>w < length ws. \<exists>b < 64. bit (ws ! w) b \<and> k = w * 64 + b"
      using index_in_range [of k ws] by (intro exI [of _ "k div 64"] conjI exI [of _ "k mod 64"]) (auto simp: members_def)
  qed (auto simp: members_def)
  finally show "k \<in> set (bs_iter ws) \<longleftrightarrow> k \<in> members ws" .
qed

lemma contains_members: "bs_contains ws i \<longleftrightarrow> i \<in> members ws"
  using word_bit_test [of "i mod 64" "ws ! (i div 64)"] index_in_range [of i ws]
  by (auto simp: bs_contains_def members_def div_less_iff_less_mult)

lemma capacity: "length ws = (n + 63) div 64 \<Longrightarrow> i < n \<Longrightarrow> i < 64 * length (ws :: bitset)"
  by linarith

interpretation bits: register_set "\<lambda>n ws. length ws = (n + 63) div 64" members bs_new bs_insert bs_remove bs_union_with
proof
  show "length (bs_union_with s t) = (n + 63) div 64" if "length s = (n + 63) div 64" "length t = (n + 63) div 64" for n s t
    using that by simp
  show "members (bs_insert i s) = insert i (members s)" "members (bs_remove i s) = members s - {i}"
    if "length s = (n + 63) div 64" "i < n" for n s i
    using members_insert members_remove capacity [OF that] by blast+
  show "members (bs_union_with s t) = members s \<union> members t" if "length s = (n + 63) div 64" "length t = (n + 63) div 64" for n s t
    using members_union that by simp
  show "s = t" if "length s = (n + 63) div 64" "length t = (n + 63) div 64" "members s = members t" for n s t
    using members_inject that by simp
qed simp_all

section \<open>Liveness\<close>

definition succs :: "(nat, nat, 'm) op list \<Rightarrow> nat \<Rightarrow> nat set" where
  "succs code i =
     {j. j < length code \<and> (of_fallthrough (op_facts (code ! i)) \<and> j = i + 1 \<or> j \<in> set (of_targets (op_facts (code ! i))))}"

text \<open>Some path from \<open>i\<close> on reads \<open>r\<close> before it writes \<open>r\<close>.\<close>

inductive live_before :: "(nat, nat, 'm) op list \<Rightarrow> nat \<Rightarrow> nat \<Rightarrow> bool" for code where
  read: "i < length code \<Longrightarrow> r \<in> set (of_uses (op_facts (code ! i))) \<Longrightarrow> live_before code i r"
| pass: "\<lbrakk>i < length code; j \<in> succs code i; live_before code j r; r \<notin> set (op_defs (code ! i))\<rbrakk> \<Longrightarrow> live_before code i r"

definition live_after :: "(nat, nat, 'm) op list \<Rightarrow> nat \<Rightarrow> nat \<Rightarrow> bool" where
  "live_after code i r = (\<exists>j \<in> succs code i. live_before code j r)"

text \<open>Registers within the frame.\<close>

definition regs_below :: "nat \<Rightarrow> (nat, nat, 'm) op list \<Rightarrow> bool" where
  "regs_below n code = (\<forall>i \<in> set code. \<forall>r \<in> set1_op i. r < n)"

lemma regs_belowD:
  assumes "regs_below n code" and "i < length code"
  shows "r \<in> set (of_uses (op_facts (code ! i))) \<Longrightarrow> r < n" "r \<in> set (op_defs (code ! i)) \<Longrightarrow> r < n"
    "of_def (op_facts (code ! i)) = Some r \<Longrightarrow> r < n" "extra_defs (code ! i) = Some r \<Longrightarrow> r < n"
proof -
  have b: "r < n" if "r \<in> set1_op (code ! i)" for r using assms that nth_mem unfolding regs_below_def by blast
  show "r < n" if "r \<in> set (of_uses (op_facts (code ! i)))" using that b by (simp add: op_regs op_facts_def)
  show d: "r < n" if "r \<in> set (op_defs (code ! i))" using that b by (auto simp: op_regs op_facts_def op_defs_def)
  show "r < n" if "of_def (op_facts (code ! i)) = Some r"
    using that d by (simp add: op_defs_def)
  show "r < n" if "extra_defs (code ! i) = Some r" using that d by (simp add: op_defs_def)
qed

definition sized :: "nat \<Rightarrow> (nat, nat, 'm) op list \<Rightarrow> bitset list \<Rightarrow> bool" where
  "sized n code sets = (length sets = length code \<and> (\<forall>i < length code. length (sets ! i) = (n + 63) div 64))"

lemma sized_update: "sized n code sets \<Longrightarrow> length ws = (n + 63) div 64 \<Longrightarrow> sized n code (sets[i := ws])"
  by (simp add: sized_def) (metis nth_list_update_eq nth_list_update_neq)

definition flow_out :: "(nat, nat, 'm) op list \<Rightarrow> bitset list \<Rightarrow> nat \<Rightarrow> nat set" where
  "flow_out code lin i = (\<Union>j \<in> succs code i. members (lin ! j))"

definition flow_in :: "(nat, nat, 'm) op list \<Rightarrow> bitset list \<Rightarrow> nat \<Rightarrow> nat set" where
  "flow_in code lin i = set (of_uses (op_facts (code ! i))) \<union> (flow_out code lin i - set (op_defs (code ! i)))"

lemma out_set_members:
  assumes "sized n code lin" and "i < length code"
  shows "length (out_set n code lin i) = (n + 63) div 64" and "members (out_set n code lin i) = flow_out code lin i"
proof -
  let ?f = "op_facts (code ! i)"
  let ?o = "if of_fallthrough ?f \<and> i + 1 < length code then bs_union_with (bs_new n) (lin ! (i + 1)) else bs_new n"
  have fit: "length (lin ! j) = (n + 63) div 64" if "j < length code" for j using assms(1) that by (simp add: sized_def)
  have o: "length ?o = (n + 63) div 64" "members ?o = (if of_fallthrough ?f \<and> i + 1 < length code then members (lin ! (i + 1)) else {})"
    using fit [of "i + 1"] by (auto simp: members_union)
  note u = bits.fold_uni [OF o(1), of "of_targets ?f" "\<lambda>t. t < length code" "\<lambda>t. lin ! t", OF fit]
  show "length (out_set n code lin i) = (n + 63) div 64" using u by (simp add: out_set_def Let_def)
  have "members (out_set n code lin i) = members ?o \<union> (\<Union>t \<in> {t \<in> set (of_targets ?f). t < length code}. members (lin ! t))"
    using u by (simp add: out_set_def Let_def)
  then show "members (out_set n code lin i) = flow_out code lin i"
    unfolding o(2) flow_out_def succs_def by auto
qed

lemma in_set_members:
  assumes "regs_below n code" and "i < length code" and "length out = (n + 63) div 64"
  shows "length (in_set (code ! i) out) = (n + 63) div 64"
    and "members (in_set (code ! i) out) = set (of_uses (op_facts (code ! i))) \<union> (members out - set (op_defs (code ! i)))"
proof -
  let ?f = "op_facts (code ! i)"
  define in1 where "in1 = (case of_def ?f of None \<Rightarrow> out | Some d \<Rightarrow> bs_remove d out)"
  define in2 where "in2 = (case extra_defs (code ! i) of None \<Rightarrow> in1 | Some d \<Rightarrow> bs_remove d in1)"
  note b = regs_belowD [OF assms(1,2)]
  have 1: "length in1 = (n + 63) div 64" "members in1 = members out - set_option (of_def ?f)"
    using b(3) assms(3) by (auto simp: in1_def bits.mem_del split: option.splits)
  have 2: "length in2 = (n + 63) div 64" "members in2 = members in1 - set_option (extra_defs (code ! i))"
    using b(4) 1(1) by (auto simp: in2_def bits.mem_del split: option.splits)
  have "in_set (code ! i) out = fold bs_insert (of_uses ?f) in2"
    unfolding in2_def in1_def in_set_def Let_def by (rule refl)
  with bits.fold_ins [OF 2(1), of "of_uses ?f"] b(1) 1(2) 2(2)
  show "length (in_set (code ! i) out) = (n + 63) div 64"
    "members (in_set (code ! i) out) = set (of_uses (op_facts (code ! i))) \<union> (members out - set (op_defs (code ! i)))"
    by (auto simp: op_defs_def)
qed

section \<open>The sweeps\<close>

definition sweep_inv :: "nat \<Rightarrow> (nat, nat, 'm) op list \<Rightarrow> bitset list \<Rightarrow> bitset list \<Rightarrow> bool" where
  "sweep_inv n code lin lout =
     (sized n code lin \<and> sized n code lout \<and>
      (\<forall>i < length code. members (lin ! i) \<subseteq> {r. live_before code i r} \<and> members (lout ! i) \<subseteq> {r. live_after code i r} \<and>
         members (lin ! i) \<subseteq> flow_in code lin i \<and> members (lout ! i) \<subseteq> flow_out code lin i))"

lemma sweep_invD:
  assumes "sweep_inv n code lin lout"
  shows "sized n code lin" "sized n code lout" "i < length code \<Longrightarrow> members (lin ! i) \<subseteq> {r. live_before code i r}"
    "i < length code \<Longrightarrow> members (lout ! i) \<subseteq> {r. live_after code i r}"
    "i < length code \<Longrightarrow> members (lin ! i) \<subseteq> flow_in code lin i" "i < length code \<Longrightarrow> members (lout ! i) \<subseteq> flow_out code lin i"
  using assms unfolding sweep_inv_def by blast+

definition mass :: "nat \<Rightarrow> bitset list \<Rightarrow> nat" where
  "mass k sets = (\<Sum>i < k. card (members (sets ! i)))"

lemma finite_members [simp]: "finite (members ws)"
  by (rule finite_subset [of _ "{..<64 * length ws}"]) (auto simp: members_def)

lemma mass_update:
  assumes "i < k" and "i < length sets" and "members (sets ! i) \<subseteq> members ws"
  shows "mass k sets \<le> mass k (sets[i := ws])" and "ws \<noteq> sets ! i \<Longrightarrow> length ws = length (sets ! i) \<Longrightarrow> mass k sets < mass k (sets[i := ws])"
proof -
  have other: "card (members (sets ! j)) \<le> card (members (sets[i := ws] ! j))" for j
    using assms by (cases "j = i") (auto intro: card_mono)
  show "mass k sets \<le> mass k (sets[i := ws])" unfolding mass_def by (rule sum_mono) (rule other)
  assume "ws \<noteq> sets ! i" "length ws = length (sets ! i)"
  then have "members (sets ! i) \<subset> members ws" using assms(3) members_inject by blast
  then have "card (members (sets ! i)) < card (members (sets[i := ws] ! i))" using assms(2) by (simp add: psubset_card_mono)
  then show "mass k sets < mass k (sets[i := ws])"
    unfolding mass_def using other assms(1) by (intro sum_strict_mono_ex1) auto
qed

lemma mass_bound: "sized n code sets \<Longrightarrow> mass (length code) sets \<le> length code * (64 * ((n + 63) div 64))"
proof -
  assume s: "sized n code sets"
  have "card (members (sets ! i)) \<le> 64 * ((n + 63) div 64)" if "i < length code" for i
  proof -
    have "members (sets ! i) \<subseteq> {..<64 * ((n + 63) div 64)}" using s that by (auto simp: members_def sized_def)
    then show ?thesis using card_mono [of "{..<64 * ((n + 63) div 64)}"] by simp
  qed
  then show ?thesis unfolding mass_def using sum_bounded_above [of "{..<length code}" "\<lambda>i. card (members (sets ! i))"] by simp
qed

text \<open>The equations hold at \<open>i\<close>.\<close>

definition stable_at :: "(nat, nat, 'm) op list \<Rightarrow> bitset list \<Rightarrow> bitset list \<Rightarrow> nat \<Rightarrow> bool" where
  "stable_at code lin lout i = (members (lout ! i) = flow_out code lin i \<and> members (lin ! i) = flow_in code lin i)"

lemma flow_mono:
  assumes "\<And>j. members (lin ! j) \<subseteq> members (lin' ! j)"
  shows "flow_out code lin i \<subseteq> flow_out code lin' i" "flow_in code lin i \<subseteq> flow_in code lin' i"
  using assms unfolding flow_in_def flow_out_def by blast+

lemma flow_sound:
  assumes "sweep_inv n code lin lout" and "i < length code"
  shows "flow_out code lin i \<subseteq> {r. live_after code i r}" "flow_in code lin i \<subseteq> {r. live_before code i r}"
proof -
  show o: "flow_out code lin i \<subseteq> {r. live_after code i r}"
    unfolding flow_out_def live_after_def using sweep_invD(3) [OF assms(1)] by (auto simp: succs_def)
  show "flow_in code lin i \<subseteq> {r. live_before code i r}"
    unfolding flow_in_def using o assms(2) by (auto simp: live_after_def intro: live_before.intros)
qed

lemma sweep_at_step:
  assumes "regs_below n code" and i: "i < length code" and inv: "sweep_inv n code lin lout"
    and step: "sweep_at n code i (lin, lout, c) = (lin', lout', c')"
  shows "sweep_inv n code lin' lout'"
    and "mass (length code) lin + mass (length code) lout \<le> mass (length code) lin' + mass (length code) lout'"
    and "c' \<Longrightarrow> c \<or> mass (length code) lin + mass (length code) lout < mass (length code) lin' + mass (length code) lout'"
    and "\<not> c' \<Longrightarrow> \<not> c \<and> lin' = lin \<and> lout' = lout \<and> stable_at code lin lout i"
proof -
  note I = sweep_invD [OF inv]
  define out where "out = out_set n code lin i"
  define inn where "inn = in_set (code ! i) out"
  note o = out_set_members [OF I(1) i, folded out_def]
  note n = in_set_members [OF assms(1) i o(1), folded inn_def, unfolded o(2), folded flow_in_def]
  have len: "length lin = length code" "length lout = length code" "length (lin ! i) = (n + 63) div 64" "length (lout ! i) = (n + 63) div 64"
    using I(1,2) i by (simp_all add: sized_def)
  have st: "lin' = (if inn \<noteq> lin ! i then lin[i := inn] else lin)" "lout' = (if out \<noteq> lout ! i then lout[i := out] else lout)"
    "c' = (inn \<noteq> lin ! i \<or> out \<noteq> lout ! i \<or> c)"
    using step unfolding sweep_at_def prod.case Let_def out_def [symmetric] inn_def [symmetric] by (auto split: if_splits)
  then have upd: "lin' = lin[i := inn]" "lout' = lout[i := out]" by auto
  have sub: "members (lin ! i) \<subseteq> members inn" "members (lout ! i) \<subseteq> members out" using I(5,6) i n(2) o(2) by auto
  have up: "members (lin ! j) \<subseteq> members (lin' ! j)" for j using sub(1) upd(1) len i by (cases "j = i") auto
  note mono = flow_mono [OF up]
  have in': "members (lin' ! j) \<subseteq> flow_in code lin j" and out': "members (lout' ! j) \<subseteq> flow_out code lin j" if "j < length code" for j
    using that I(5,6) n(2) o(2) upd len by (cases "j = i"; auto)+
  show "sweep_inv n code lin' lout'"
    unfolding sweep_inv_def
  proof (intro conjI allI impI)
    show "sized n code lin'" "sized n code lout'" using I(1,2) sized_update n(1) o(1) upd by simp_all
    fix j assume j: "j < length code"
    show "members (lin' ! j) \<subseteq> {r. live_before code j r}" "members (lout' ! j) \<subseteq> {r. live_after code j r}"
      using in' [OF j] out' [OF j] flow_sound [OF inv j] by auto
    show "members (lin' ! j) \<subseteq> flow_in code lin' j" "members (lout' ! j) \<subseteq> flow_out code lin' j"
      using in' [OF j] out' [OF j] mono [of code j] by auto
  qed
  note ml = mass_update [OF i, of lin inn] and mo = mass_update [OF i, of lout out]
  show "mass (length code) lin + mass (length code) lout \<le> mass (length code) lin' + mass (length code) lout'"
    unfolding upd using ml(1) mo(1) sub len i by (simp add: add_mono)
  show "c \<or> mass (length code) lin + mass (length code) lout < mass (length code) lin' + mass (length code) lout'" if "c'"
    using that ml mo sub len i n(1) o(1) unfolding st(3) upd
    by (auto intro: add_less_le_mono add_le_less_mono)
  show "\<not> c \<and> lin' = lin \<and> lout' = lout \<and> stable_at code lin lout i" if "\<not> c'"
    using that st n(2) o(2) by (auto simp: stable_at_def)
qed

lemma sweep_fold:
  assumes "regs_below n code"
  shows "\<lbrakk>sweep_inv n code lin lout; \<forall>i \<in> set is. i < length code; fold (sweep_at n code) is (lin, lout, c) = (lin', lout', c')\<rbrakk> \<Longrightarrow>
    sweep_inv n code lin' lout' \<and>
    mass (length code) lin + mass (length code) lout \<le> mass (length code) lin' + mass (length code) lout' \<and>
    (c' \<longrightarrow> c \<or> mass (length code) lin + mass (length code) lout < mass (length code) lin' + mass (length code) lout') \<and>
    (\<not> c' \<longrightarrow> \<not> c \<and> lin' = lin \<and> lout' = lout \<and> (\<forall>i \<in> set is. stable_at code lin lout i))"
proof (induction "is" arbitrary: lin lout c)
  case (Cons i "is")
  obtain lin1 lout1 c1 where 1: "sweep_at n code i (lin, lout, c) = (lin1, lout1, c1)" by (metis prod_cases3)
  note s = sweep_at_step [OF assms _ Cons.prems(1) 1]
  have i: "i < length code" using Cons.prems(2) by simp
  have "fold (sweep_at n code) is (lin1, lout1, c1) = (lin', lout', c')" "\<forall>i \<in> set is. i < length code"
    using Cons.prems(2,3) 1 by simp_all
  note ih = Cons.IH [OF s(1) [OF i] this(2,1)]
  then have ih: "sweep_inv n code lin' lout'"
    "mass (length code) lin1 + mass (length code) lout1 \<le> mass (length code) lin' + mass (length code) lout'"
    "c' \<longrightarrow> c1 \<or> mass (length code) lin1 + mass (length code) lout1 < mass (length code) lin' + mass (length code) lout'"
    "\<not> c' \<longrightarrow> \<not> c1 \<and> lin' = lin1 \<and> lout' = lout1 \<and> (\<forall>i \<in> set is. stable_at code lin1 lout1 i)" by blast+
  have "c' \<longrightarrow> c \<or> mass (length code) lin + mass (length code) lout < mass (length code) lin' + mass (length code) lout'"
    using ih(2,3) s(2,3) i by linarith
  moreover have "\<not> c' \<longrightarrow> \<not> c \<and> lin' = lin \<and> lout' = lout \<and> (\<forall>k \<in> set (i # is). stable_at code lin lout k)"
    using ih(4) s(4) i by auto
  ultimately show ?case using ih(1,2) s(2) i by linarith
qed simp

lemma analyze_loop_returns:
  assumes "regs_below n code"
  shows "sweep_inv n code lin lout \<Longrightarrow>
    \<exists>lin' lout'. analyze_loop n code (lin, lout) = Some (lin', lout') \<and> sweep_inv n code lin' lout' \<and>
      (\<forall>i < length code. stable_at code lin' lout' i)"
proof (induction "2 * length code * (64 * ((n + 63) div 64)) - (mass (length code) lin + mass (length code) lout)"
    arbitrary: lin lout rule: less_induct)
  case less
  obtain lin1 lout1 c where sw: "sweep n code (lin, lout) = (lin1, lout1, c)" by (metis prod_cases3)
  note f = sweep_fold [OF assms less.prems _ sw [unfolded sweep_def, simplified]]
  have f: "sweep_inv n code lin1 lout1"
    "c \<Longrightarrow> mass (length code) lin + mass (length code) lout < mass (length code) lin1 + mass (length code) lout1"
    "\<not> c \<Longrightarrow> lin1 = lin \<and> lout1 = lout \<and> (\<forall>i < length code. stable_at code lin lout i)"
    using f by auto
  have un: "analyze_loop n code (lin, lout) = (if c then analyze_loop n code (lin1, lout1) else Some (lin1, lout1))"
    by (subst analyze_loop.simps) (simp add: sw)
  show ?case
  proof (cases c)
    case True
    have "mass (length code) lin1 + mass (length code) lout1 \<le> 2 * length code * (64 * ((n + 63) div 64))"
      using mass_bound [OF sweep_invD(1) [OF f(1)]] mass_bound [OF sweep_invD(2) [OF f(1)]] by simp
    with f(2) [OF True] have "2 * length code * (64 * ((n + 63) div 64)) - (mass (length code) lin1 + mass (length code) lout1)
      < 2 * length code * (64 * ((n + 63) div 64)) - (mass (length code) lin + mass (length code) lout)" by linarith
    from less.hyps [OF this f(1)] True un show ?thesis by simp
  next
    case False
    with f un show ?thesis by auto
  qed
qed

lemma stable_complete:
  assumes "\<forall>i < length code. stable_at code lin lout i" and "live_before code i r"
  shows "r \<in> members (lin ! i)"
  using assms(2)
proof induction
  case (read i r)
  then show ?case using assms(1) by (simp add: stable_at_def flow_in_def)
next
  case (pass i j r)
  then show ?case using assms(1) by (auto simp: stable_at_def flow_in_def flow_out_def)
qed

text \<open>The result of the analysis, as sets.\<close>

lemma analyze_exact:
  assumes "regs_below n code"
  shows "\<exists>lin lout. analyze code n = Some (lin, lout) \<and> length lin = length code \<and> length lout = length code \<and>
    (\<forall>i < length code. members (lin ! i) = {r. live_before code i r} \<and> members (lout ! i) = {r. live_after code i r} \<and>
       length (lout ! i) = (n + 63) div 64)"
proof -
  let ?e = "replicate (length code) (bs_new n)"
  have "sweep_inv n code ?e ?e" by (auto simp: sweep_inv_def sized_def)
  from analyze_loop_returns [OF assms this] obtain lin lout where
    a: "analyze code n = Some (lin, lout)" "sweep_inv n code lin lout" "\<forall>i < length code. stable_at code lin lout i"
    by (auto simp: analyze_def)
  have i: "members (lin ! i) = {r. live_before code i r}" if "i < length code" for i
    using sweep_invD(3) [OF a(2) that] stable_complete [OF a(3), of i] by blast
  have "members (lout ! i) = {r. live_after code i r}" if j: "i < length code" for i
  proof -
    have "members (lout ! i) = flow_out code lin i" using a(3) j by (simp add: stable_at_def)
    also have "\<dots> = {r. live_after code i r}" unfolding flow_out_def live_after_def using i by (auto simp: succs_def)
    finally show ?thesis .
  qed
  with a i sweep_invD(1,2) [OF a(2)] show ?thesis by (auto simp: sized_def)
qed

text \<open>
  C5: liveness analysis terminates and is exact. For code whose registers are below the frame size, the
  fixpoint loop returns, and its \<open>live_out\<close> set at every instruction holds exactly the registers that some
  path from a successor reads before writing: nothing live is missed, so no live value can be overwritten,
  and nothing dead is kept, so every dead slot can be reused.
\<close>

theorem liveness_exact:
  assumes "regs_below n code"
  shows "\<exists>lin lout. analyze code n = Some (lin, lout) \<and> length lout = length code \<and>
    (\<forall>i < length code. \<forall>r. bs_contains (lout ! i) r \<longleftrightarrow> live_after code i r)"
  using analyze_exact [OF assms] by (auto simp: contains_members)

end
