(* ===== verification/Regalloc_Coloring.thy ===== *)
theory Regalloc_Coloring
  imports Regalloc_Liveness
begin

text \<open>
  The interference graph holds every conflict the rewriting must respect, and the greedy coloring is
  proper, keeps the parameters and never needs more colors than there were registers.
\<close>

section \<open>The graph\<close>

definition edge :: "bitset list \<Rightarrow> nat \<Rightarrow> nat \<Rightarrow> bool" where
  "edge adj a b = (b \<in> members (adj ! a))"

definition adj_ok :: "nat \<Rightarrow> bitset list \<Rightarrow> bool" where
  "adj_ok n adj =
     (length adj = n \<and> (\<forall>a < n. length (adj ! a) = (n + 63) div 64 \<and> (\<forall>b. edge adj a b \<longrightarrow> b < n \<and> b \<noteq> a \<and> edge adj b a)))"

lemma adj_okD:
  assumes "adj_ok n adj"
  shows "length adj = n" "a < n \<Longrightarrow> length (adj ! a) = (n + 63) div 64"
    "a < n \<Longrightarrow> edge adj a b \<Longrightarrow> b < n" "a < n \<Longrightarrow> edge adj a b \<Longrightarrow> b \<noteq> a" "a < n \<Longrightarrow> edge adj a b \<Longrightarrow> edge adj b a"
  using assms unfolding adj_ok_def by blast+

lemma edge_add:
  assumes "adj_ok n adj" and "a < n" "b < n"
  shows "x < n \<Longrightarrow> edge (add_interference a b adj) x y \<longleftrightarrow> edge adj x y \<or> a \<noteq> b \<and> (x = a \<and> y = b \<or> x = b \<and> y = a)"
    and "adj_ok n (add_interference a b adj)"
proof -
  note A = adj_okD [OF assms(1)]
  let ?g = "add_interference a b adj"
  have at: "?g ! x = (if a = b then adj ! x else if x = a then bs_insert b (adj ! a) else if x = b then bs_insert a (adj ! b) else adj ! x)"
    if "x < n" for x using assms A(1) that by (simp add: add_interference_def)
  have e: "edge ?g x y \<longleftrightarrow> edge adj x y \<or> a \<noteq> b \<and> (x = a \<and> y = b \<or> x = b \<and> y = a)" if "x < n" for x y
    using at [OF that] assms(2,3) bits.mem_ins [OF A(2)] by (auto simp: edge_def)
  then show "x < n \<Longrightarrow> edge ?g x y \<longleftrightarrow> edge adj x y \<or> a \<noteq> b \<and> (x = a \<and> y = b \<or> x = b \<and> y = a)" .
  have "length (?g ! x) = (n + 63) div 64" if "x < n" for x using at [OF that] A(2) that assms(2,3) by simp
  moreover have "length ?g = n" using A(1) by (simp add: add_interference_def Let_def)
  moreover have "y < n \<and> y \<noteq> x \<and> edge ?g y x" if x: "x < n" and xy: "edge ?g x y" for x y
  proof (cases "edge adj x y")
    case True
    then show ?thesis using A(3-5) [OF x True] e by blast
  next
    case False
    then have "a \<noteq> b" "x = a \<and> y = b \<or> x = b \<and> y = a" using xy e [OF x] by blast+
    then show ?thesis using assms(2,3) e by blast
  qed
  ultimately show "adj_ok n ?g" unfolding adj_ok_def by blast
qed

lemma fold_add:
  "\<lbrakk>adj_ok n adj; d < n; \<forall>r \<in> set rs. r < n\<rbrakk> \<Longrightarrow>
   adj_ok n (fold (add_interference d) rs adj) \<and>
   (\<forall>x < n. \<forall>y. edge (fold (add_interference d) rs adj) x y \<longleftrightarrow>
      edge adj x y \<or> (x = d \<and> y \<in> set rs - {d} \<or> y = d \<and> x \<in> set rs - {d}))"
proof (induction rs arbitrary: adj)
  case (Cons r rs)
  note e = edge_add [OF Cons.prems(1,2), of r]
  have r: "r < n" using Cons.prems(3) by simp
  from Cons.IH [OF e(2) [OF r] Cons.prems(2)] Cons.prems(3) show ?case using e(1) [OF r] by auto
qed simp

lemma pin_edges:
  assumes "adj_ok n adj" and "r < n"
  shows "adj_ok n (pin n r adj)" and "x < n \<Longrightarrow> edge (pin n r adj) x y \<longleftrightarrow> edge adj x y \<or> (y < n \<and> x \<noteq> y \<and> (x = r \<or> y = r))"
proof -
  have f: "adj_ok n (pin n r adj) \<and> (\<forall>x < n. \<forall>y. edge (pin n r adj) x y \<longleftrightarrow>
      edge adj x y \<or> (x = r \<and> y \<in> set [0..<n] - {r} \<or> y = r \<and> x \<in> set [0..<n] - {r}))"
    unfolding pin_def by (rule fold_add [OF assms]) simp
  then show "adj_ok n (pin n r adj)" by blast
  show "x < n \<Longrightarrow> edge (pin n r adj) x y \<longleftrightarrow> edge adj x y \<or> (y < n \<and> x \<noteq> y \<and> (x = r \<or> y = r))" using f assms(2) by auto
qed

text \<open>What the graph must contain.\<close>

definition covers :: "nat \<Rightarrow> (nat, nat, 'm) op list \<Rightarrow> nat set \<Rightarrow> bitset list \<Rightarrow> bool" where
  "covers n code is adj =
     (\<forall>i \<in> is. \<forall>d \<in> set (op_defs (code ! i)). \<forall>r < n.
        r \<noteq> d \<and> (live_after code i r \<or> r \<in> set (of_uses (op_facts (code ! i))) \<or> r \<in> set (op_defs (code ! i))) \<longrightarrow> edge adj d r)"

lemma live_after_below: "regs_below n code \<Longrightarrow> live_after code i r \<Longrightarrow> r < n"
proof -
  assume b: "regs_below n code"
  have "live_before code j r \<Longrightarrow> r < n" for j
    by (induction rule: live_before.induct) (use regs_belowD(1) [OF b] in blast)+
  then show "live_after code i r \<Longrightarrow> r < n" by (auto simp: live_after_def)
qed

text \<open>The edges one instruction adds.\<close>

lemma interfere_at_edges:
  assumes b: "regs_below n code" and i: "i < length code" and out: "members out = {r. live_after code i r}" and ok: "adj_ok n adj"
  shows "adj_ok n (interfere_at (code ! i) out adj) \<and>
    (\<forall>x < n. \<forall>y. edge adj x y \<longrightarrow> edge (interfere_at (code ! i) out adj) x y) \<and> covers n code {i} (interfere_at (code ! i) out adj)"
proof -
  let ?u = "of_uses (op_facts (code ! i))" let ?ds = "op_defs (code ! i)"
  let ?all = "bs_iter out @ ?u @ ?ds"
  have all: "\<forall>r \<in> set ?all. r < n"
    using live_after_below [OF b, of i] regs_belowD(1,2) [OF b i] out by (auto simp: iter_members)
  have step: "fold (add_interference d) ?ds (fold (add_interference d) ?u (fold (add_interference d) (bs_iter out) g)) =
      fold (add_interference d) ?all g" for d g by simp
  have "\<lbrakk>adj_ok n g; set ds \<subseteq> set ?ds\<rbrakk> \<Longrightarrow>
      adj_ok n (fold (\<lambda>d. fold (add_interference d) ?all) ds g) \<and>
      (\<forall>x < n. \<forall>y. edge g x y \<longrightarrow> edge (fold (\<lambda>d. fold (add_interference d) ?all) ds g) x y) \<and>
      (\<forall>d \<in> set ds. \<forall>r \<in> set ?all. r \<noteq> d \<longrightarrow> edge (fold (\<lambda>d. fold (add_interference d) ?all) ds g) d r)" for ds g
  proof (induction ds arbitrary: g)
    case (Cons d ds)
    have d: "d < n" using Cons.prems(2) regs_belowD(2) [OF b i] by auto
    let ?g = "fold (add_interference d) ?all g"
    have f: "adj_ok n ?g" "\<forall>x < n. \<forall>y. edge ?g x y \<longleftrightarrow> edge g x y \<or> (x = d \<and> y \<in> set ?all - {d} \<or> y = d \<and> x \<in> set ?all - {d})"
      using fold_add [OF Cons.prems(1) d all] by blast+
    have sub: "set ds \<subseteq> set ?ds" using Cons.prems(2) by simp
    note ih = Cons.IH [OF f(1) sub]
    have "edge (fold (\<lambda>d. fold (add_interference d) ?all) ds ?g) d r" if "r \<in> set ?all" "r \<noteq> d" for r
      using ih f(2) d that by blast
    then show ?case using ih f(2) by (auto simp del: fold_append)
  qed simp
  from this [OF ok subset_refl] show ?thesis
    unfolding interfere_at_def step covers_def using out by (auto simp: iter_members simp del: fold_append)
qed

lemma fold_interfere:
  assumes b: "regs_below n code" and out: "\<forall>i < length code. members (lout ! i) = {r. live_after code i r}"
  shows "\<lbrakk>adj_ok n g; covers n code I g; I \<subseteq> {..<length code}; \<forall>i \<in> set is. i < length code\<rbrakk> \<Longrightarrow>
    adj_ok n (fold (\<lambda>i. interfere_at (code ! i) (lout ! i)) is g) \<and>
    covers n code (I \<union> set is) (fold (\<lambda>i. interfere_at (code ! i) (lout ! i)) is g)"
proof (induction "is" arbitrary: I g)
  case (Cons i "is")
  let ?g = "interfere_at (code ! i) (lout ! i) g"
  have i: "i < length code" using Cons.prems(4) by simp
  then have "members (lout ! i) = {r. live_after code i r}" using out by simp
  note s = interfere_at_edges [OF b i this Cons.prems(1)]
  have "edge ?g d r" if "k \<in> I" "d \<in> set (op_defs (code ! k))" "edge g d r" for k d r
    using s that Cons.prems(3) regs_belowD(2) [OF b, of k d] by (auto simp: lessThan_def)
  then have "covers n code (insert i I) ?g"
    using s Cons.prems(2) unfolding covers_def by blast
  from Cons.IH [OF _ this] s Cons.prems(3,4) i show ?case by auto
qed simp

lemma build_edges:
  assumes b: "regs_below n code" and out: "\<forall>i < length code. members (lout ! i) = {r. live_after code i r}"
  shows "adj_ok n (build_interference code lout n) \<and> covers n code {..<length code} (build_interference code lout n)"
proof -
  let ?g = "replicate n (bs_new n)"
  have "adj_ok n ?g" "covers n code {} ?g" by (auto simp: adj_ok_def edge_def covers_def)
  from fold_interfere [OF b out this, of "[0..<length code]"] show ?thesis
    unfolding build_interference_def by (simp add: atLeast0LessThan)
qed

section \<open>Coloring\<close>

lemma taken_by_spec:
  "\<lbrakk>\<forall>nb \<in> set nbs. \<forall>c. colors ! nb = Some c \<longrightarrow> c < n; length t = n\<rbrakk> \<Longrightarrow>
   length (fold (\<lambda>nb taken. case colors ! nb of None \<Rightarrow> taken | Some c \<Rightarrow> taken[c := True]) nbs t) = n \<and>
   (\<forall>c < n. fold (\<lambda>nb taken. case colors ! nb of None \<Rightarrow> taken | Some c \<Rightarrow> taken[c := True]) nbs t ! c \<longleftrightarrow>
      t ! c \<or> (\<exists>nb \<in> set nbs. colors ! nb = Some c))"
proof (induction nbs arbitrary: t)
  case (Cons nb nbs)
  let ?t = "case colors ! nb of None \<Rightarrow> t | Some c \<Rightarrow> t[c := True]"
  have "length ?t = n" "\<forall>c < n. ?t ! c \<longleftrightarrow> t ! c \<or> colors ! nb = Some c"
    using Cons.prems by (auto split: option.splits simp: nth_list_update)
  with Cons.IH [of ?t] Cons.prems show ?case by auto
qed simp

lemma lowest_free_le: "lowest_free bs \<le> length bs"
  by (induction bs) auto

lemma lowest_free_is_free: "lowest_free bs < length bs \<Longrightarrow> \<not> bs ! lowest_free bs"
  by (induction bs) auto

lemma lowest_free_full: "lowest_free bs = length bs \<Longrightarrow> c < length bs \<Longrightarrow> bs ! c"
  by (induction bs arbitrary: c) (auto simp: nth_Cons split: nat.splits if_splits)

text \<open>The state after the registers below \<open>k\<close> have their color.\<close>

definition colored :: "nat \<Rightarrow> bitset list \<Rightarrow> nat \<Rightarrow> nat \<Rightarrow> nat option list \<Rightarrow> bool" where
  "colored n adj p k cs =
     (length cs = n \<and> (\<forall>r < n. (cs ! r = None \<longleftrightarrow> k \<le> r) \<and> (\<forall>c. cs ! r = Some c \<longrightarrow> c < n)) \<and>
      (\<forall>r < n. r < p \<longrightarrow> cs ! r = Some r) \<and>
      (\<forall>a < n. \<forall>b. a < k \<and> b < k \<and> edge adj a b \<longrightarrow> cs ! a \<noteq> cs ! b))"

lemma coloredD:
  assumes "colored n adj p k cs"
  shows "length cs = n" "r < n \<Longrightarrow> cs ! r = None \<longleftrightarrow> k \<le> r" "r < n \<Longrightarrow> cs ! r = Some c \<Longrightarrow> c < n"
    "r < n \<Longrightarrow> r < p \<Longrightarrow> cs ! r = Some r" "a < n \<Longrightarrow> a < k \<Longrightarrow> b < k \<Longrightarrow> edge adj a b \<Longrightarrow> cs ! a \<noteq> cs ! b"
  using assms unfolding colored_def by blast+

lemma color_step_colored:
  assumes ok: "adj_ok n adj" and c: "colored n adj p k cs" and k: "k < n" "p \<le> k"
  shows "colored n adj p (Suc k) (color_step n adj k cs)"
proof -
  note A = adj_okD [OF ok] and C = coloredD [OF c]
  define nbs where "nbs = bs_iter (adj ! k)"
  define t where "t = taken_by n cs nbs"
  define c0 where "c0 = lowest_free t"
  have nb: "set nbs = {b. edge adj k b}" by (simp add: nbs_def iter_members edge_def)
  have nbn: "b < n" "b \<noteq> k" if "edge adj k b" for b using A(3,4) [OF k(1) that] by simp_all
  have t: "length t = n" "\<forall>c < n. t ! c \<longleftrightarrow> (\<exists>b. edge adj k b \<and> cs ! b = Some c)"
    using taken_by_spec [of nbs cs n "replicate n False"] C(3) nbn nb unfolding t_def taken_by_def by auto
  have "c0 \<noteq> n"
  proof
    assume "c0 = n"
    then have "\<forall>c < n. \<exists>b. edge adj k b \<and> cs ! b = Some c" using lowest_free_full [of t] t by (simp add: c0_def)
    then have "{..<n} \<subseteq> (\<lambda>b. the (cs ! b)) ` ({..<n} - {k})" using nbn by (force simp: image_iff)
    then have "card {..<n} \<le> card ((\<lambda>b. the (cs ! b)) ` ({..<n} - {k}))" by (intro card_mono) auto
    also have "\<dots> \<le> card ({..<n} - {k})" by (rule card_image_le) simp
    also have "\<dots> < card {..<n}" using k(1) by (intro psubset_card_mono) auto
    finally show False by simp
  qed
  then have c0: "c0 < n" using lowest_free_le [of t] t(1) by (simp add: c0_def)
  then have free: "\<not> (\<exists>b. edge adj k b \<and> cs ! b = Some c0)" using lowest_free_is_free [of t] t by (simp add: c0_def)
  have st: "color_step n adj k cs = cs[k := Some c0]" by (simp add: color_step_def c0_def t_def nbs_def)
  have at: "cs[k := Some c0] ! r = (if r = k then Some c0 else cs ! r)" for r using C(1) k(1) by simp
  have "cs[k := Some c0] ! a \<noteq> cs[k := Some c0] ! b" if a: "a < n" "a < Suc k" "b < Suc k" "edge adj a b" for a b
  proof -
    have ab: "edge adj b a" "a \<noteq> b" using A(4,5) [OF a(1,4)] by auto
    show ?thesis
    proof (cases "a = k \<or> b = k")
      case True
      then show ?thesis unfolding at using free a(4) ab by auto
    next
      case False
      then show ?thesis unfolding at using C(5) [OF a(1) _ _ a(4)] a(2,3) by simp
    qed
  qed
  moreover have "cs[k := Some c0] ! r = None \<longleftrightarrow> Suc k \<le> r" if "r < n" for r
    unfolding at using C(2) [OF that] by auto
  moreover have "c < n" if "r < n" "cs[k := Some c0] ! r = Some c" for r c
    using that C(3) [of r c] c0 unfolding at by (auto split: if_splits)
  moreover have "cs[k := Some c0] ! r = Some r" if "r < n" "r < p" for r
    unfolding at using C(4) [OF that] that(2) k(2) by simp
  moreover have "length (cs[k := Some c0]) = n" using C(1) by simp
  ultimately show ?thesis unfolding st colored_def by blast
qed

lemma init_colored:
  assumes "adj_ok n adj"
  shows "colored n adj p p (map (\<lambda>r. if r < p then Some r else None) [0..<n])"
proof -
  have "b < n \<and> b \<noteq> a" if "a < n" "edge adj a b" for a b using adj_okD(3,4) [OF assms that] by simp
  then show ?thesis unfolding colored_def by auto
qed

lemma color_graph_proper:
  assumes ok: "adj_ok n adj" and colors: "colors = color_graph adj n p"
  shows "length colors = n" and "r < n \<Longrightarrow> r < p \<Longrightarrow> colors ! r = r" and "r < n \<Longrightarrow> colors ! r < n"
    and "a < n \<Longrightarrow> edge adj a b \<Longrightarrow> colors ! a \<noteq> colors ! b"
proof -
  let ?init = "map (\<lambda>r. if r < p then Some r else None) [0..<n]"
  let ?fin = "fold (color_step n adj) [p..<n] ?init"
  have "colored n adj p k (fold (color_step n adj) [p..<k] ?init)" if "p \<le> k" "k \<le> n" for k
    using that
  proof (induction k)
    case 0
    then show ?case using init_colored [OF ok, of p] by simp
  next
    case (Suc k)
    show ?case
    proof (cases "p = Suc k")
      case True
      then show ?thesis using init_colored [OF ok, of p] by simp
    next
      case False
      with Suc color_step_colored [OF ok, of p k] show ?thesis by simp
    qed
  qed
  then have end': "colored n adj p (max p n) ?fin"
  proof (cases "p \<le> n")
    case False
    then show ?thesis using init_colored [OF ok, of p] by simp
  qed simp
  note C = coloredD [OF end']
  have at: "?fin ! r = Some (colors ! r)" if "r < n" for r
    using C(1,2) that unfolding colors color_graph_def by (simp add: nth_map)
  show "length colors = n" using C(1) by (simp add: colors color_graph_def)
  show "r < n \<Longrightarrow> r < p \<Longrightarrow> colors ! r = r" using at C(4) by fastforce
  show "r < n \<Longrightarrow> colors ! r < n" using at C(3) by blast
  show "a < n \<Longrightarrow> edge adj a b \<Longrightarrow> colors ! a \<noteq> colors ! b"
    using at C(5) [of a b] adj_okD(3) [OF ok, of a b] by fastforce
qed

section \<open>The coloring of a chunk\<close>

text \<open>Registers within the frame, and a frame whose size fits its sixteen bits.\<close>

definition chunk_ok :: "'m chunk \<Rightarrow> bool" where
  "chunk_ok ck =
     (regs_below (ck_num_registers ck) (ck_code ck) \<and> (\<forall>r \<in> set (pinned_regs ck). r < ck_num_registers ck) \<and>
      ck_num_registers ck < 2 ^ 16)"

definition good_coloring :: "'m chunk \<Rightarrow> nat list \<Rightarrow> bool" where
  "good_coloring ck colors =
     (length colors = ck_num_registers ck \<and>
      (\<forall>r < ck_num_registers ck. colors ! r < ck_num_registers ck \<and> (r < ck_num_params ck \<longrightarrow> colors ! r = r)) \<and>
      (\<forall>i < length (ck_code ck). \<forall>d \<in> set (op_defs (ck_code ck ! i)). \<forall>r.
         r \<noteq> d \<and> (live_after (ck_code ck) i r \<or> r \<in> set (of_uses (op_facts (ck_code ck ! i))) \<or> r \<in> set (op_defs (ck_code ck ! i)))
         \<longrightarrow> colors ! d \<noteq> colors ! r) \<and>
      (\<forall>r \<in> set (pinned_regs ck). \<forall>q < ck_num_registers ck. q \<noteq> r \<longrightarrow> colors ! q \<noteq> colors ! r))"

lemma good_coloringD:
  assumes "good_coloring ck colors"
  shows "length colors = ck_num_registers ck" "r < ck_num_registers ck \<Longrightarrow> colors ! r < ck_num_registers ck"
    "r < ck_num_registers ck \<Longrightarrow> r < ck_num_params ck \<Longrightarrow> colors ! r = r"
    "i < length (ck_code ck) \<Longrightarrow> d \<in> set (op_defs (ck_code ck ! i)) \<Longrightarrow> r \<noteq> d \<Longrightarrow>
       live_after (ck_code ck) i r \<or> r \<in> set (of_uses (op_facts (ck_code ck ! i))) \<or> r \<in> set (op_defs (ck_code ck ! i)) \<Longrightarrow>
       colors ! d \<noteq> colors ! r"
    "p \<in> set (pinned_regs ck) \<Longrightarrow> q < ck_num_registers ck \<Longrightarrow> q \<noteq> p \<Longrightarrow> colors ! q \<noteq> colors ! p"
  using assms unfolding good_coloring_def by blast+

lemma fold_pin:
  "\<lbrakk>adj_ok n adj; \<forall>r \<in> set rs. r < n\<rbrakk> \<Longrightarrow>
   adj_ok n (fold (pin n) rs adj) \<and> (\<forall>x < n. \<forall>y. edge adj x y \<longrightarrow> edge (fold (pin n) rs adj) x y) \<and>
   (\<forall>r \<in> set rs. \<forall>q < n. q \<noteq> r \<longrightarrow> edge (fold (pin n) rs adj) q r)"
proof (induction rs arbitrary: adj)
  case (Cons r rs)
  have r: "r < n" using Cons.prems(2) by simp
  note e = pin_edges [OF Cons.prems(1) r]
  have rs: "\<forall>r \<in> set rs. r < n" using Cons.prems(2) by simp
  note ih = Cons.IH [OF e(1) rs]
  have "edge (fold (pin n) rs (pin n r adj)) q r" if "q < n" "q \<noteq> r" for q
    using ih that e(2) [of q r] r by blast
  then show ?case using ih e(2) by auto
qed simp

lemma coalesce_coloring:
  assumes "chunk_ok ck"
  shows "\<exists>colors. coalesce_colors ck = Some colors \<and> good_coloring ck colors"
proof -
  let ?n = "ck_num_registers ck" let ?code = "ck_code ck"
  have b: "regs_below ?n ?code" and pins: "\<forall>r \<in> set (pinned_regs ck). r < ?n" using assms by (simp_all add: chunk_ok_def)
  from analyze_exact [OF b] obtain lin lout where a: "analyze ?code ?n = Some (lin, lout)"
    "\<forall>i < length ?code. members (lout ! i) = {r. live_after ?code i r}" by blast
  define g where "g = build_interference ?code lout ?n"
  define adj where "adj = fold (pin ?n) (pinned_regs ck) g"
  have g: "adj_ok ?n g" "covers ?n ?code {..<length ?code} g" using build_edges [OF b a(2)] by (simp_all add: g_def)
  note p = fold_pin [OF g(1) pins, folded adj_def]
  define colors where "colors = color_graph adj ?n (ck_num_params ck)"
  note c = color_graph_proper [OF conjunct1 [OF p] colors_def]
  have "colors ! d \<noteq> colors ! r"
    if i: "i < length ?code" and d: "d \<in> set (op_defs (?code ! i))" and r: "r \<noteq> d"
      "live_after ?code i r \<or> r \<in> set (of_uses (op_facts (?code ! i))) \<or> r \<in> set (op_defs (?code ! i))" for i d r
  proof -
    have "d < ?n" "r < ?n" using regs_belowD(1,2) [OF b i] live_after_below [OF b, of i r] d r(2) by blast+
    moreover have "edge adj d r" using g(2) p i d r \<open>r < ?n\<close> \<open>d < ?n\<close> unfolding covers_def by blast
    ultimately show ?thesis using c(4) by blast
  qed
  moreover have "colors ! q \<noteq> colors ! r" if "r \<in> set (pinned_regs ck)" "q < ?n" "q \<noteq> r" for q r
    using p c(4) that by blast
  ultimately have "good_coloring ck colors" unfolding good_coloring_def using c(1-3) by blast
  then show ?thesis by (auto simp: coalesce_colors_def Let_def a(1) colors_def adj_def g_def)
qed

end
