(* ===== verification/Regalloc_Sim.thy ===== *)
theory Regalloc_Sim
  imports Regalloc_Coloring
begin

text \<open>
  Coalescing registers does not change what a chunk does. One activation is run on a register file; what
  an instruction does with the values it reads is a parameter, so the result holds for every semantics
  of the instructions that goes through the registers \<open>op_facts\<close> reports.
\<close>

section \<open>Running a chunk\<close>

text \<open>
  What an instruction does with the values it has read: stop, go on with the next instruction, or take
  one of its jumps. It may overwrite the registers it has read (a consumed operand is cleared), it writes
  its definitions when it goes on, and may leave them when it jumps. \<open>'s\<close> is everything outside the
  register file: heap, globals, output.
\<close>

datatype ('v, 's) effect =
    Stop "'v option list" 's
  | Next "'v option list" 'v 'v 's
  | Branch nat "'v option list" "'v option" "'v option" 's

type_synonym ('v, 's, 'm) action = "(unit, unit, 'm) op \<Rightarrow> 'v list \<Rightarrow> 's \<Rightarrow> ('v, 's) effect"

text \<open>A stopped activation shows the values its panic teardown would see.\<close>

datatype ('v, 's) activation = Running nat "nat \<Rightarrow> 'v" 's | Stopped "'v list" 's

definition erase :: "('r, 'j, 'm) op \<Rightarrow> (unit, unit, 'm) op" where
  "erase i = map_op (\<lambda>_. ()) (\<lambda>_. ()) i"

fun write_back :: "nat list \<Rightarrow> 'v option list \<Rightarrow> (nat \<Rightarrow> 'v) \<Rightarrow> (nat \<Rightarrow> 'v)" where
  "write_back (r # rs) (Some v # vs) regs = write_back rs vs (regs(r := v))"
| "write_back (r # rs) (None # vs) regs = write_back rs vs regs"
| "write_back _ _ regs = regs"

definition apply_effect ::
  "nat list \<Rightarrow> nat list \<Rightarrow> nat list \<Rightarrow> bool \<Rightarrow> nat list \<Rightarrow> nat \<Rightarrow> (nat \<Rightarrow> 'v) \<Rightarrow> ('v, 's) effect \<Rightarrow> ('v, 's) activation" where
  "apply_effect uses defs targets fall locals pc regs e =
     (case e of
        Stop used s \<Rightarrow> Stopped (map (write_back uses used regs) locals) s
      | Next used v w s \<Rightarrow>
          let regs' = write_back defs [Some v, Some w] (write_back uses used regs) in
          if fall then Running (Suc pc) regs' s else Stopped (map regs' locals) s
      | Branch k used v w s \<Rightarrow>
          let regs' = write_back defs [v, w] (write_back uses used regs) in
          if k < length targets then Running (targets ! k) regs' s else Stopped (map regs' locals) s)"

definition exec_op :: "('v, 's, 'm) action \<Rightarrow> nat list \<Rightarrow> (nat, nat, 'm) op \<Rightarrow> nat \<Rightarrow> (nat \<Rightarrow> 'v) \<Rightarrow> 's \<Rightarrow> ('v, 's) activation" where
  "exec_op act locals i pc regs s =
     (let f = op_facts i in
      apply_effect (of_uses f) (op_defs i) (of_targets f) (of_fallthrough f) locals pc regs
        (act (erase i) (map regs (of_uses f)) s))"

fun step :: "('v, 's, 'm) action \<Rightarrow> nat list \<Rightarrow> (nat, nat, 'm) op list \<Rightarrow> ('v, 's) activation \<Rightarrow> ('v, 's) activation" where
  "step act locals code (Running pc regs s) =
     (if pc < length code then exec_op act locals (code ! pc) pc regs s else Stopped (map regs locals) s)"
| "step act locals code (Stopped vs s) = Stopped vs s"

definition run_chunk :: "('v, 's, 'm) action \<Rightarrow> nat \<Rightarrow> 'm chunk \<Rightarrow> 'v list \<Rightarrow> 'v \<Rightarrow> 's \<Rightarrow> ('v, 's) activation" where
  "run_chunk act k ck args unit s =
     (step act (retain_first (ck_frame_locals ck) {}) (ck_code ck) ^^ k)
       (Running 0 (\<lambda>r. if r < ck_num_params ck then args ! r else unit) s)"

text \<open>All that can be seen of an activation: where it is, its effects, and what its teardown sees.\<close>

fun observe :: "('v, 's) activation \<Rightarrow> nat option \<times> 'v list \<times> 's" where
  "observe (Running pc regs s) = (Some pc, [], s)"
| "observe (Stopped vs s) = (None, vs, s)"

section \<open>Register files that agree\<close>

lemma erase_remap: "erase (remap_with m i) = erase i"
  by (simp add: erase_def remap_is_map op.map_comp o_def id_def)

definition written :: "nat list \<Rightarrow> 'v option list \<Rightarrow> nat set" where
  "written rs vs = {r. \<exists>v. (r, Some v) \<in> set (zip rs vs)}"

lemma write_back_agree:
  assumes "\<forall>u \<in> set rs. \<forall>r \<in> R. r \<noteq> u \<longrightarrow> c r \<noteq> c u" and "\<forall>r \<in> R. r \<notin> written rs vs \<longrightarrow> regs r = regs' (c r)"
  shows "\<forall>r \<in> R. write_back rs vs regs r = write_back (map c rs) vs regs' (c r)"
  using assms
proof (induction rs vs regs arbitrary: regs' rule: write_back.induct)
  case (1 u rs v vs regs)
  have "\<forall>r \<in> R. r \<notin> written rs vs \<longrightarrow> (regs(u := v)) r = (regs'(c u := v)) (c r)"
    using 1(2,3) by (auto simp: written_def)
  moreover have "\<forall>u \<in> set rs. \<forall>r \<in> R. r \<noteq> u \<longrightarrow> c r \<noteq> c u" using 1(2) by simp
  ultimately show ?case using 1(1) [of "regs'(c u := v)"] by (simp only: write_back.simps list.map)
qed (simp_all add: written_def)

section \<open>The simulation\<close>

text \<open>What the compiler guarantees of a chunk: nothing but parameters (and pinned locals, which start as
  unit in either numbering) is read before it is written, and a jump that skips the write of a
  definition goes where that definition is dead.\<close>

definition entry_defined :: "'m chunk \<Rightarrow> bool" where
  "entry_defined ck = (\<forall>r. live_before (ck_code ck) 0 r \<longrightarrow> r < ck_num_params ck \<or> r \<in> set (pinned_regs ck))"

definition branches_clean :: "(nat, nat, 'm) op list \<Rightarrow> bool" where
  "branches_clean code =
     (\<forall>i < length code. \<forall>t \<in> set (of_targets (op_facts (code ! i))). \<forall>d \<in> set (op_defs (code ! i)). \<not> live_before code t d)"

definition agree :: "'m chunk \<Rightarrow> nat list \<Rightarrow> nat \<Rightarrow> (nat \<Rightarrow> 'v) \<Rightarrow> (nat \<Rightarrow> 'v) \<Rightarrow> bool" where
  "agree ck colors pc regs regs' =
     ((\<forall>r. live_before (ck_code ck) pc r \<or> r \<in> set (pinned_regs ck) \<longrightarrow> regs r = regs' (colors ! r)) \<and>
      (\<forall>r q. live_before (ck_code ck) pc r \<and> live_before (ck_code ck) pc q \<and> r \<noteq> q \<longrightarrow> colors ! r \<noteq> colors ! q))"

lemma agreeD:
  assumes "agree ck colors pc regs regs'"
  shows "live_before (ck_code ck) pc r \<Longrightarrow> regs r = regs' (colors ! r)" "r \<in> set (pinned_regs ck) \<Longrightarrow> regs r = regs' (colors ! r)"
    "live_before (ck_code ck) pc r \<Longrightarrow> live_before (ck_code ck) pc q \<Longrightarrow> r \<noteq> q \<Longrightarrow> colors ! r \<noteq> colors ! q"
  using assms unfolding agree_def by blast+

fun matches :: "'m chunk \<Rightarrow> nat list \<Rightarrow> ('v, 's) activation \<Rightarrow> ('v, 's) activation \<Rightarrow> bool" where
  "matches ck colors (Running pc regs s) (Running pc' regs' s') = (pc = pc' \<and> s = s' \<and> agree ck colors pc regs regs')"
| "matches ck colors (Stopped vs s) (Stopped vs' s') = (vs = vs' \<and> s = s')"
| "matches ck colors _ _ = False"

text \<open>After the operands: every register that was live, and every pinned one, still agrees.\<close>

lemma operands_agree:
  assumes ok: "chunk_ok ck" "good_coloring ck colors" and ag: "agree ck colors pc regs regs'" and pc: "pc < length (ck_code ck)"
    and us: "us = of_uses (op_facts (ck_code ck ! pc))" and r: "live_before (ck_code ck) pc r \<or> r \<in> set (pinned_regs ck)"
  shows "write_back us vs regs r = write_back (map ((!) colors) us) vs regs' (colors ! r)"
proof -
  let ?R = "{r. live_before (ck_code ck) pc r \<or> r \<in> set (pinned_regs ck)}"
  note C = good_coloringD [OF ok(2)]
  have b: "regs_below (ck_num_registers ck) (ck_code ck)" using ok(1) by (simp add: chunk_ok_def)
  have u: "live_before (ck_code ck) pc u" "u < ck_num_registers ck" if "u \<in> set us" for u
    using that us live_before.read [OF pc] regs_belowD(1) [OF b pc] by simp_all
  have "\<forall>u \<in> set us. \<forall>r \<in> ?R. r \<noteq> u \<longrightarrow> colors ! r \<noteq> colors ! u"
    using u agreeD(3) [OF ag] C(5) by (metis (mono_tags) mem_Collect_eq)
  moreover have "\<forall>r \<in> ?R. r \<notin> written us vs \<longrightarrow> regs r = regs' (colors ! r)" using agreeD(1,2) [OF ag] by blast
  ultimately show ?thesis using write_back_agree [of us ?R "(!) colors" vs regs regs'] r by blast
qed

text \<open>After the definitions, at a successor.\<close>

lemma definitions_agree:
  assumes ok: "chunk_ok ck" "good_coloring ck colors" and ag: "agree ck colors pc regs regs'" and pc: "pc < length (ck_code ck)"
    and us: "us = of_uses (op_facts (ck_code ck ! pc))" and ds: "ds = op_defs (ck_code ck ! pc)"
    and pc': "pc' \<in> succs (ck_code ck) pc \<or> pc' \<ge> length (ck_code ck)"
    and skip: "\<forall>d \<in> set ds. live_before (ck_code ck) pc' d \<longrightarrow> d \<in> written ds ws"
  shows "agree ck colors pc' (write_back ds ws (write_back us vs regs))
    (write_back (map ((!) colors) ds) ws (write_back (map ((!) colors) us) vs regs'))"
proof -
  let ?R = "{r. live_before (ck_code ck) pc' r \<or> r \<in> set (pinned_regs ck)}"
  note C = good_coloringD [OF ok(2)]
  have b: "regs_below (ck_num_registers ck) (ck_code ck)" using ok(1) by (simp add: chunk_ok_def)
  have after: "live_after (ck_code ck) pc r" if "live_before (ck_code ck) pc' r" for r
  proof -
    have "pc' < length (ck_code ck)" using that by (auto elim: live_before.cases)
    then show ?thesis using that pc' by (auto simp: live_after_def)
  qed
  have before: "live_before (ck_code ck) pc r" if "live_before (ck_code ck) pc' r" "r \<notin> set ds" for r
    using after [OF that(1)] that(2) live_before.pass [OF pc] ds by (auto simp: live_after_def)
  have sep: "colors ! r \<noteq> colors ! d" if "d \<in> set ds" "r \<in> ?R" "r \<noteq> d" for d r
    using that C(4) [OF pc, of d r] C(5) [of r d] after [of r] regs_belowD(2) [OF b pc, of d] ds by (metis mem_Collect_eq)
  have "\<forall>r \<in> ?R. r \<notin> written ds ws \<longrightarrow> write_back us vs regs r = write_back (map ((!) colors) us) vs regs' (colors ! r)"
  proof (intro ballI impI)
    fix r assume r: "r \<in> ?R" "r \<notin> written ds ws"
    then have "live_before (ck_code ck) pc r \<or> r \<in> set (pinned_regs ck)" using before skip by blast
    then show "write_back us vs regs r = write_back (map ((!) colors) us) vs regs' (colors ! r)"
      by (rule operands_agree [OF ok ag pc us])
  qed
  with write_back_agree [of ds ?R "(!) colors" ws "write_back us vs regs" "write_back (map ((!) colors) us) vs regs'"] sep
  have "\<forall>r \<in> ?R. write_back ds ws (write_back us vs regs) r =
      write_back (map ((!) colors) ds) ws (write_back (map ((!) colors) us) vs regs') (colors ! r)" by blast
  moreover have "colors ! r \<noteq> colors ! q" if "live_before (ck_code ck) pc' r" "live_before (ck_code ck) pc' q" "r \<noteq> q" for r q
    using that before sep [of r q] sep [of q r] agreeD(3) [OF ag, of r q] by (cases "r \<in> set ds"; cases "q \<in> set ds") auto
  ultimately show ?thesis unfolding agree_def by blast
qed

lemma recolor_small: "chunk_ok ck \<Longrightarrow> good_coloring ck colors \<Longrightarrow> r < ck_num_registers ck \<Longrightarrow> recolor colors r = colors ! r"
  using good_coloringD(2) [of ck colors r] by (simp add: recolor_def chunk_ok_def)

text \<open>The facts of a rewritten instruction.\<close>

lemma remapped_facts:
  assumes ok: "chunk_ok ck" "good_coloring ck colors" and i: "i \<in> set (ck_code ck)"
  shows "of_uses (op_facts (remap_op colors i)) = map ((!) colors) (of_uses (op_facts i))"
    "op_defs (remap_op colors i) = map ((!) colors) (op_defs i)"
    "of_targets (op_facts (remap_op colors i)) = of_targets (op_facts i)"
    "of_fallthrough (op_facts (remap_op colors i)) = of_fallthrough (op_facts i)" "erase (remap_op colors i) = erase i"
proof -
  have b: "r < ck_num_registers ck" if "r \<in> set1_op i" for r
    using ok(1) i that unfolding chunk_ok_def regs_below_def by blast
  have s: "set (of_uses (op_facts i)) \<subseteq> set1_op i" "set (op_defs i) \<subseteq> set1_op i"
    by (auto simp: op_regs op_facts_def op_defs_def)
  show "of_uses (op_facts (remap_op colors i)) = map ((!) colors) (of_uses (op_facts i))"
    "op_defs (remap_op colors i) = map ((!) colors) (op_defs i)"
    unfolding remap_op_def op_facts_remap using recolor_small [OF ok] b s by (auto intro!: map_cong)
  show "of_targets (op_facts (remap_op colors i)) = of_targets (op_facts i)"
    "of_fallthrough (op_facts (remap_op colors i)) = of_fallthrough (op_facts i)" "erase (remap_op colors i) = erase i"
    by (simp_all add: remap_op_def op_facts_remap erase_remap)
qed

lemma written_all: "length ds \<le> 2 \<Longrightarrow> set ds \<subseteq> written ds [Some v, Some w]"
proof
  fix d assume l: "length ds \<le> 2" and d: "d \<in> set ds"
  then have "ds = [] \<or> (\<exists>a. ds = [a]) \<or> (\<exists>a b. ds = [a, b])" by (cases ds; cases "tl ds") auto
  with d show "d \<in> written ds [Some v, Some w]" by (auto simp: written_def)
qed

lemma op_defs_short: "length (op_defs i) \<le> 2"
  by (simp add: op_defs_def opt_regs_def split: option.splits)

lemma effect_matches:
  assumes ok: "chunk_ok ck" "good_coloring ck colors" and br: "branches_clean (ck_code ck)"
    and loc: "set locals \<subseteq> set (pinned_regs ck)" and ag: "agree ck colors pc regs regs'" and pc: "pc < length (ck_code ck)"
    and f: "f = op_facts (ck_code ck ! pc)" and ds: "ds = op_defs (ck_code ck ! pc)"
  shows "matches ck colors (apply_effect (of_uses f) ds (of_targets f) (of_fallthrough f) locals pc regs e)
    (apply_effect (map ((!) colors) (of_uses f)) (map ((!) colors) ds) (of_targets f) (of_fallthrough f) (map ((!) colors) locals) pc regs' e)"
proof -
  let ?code = "ck_code ck" let ?c = "(!) colors" let ?us = "of_uses f"
  have us: "?us = of_uses (op_facts (?code ! pc))" by (simp add: f)
  note D = definitions_agree [OF ok ag pc us ds]
  have pinned: "write_back ds ws (write_back ?us vs regs) r = write_back (map ?c ds) ws (write_back (map ?c ?us) vs regs') (colors ! r)"
    if "r \<in> set locals" for r ws vs
  proof -
    have "\<not> live_before ?code (length ?code) d" for d
    proof
      assume "live_before ?code (length ?code) d"
      then show False by cases simp_all
    qed
    then have "agree ck colors (length ?code) (write_back ds ws (write_back ?us vs regs))
        (write_back (map ?c ds) ws (write_back (map ?c ?us) vs regs'))" by (intro D) simp_all
    from agreeD(2) [OF this] that loc show ?thesis by blast
  qed
  show ?thesis
  proof (cases e)
    case (Stop used s)
    have "write_back ?us used regs r = write_back (map ?c ?us) used regs' (colors ! r)" if "r \<in> set locals" for r
      using operands_agree [OF ok ag pc us] that loc by blast
    then show ?thesis unfolding Stop apply_effect_def by simp
  next
    case (Next used v w s)
    have "agree ck colors (Suc pc) (write_back ds [Some v, Some w] (write_back ?us used regs))
        (write_back (map ?c ds) [Some v, Some w] (write_back (map ?c ?us) used regs'))" if "of_fallthrough f"
      using written_all [OF op_defs_short, of "?code ! pc" v w] that pc
      by (intro D) (auto simp: succs_def f ds)
    then show ?thesis unfolding Next apply_effect_def using pinned by (simp add: Let_def)
  next
    case (Branch k used v w s)
    have "agree ck colors (of_targets f ! k) (write_back ds [v, w] (write_back ?us used regs))
        (write_back (map ?c ds) [v, w] (write_back (map ?c ?us) used regs'))" if k: "k < length (of_targets f)"
    proof (rule D)
      have t: "of_targets f ! k \<in> set (of_targets f)" using k by simp
      then show "of_targets f ! k \<in> succs ?code pc \<or> of_targets f ! k \<ge> length ?code" by (auto simp: succs_def f)
      show "\<forall>d \<in> set ds. live_before ?code (of_targets f ! k) d \<longrightarrow> d \<in> written ds [v, w]"
        using br pc t unfolding branches_clean_def f ds by blast
    qed
    then show ?thesis unfolding Branch apply_effect_def using pinned by (simp add: Let_def)
  qed
qed

lemma step_matches:
  assumes ok: "chunk_ok ck" "good_coloring ck colors" and br: "branches_clean (ck_code ck)"
    and loc: "set locals \<subseteq> set (pinned_regs ck)" and m: "matches ck colors a a'"
  shows "matches ck colors (step act locals (ck_code ck) a)
    (step act (map ((!) colors) locals) (map (remap_op colors) (ck_code ck)) a')"
proof (cases a)
  case (Stopped vs s)
  with m show ?thesis by (cases a') simp_all
next
  case (Running pc regs s)
  with m obtain regs' where a': "a' = Running pc regs' s" and ag: "agree ck colors pc regs regs'" by (cases a') auto
  let ?code = "ck_code ck"
  show ?thesis
  proof (cases "pc < length ?code")
    case False
    then show ?thesis using Running a' agreeD(2) [OF ag] loc by auto
  next
    case pc: True
    note F = remapped_facts [OF ok nth_mem [OF pc]]
    let ?f = "op_facts (?code ! pc)" let ?e = "act (erase (?code ! pc)) (map regs (of_uses ?f)) s"
    have vals: "map regs' (map ((!) colors) (of_uses ?f)) = map regs (of_uses ?f)"
      using agreeD(1) [OF ag] live_before.read [OF pc] by auto
    have "step act locals ?code a = apply_effect (of_uses ?f) (op_defs (?code ! pc)) (of_targets ?f) (of_fallthrough ?f) locals pc regs ?e"
      unfolding Running using pc by (simp add: exec_op_def Let_def)
    moreover have "step act (map ((!) colors) locals) (map (remap_op colors) ?code) a' =
        apply_effect (map ((!) colors) (of_uses ?f)) (map ((!) colors) (op_defs (?code ! pc))) (of_targets ?f) (of_fallthrough ?f)
          (map ((!) colors) locals) pc regs' ?e"
      unfolding a' using pc vals by (simp add: exec_op_def Let_def F del: map_map)
    ultimately show ?thesis using effect_matches [OF ok br loc ag pc refl refl] by simp
  qed
qed

section \<open>Whole chunks\<close>

lemma retain_first_set: "set (retain_first xs seen) = set xs - seen"
  by (induction xs seen rule: retain_first.induct) auto

lemma retain_first_map:
  "inj_on c (set xs \<union> seen) \<Longrightarrow> retain_first (map c xs) (c ` seen) = map c (retain_first xs seen)"
proof (induction xs seen rule: retain_first.induct)
  case (2 x xs seen)
  have "c x \<in> c ` seen \<longleftrightarrow> x \<in> seen" using 2(3) by (auto dest: inj_onD)
  moreover have "c ` insert x seen = insert (c x) (c ` seen)" by simp
  moreover have "inj_on c (set xs \<union> seen)" "inj_on c (set xs \<union> insert x seen)" using 2(3) by (auto intro: inj_on_subset)
  ultimately show ?case using 2(1,2) by simp
qed simp

lemma retain_first_idem: "distinct xs \<Longrightarrow> set xs \<inter> seen = {} \<Longrightarrow> retain_first xs seen = xs"
  by (induction xs seen rule: retain_first.induct) auto

lemma retain_first_distinct: "distinct (retain_first xs seen)"
  by (induction xs seen rule: retain_first.induct) (auto simp: retain_first_set)

lemma coalesce_runs:
  assumes ok: "chunk_ok ck" "good_coloring ck colors" and br: "branches_clean (ck_code ck)" and en: "entry_defined ck"
  shows "matches ck colors (run_chunk act k ck args u s) (run_chunk act k (apply_colors colors ck) args u s)"
proof -
  let ?code = "ck_code ck" let ?L = "retain_first (ck_frame_locals ck) {}" let ?c = "(!) colors"
  note C = good_coloringD [OF ok(2)]
  have b: "regs_below (ck_num_registers ck) ?code" and pins: "\<forall>r \<in> set (pinned_regs ck). r < ck_num_registers ck"
    using ok(1) by (simp_all add: chunk_ok_def)
  have fl: "set (ck_frame_locals ck) \<subseteq> set (pinned_regs ck)" by (simp add: pinned_regs_def)
  have inj: "inj_on ?c (set (pinned_regs ck))" using C(5) pins by (auto simp: inj_on_def)
  have "map (recolor colors) (ck_frame_locals ck) = map ?c (ck_frame_locals ck)"
    using recolor_small [OF ok] pins fl by (auto intro!: map_cong)
  moreover have "retain_first (map ?c (ck_frame_locals ck)) {} = map ?c ?L"
    using retain_first_map [of ?c "ck_frame_locals ck" "{}"] inj_on_subset [OF inj fl] by simp
  moreover have "ck_frame_locals (apply_colors colors ck) = retain_first (map (recolor colors) (ck_frame_locals ck)) {}"
    by (simp add: apply_colors_def)
  ultimately have "ck_frame_locals (apply_colors colors ck) = map ?c ?L" by (simp only:)
  moreover have "distinct (map ?c ?L)"
    using retain_first_distinct [of "ck_frame_locals ck" "{}"] inj_on_subset [OF inj fl]
    by (simp add: distinct_map retain_first_set)
  ultimately have L: "retain_first (ck_frame_locals (apply_colors colors ck)) {} = map ?c ?L"
    using retain_first_idem [of "map ?c ?L" "{}"] by (simp only: Int_empty_right)
  let ?r0 = "\<lambda>r. if r < ck_num_params ck then args ! r else u"
  have lt: "r < ck_num_registers ck" if "live_before ?code 0 r" for r
    using that by (induction rule: live_before.induct) (use regs_belowD(1) [OF b] in blast)+
  have start: "?r0 r = ?r0 (colors ! r)" if r: "r < ck_num_registers ck" "r < ck_num_params ck \<or> r \<in> set (pinned_regs ck)" for r
  proof (cases "r < ck_num_params ck")
    case True
    then show ?thesis using C(3) r(1) by simp
  next
    case False
    have "\<not> colors ! r < ck_num_params ck"
    proof
      assume p: "colors ! r < ck_num_params ck"
      have n: "colors ! r < ck_num_registers ck" using C(2) r(1) .
      have "colors ! (colors ! r) = colors ! r" using C(3) [OF n p] .
      moreover have "colors ! r \<noteq> r" using p False by auto
      ultimately show False using C(5) [of r "colors ! r"] n r(2) False by auto
    qed
    with False show ?thesis by simp
  qed
  have "agree ck colors 0 ?r0 ?r0"
    unfolding agree_def
  proof (intro conjI allI impI)
    fix r assume "live_before ?code 0 r \<or> r \<in> set (pinned_regs ck)"
    then show "?r0 r = ?r0 (colors ! r)" using start lt pins en unfolding entry_defined_def by blast
  next
    fix r q assume rq: "live_before ?code 0 r \<and> live_before ?code 0 q \<and> r \<noteq> q"
    then have "r < ck_num_registers ck" "q < ck_num_registers ck" using lt by auto
    moreover have "r < ck_num_params ck \<or> r \<in> set (pinned_regs ck)" "q < ck_num_params ck \<or> q \<in> set (pinned_regs ck)"
      using rq en unfolding entry_defined_def by blast+
    ultimately show "colors ! r \<noteq> colors ! q" using rq C(3) C(5) by metis
  qed
  then have "matches ck colors (Running 0 ?r0 s) (Running 0 ?r0 s)" by simp
  then have "matches ck colors ((step act ?L ?code ^^ k) (Running 0 ?r0 s))
      ((step act (map ?c ?L) (map (remap_op colors) ?code) ^^ k) (Running 0 ?r0 s))"
  proof (induction k)
    case (Suc k)
    have "set ?L \<subseteq> set (pinned_regs ck)" using fl by (auto simp: retain_first_set)
    from step_matches [OF ok br this Suc.IH [OF Suc.prems]] show ?case by simp
  qed simp
  then show ?thesis unfolding run_chunk_def L by (simp add: apply_colors_def)
qed

lemma matches_observe: "matches ck colors a a' \<Longrightarrow> observe a = observe a'"
  by (cases a; cases a') simp_all


section \<open>The frame\<close>

lemma color_below_count:
  assumes "good_coloring ck colors" and "r < ck_num_registers ck"
  shows "colors ! r < new_count colors" and "new_count colors \<le> ck_num_registers ck"
proof -
  note C = good_coloringD [OF assms(1)]
  have m: "colors ! r \<in> set colors" using C(1) assms(2) by simp
  then show "colors ! r < new_count colors" by (auto simp: new_count_def less_Suc_eq_le)
  have "c < ck_num_registers ck" if "c \<in> set colors" for c
    using that C(1,2) by (metis in_set_conv_nth)
  with m show "new_count colors \<le> ck_num_registers ck" by (auto simp: new_count_def Suc_le_eq)
qed

lemma coalesced_ok:
  assumes ok: "chunk_ok ck" "good_coloring ck colors" and n: "0 < ck_num_registers ck"
  shows "chunk_ok (apply_colors colors ck)" and "ck_num_registers (apply_colors colors ck) = new_count colors"
proof -
  have small: "new_count colors < 2 ^ 16" using color_below_count(2) [OF ok(2) n] ok(1) by (simp add: chunk_ok_def)
  then show size: "ck_num_registers (apply_colors colors ck) = new_count colors" by (simp add: apply_colors_def)
  have below: "recolor colors r < new_count colors" if "r < ck_num_registers ck" for r
    using recolor_small [OF ok that] color_below_count(1) [OF ok(2) that] by simp
  have "regs_below (new_count colors) (ck_code (apply_colors colors ck))"
    using ok(1) below by (auto simp: regs_below_def apply_colors_def chunk_ok_def remap_op_def remap_is_map op.set_map)
  moreover have "set (pinned_regs (apply_colors colors ck)) = recolor colors ` set (pinned_regs ck)"
    by (auto simp: pinned_regs_def apply_colors_def retain_first_set image_Un image_image)
  ultimately show "chunk_ok (apply_colors colors ck)"
    unfolding chunk_ok_def size using small below ok(1) by (auto simp: chunk_ok_def)
qed


end
