(* ===== verification/Regalloc_Passes.thy ===== *)
theory Regalloc_Passes
  imports Regalloc_Sim
begin

text \<open>
  The two passes around coalescing: loads of primitive constants are hoisted in front of their loop, and
  a stale copy of a global is dropped before the global is moved out of its slot.
\<close>

section \<open>Hoisting constant loads\<close>

fun is_primitive_const :: "const \<Rightarrow> bool" where
  "is_primitive_const CUnit = True"
| "is_primitive_const (CBool b) = True"
| "is_primitive_const (CInt i) = True"
| "is_primitive_const (CFloat f) = True"
| "is_primitive_const (CF32 f) = True"
| "is_primitive_const c = False"

fun back_jump :: "(nat, nat, 'm) op \<Rightarrow> nat \<Rightarrow> (nat \<times> nat) list" where
  "back_jump (FlowOp (Jump target)) j = (if target \<le> j then [(target, j)] else [])"
| "back_jump i j = []"

definition loop_regions :: "(nat, nat, 'm) op list \<Rightarrow> (nat \<times> nat) list" where
  "loop_regions code = concat (map (\<lambda>j. back_jump (code ! j) j) [0..<length code])"

fun is_arith :: "(nat, nat, 'm) op \<Rightarrow> bool" where
  "is_arith (FlowOp (Binary opr dst a b span)) = True"
| "is_arith (FlowOp (WideInt opr dst a b sgnd bits span)) = True"
| "is_arith i = False"

definition def_count :: "(nat, nat, 'm) op list \<Rightarrow> nat \<Rightarrow> nat" where
  "def_count code d = length (filter (\<lambda>i. of_def (op_facts i) = Some d) code)"

definition nonarith_use :: "(nat, nat, 'm) op list \<Rightarrow> nat \<Rightarrow> bool" where
  "nonarith_use code d = list_ex (\<lambda>i. \<not> is_arith i \<and> d \<in> set (of_uses (op_facts i))) code"

definition is_target :: "(nat, nat, 'm) op list \<Rightarrow> nat \<Rightarrow> bool" where
  "is_target code p = list_ex (\<lambda>i. p \<in> set (of_targets (op_facts i))) code"

fun const_load :: "(nat, nat, 'm) op \<Rightarrow> (nat \<times> nat) option" where
  "const_load (MoveOp (LoadConst dst k)) = Some (dst, k)"
| "const_load i = None"

text \<open>The top of the innermost loop a load can be hoisted out of.\<close>

definition hoist_top :: "'m chunk \<Rightarrow> nat \<Rightarrow> nat option" where
  "hoist_top ck p =
     (let code = ck_code ck in
      if is_target code p then None
      else case const_load (code ! p) of
        None \<Rightarrow> None
      | Some (dst, k) \<Rightarrow>
          if \<not> is_primitive_const (ck_consts ck ! k) then None
          else if def_count code dst \<noteq> 1 \<or> nonarith_use code dst then None
          else
            let tops = map fst (filter (\<lambda>(start, stop). start < p \<and> p \<le> stop) (loop_regions code)) in
            if tops = [] then None else Some (fold max tops 0))"

definition hoist_at :: "'m chunk \<Rightarrow> nat \<Rightarrow> nat list" where
  "hoist_at ck start = filter (\<lambda>p. hoist_top ck p = Some start) [0..<length (ck_code ck)]"

definition hoisted :: "'m chunk \<Rightarrow> nat \<Rightarrow> bool" where
  "hoisted ck p = (hoist_top ck p \<noteq> None)"

text \<open>The old indices in the order the code is emitted again.\<close>

definition hoist_order :: "'m chunk \<Rightarrow> nat list" where
  "hoist_order ck =
     concat (map (\<lambda>p. hoist_at ck p @ (if hoisted ck p then [] else [p])) [0..<length (ck_code ck)])"

definition index_map :: "nat \<Rightarrow> nat list \<Rightarrow> nat list" where
  "index_map n order = fold (\<lambda>new remap. remap[order ! new := new]) [0..<length order] (replicate n 0)"

fun next_kept :: "'m chunk \<Rightarrow> nat \<Rightarrow> nat \<Rightarrow> nat" where
  "next_kept ck 0 p = p"
| "next_kept ck (Suc d) p = (if p < length (ck_code ck) \<and> hoisted ck p then next_kept ck d (Suc p) else p)"

definition hoist_loop_invariant_consts :: "'m chunk \<Rightarrow> 'm chunk" where
  "hoist_loop_invariant_consts ck =
     (let code = ck_code ck; n = length code in
      if loop_regions code = [] \<or> \<not> list_ex (hoisted ck) [0..<n] then ck
      else
        let order = hoist_order ck;
            remap = index_map n order;
            code' = map (\<lambda>p. for_each_jump_pc_mut (\<lambda>t. remap ! t) (code ! p)) order in
        ck\<lparr>ck_code := code',
           ck_line_table := map (\<lambda>e. let p = next_kept ck n (le_pc e) in
             e\<lparr>le_pc := if p < n then remap ! p else length code'\<rparr>) (ck_line_table ck)\<rparr>)"

section \<open>Dropping stale reads of globals\<close>

definition block_start :: "(nat, nat, 'm) op list \<Rightarrow> nat \<Rightarrow> bool" where
  "block_start code i =
     (i = 0 \<or> is_target code i \<or> \<not> of_fallthrough (op_facts (code ! (i - 1))))"

fun global_write :: "(nat, nat, 'm) op \<Rightarrow> global_id \<Rightarrow> bool" where
  "global_write (MoveOp (StoreGlobal g src)) global = (g = global)"
| "global_write (MoveOp (TakeGlobal dst g span)) global = (g = global)"
| "global_write i global = False"

fun global_read :: "(nat, nat, 'm) op \<Rightarrow> global_id \<Rightarrow> nat option" where
  "global_read (MoveOp (LoadGlobal dst g span)) global = (if g = global then Some dst else None)"
| "global_read i global = None"

text \<open>The backward scan from a \<open>TakeGlobal\<close> into \<open>dst\<close>: \<open>i\<close> is the instruction last looked at, \<open>redefined\<close>
  the registers written since. The result lists the registers to drop, in the order they are found.\<close>

fun stale_scan :: "(nat, nat, 'm) op list \<Rightarrow> (nat \<Rightarrow> bool) \<Rightarrow> global_id \<Rightarrow> nat \<Rightarrow> nat \<Rightarrow> nat set \<Rightarrow> nat list" where
  "stale_scan code keep global dst 0 redefined = []"
| "stale_scan code keep global dst (Suc i) redefined =
     (if block_start code (Suc i) then []
      else if global_write (code ! i) global then []
      else
        (case global_read (code ! i) global of
           Some r \<Rightarrow> if r \<noteq> dst \<and> r \<notin> redefined \<and> \<not> keep r then [r] else []
         | None \<Rightarrow> []) @
        stale_scan code keep global dst i (redefined \<union> set (op_defs (code ! i))))"

fun take_global :: "(nat, nat, 'm) op \<Rightarrow> (nat \<times> global_id) option" where
  "take_global (MoveOp (TakeGlobal dst global span)) = Some (dst, global)"
| "take_global i = None"

definition stale_drops :: "'m chunk \<Rightarrow> bitset list \<Rightarrow> nat \<Rightarrow> nat list" where
  "stale_drops ck lout p =
     (case take_global (ck_code ck ! p) of
        None \<Rightarrow> []
      | Some (dst, global) \<Rightarrow>
          stale_scan (ck_code ck) (\<lambda>r. bs_contains (lout ! p) r \<or> r \<in> set (pinned_regs ck)) global dst p {})"

definition drop_op :: "nat \<Rightarrow> (nat, nat, 'm) op" where
  "drop_op r = MoveOp (Drop r False)"

definition release_stale_global_loads :: "'m chunk \<Rightarrow> 'm chunk option" where
  "release_stale_global_loads ck =
     (let code = ck_code ck; n = length code in
      if n = 0 \<or> ck_num_registers ck = 0 then Some ck
      else map_option (\<lambda>(lin, lout).
        let drops = map (stale_drops ck lout) [0..<n] in
        if \<not> list_ex (\<lambda>ds. ds \<noteq> []) drops then ck
        else
          let remap = map (\<lambda>i. sum_list (map length (take (Suc i) drops)) + i) [0..<n];
              code' = concat (map (\<lambda>i. map drop_op (drops ! i) @ [for_each_jump_pc_mut (\<lambda>t. remap ! t) (code ! i)]) [0..<n]) in
          ck\<lparr>ck_code := code', ck_line_table := map (\<lambda>e. e\<lparr>le_pc := remap ! le_pc e\<rparr>) (ck_line_table ck)\<rparr>)
        (analyze code (ck_num_registers ck)))"

section \<open>What is dropped\<close>

text \<open>A read of \<open>global\<close> into \<open>r\<close> at \<open>i\<close> that is still there, unchanged, when control reaches \<open>p\<close>.\<close>

definition stale_read :: "(nat, nat, 'm) op list \<Rightarrow> global_id \<Rightarrow> nat \<Rightarrow> nat \<Rightarrow> nat \<Rightarrow> bool" where
  "stale_read code global p i r =
     (i < p \<and> global_read (code ! i) global = Some r \<and> (\<forall>k. i < k \<and> k \<le> p \<longrightarrow> \<not> block_start code k) \<and>
      (\<forall>k. i < k \<and> k < p \<longrightarrow> \<not> global_write (code ! k) global \<and> r \<notin> set (op_defs (code ! k))))"

lemma global_read_not_write: "global_read i g = Some r \<Longrightarrow> \<not> global_write i g"
  by (induction i g rule: global_read.induct) auto

lemma stale_read_Suc:
  "stale_read code g (Suc p) i r \<longleftrightarrow> \<not> block_start code (Suc p) \<and>
     (if i = p then global_read (code ! p) g = Some r
      else stale_read code g p i r \<and> \<not> global_write (code ! p) g \<and> r \<notin> set (op_defs (code ! p)))"
  by (auto simp: stale_read_def less_Suc_eq le_Suc_eq)

lemma stale_scan_spec:
  "r \<in> set (stale_scan code keep g dst p redefined) \<longleftrightarrow>
     r \<noteq> dst \<and> \<not> keep r \<and> r \<notin> redefined \<and> (\<exists>i. stale_read code g p i r)"
proof (induction code keep g dst p redefined rule: stale_scan.induct)
  case (1 code keep g dst redefined)
  show ?case by (simp add: stale_read_def)
next
  case (2 code keep g dst p redefined)
  show ?case
  proof (cases "block_start code (Suc p) \<or> global_write (code ! p) g")
    case True
    then have "\<not> stale_read code g (Suc p) i r" for i by (auto simp: stale_read_Suc dest: global_read_not_write)
    with True show ?thesis by auto
  next
    case False
    then have "(\<exists>i. stale_read code g (Suc p) i r) \<longleftrightarrow>
        global_read (code ! p) g = Some r \<or> (\<exists>i. stale_read code g p i r) \<and> r \<notin> set (op_defs (code ! p))"
      by (auto simp: stale_read_Suc) (auto simp: stale_read_def)
    with False 2 show ?thesis by (auto split: option.splits)
  qed
qed

text \<open>
  C27: the stale reads that are released are exactly the ones that may be. For a chunk whose registers fit
  its frame, the pass releases a register in front of an instruction exactly when the instruction moves a
  global out of its slot, the register holds an earlier read of the same global from the same basic block
  (nothing in between wrote the register or the slot), it is not the destination, it is dead, and neither the panic
  teardown nor the debugger owns it.
\<close>

theorem stale_reads_exact:
  assumes "chunk_ok ck"
  shows "\<exists>lin lout. analyze (ck_code ck) (ck_num_registers ck) = Some (lin, lout) \<and>
    (\<forall>p < length (ck_code ck). \<forall>r. r \<in> set (stale_drops ck lout p) \<longleftrightarrow>
       (\<exists>dst g i. take_global (ck_code ck ! p) = Some (dst, g) \<and> stale_read (ck_code ck) g p i r \<and> r \<noteq> dst \<and>
          \<not> live_after (ck_code ck) p r \<and> \<not> live_before (ck_code ck) p r \<and> r \<notin> set (pinned_regs ck)))"
proof -
  let ?code = "ck_code ck"
  have "regs_below (ck_num_registers ck) ?code" using assms by (simp add: chunk_ok_def)
  from analyze_exact [OF this] obtain lin lout where a: "analyze ?code (ck_num_registers ck) = Some (lin, lout)"
    and out: "\<And>p. p < length ?code \<Longrightarrow> members (lout ! p) = {r. live_after ?code p r}" by blast
  have dead: "\<not> live_before ?code p r" if "take_global (?code ! p) = Some (dst, g)" "r \<noteq> dst" "\<not> live_after ?code p r" for p r dst g
  proof
    assume "live_before ?code p r"
    then show False
    proof cases
      case read
      have "of_uses (op_facts (?code ! p)) = []" using that(1) by (cases "?code ! p" rule: take_global.cases) (simp_all add: op_facts_def)
      with read show False by simp
    qed (use that in \<open>auto simp: live_after_def\<close>)
  qed
  have "r \<in> set (stale_drops ck lout p) \<longleftrightarrow>
       (\<exists>dst g i. take_global (?code ! p) = Some (dst, g) \<and> stale_read ?code g p i r \<and> r \<noteq> dst \<and>
          \<not> live_after ?code p r \<and> \<not> live_before ?code p r \<and> r \<notin> set (pinned_regs ck))" if "p < length ?code" for p r
  proof (cases "take_global (?code ! p)")
    case (Some t)
    then obtain dst g where t: "take_global (?code ! p) = Some (dst, g)" by (cases t) simp
    then show ?thesis using out [OF that] dead [OF t]
      by (auto simp: stale_drops_def stale_scan_spec contains_members)
  qed (simp add: stale_drops_def)
  with a show ?thesis by blast
qed

end
