(* ===== verification/Regalloc_Scenarios.thy ===== *)
theory Regalloc_Scenarios
  imports Regalloc_Passes
begin

text \<open>
  Register allocation on concrete chunks: instances of the general theorems on a counting loop, and a
  control flow on which hoisting separates a constant load from a jump that needs it.
\<close>

section \<open>A counting loop\<close>

definition no_span :: span where
  "no_span = span_empty_at 0"

definition plain_chunk :: "(nat, nat, unit) op list \<Rightarrow> const list \<Rightarrow> nat \<Rightarrow> nat \<Rightarrow> nat list \<Rightarrow> unit chunk" where
  "plain_chunk code consts params regs locals =
     chunk_placeholder\<lparr>ck_code := code, ck_consts := consts, ck_num_params := params, ck_num_registers := regs,
       ck_frame_locals := locals\<rparr>"

text \<open>\<open>i = 0; while i < n { i = i + 1 }; return i\<close> with \<open>n\<close> in register 0 and \<open>i\<close> in register 1.\<close>

definition count_chunk :: "unit chunk" where
  "count_chunk = plain_chunk
     [MoveOp (LoadConst 1 0),
      FlowOp (Binary OpLt 2 1 0 no_span),
      FlowOp (CondBranch 2 7 no_span),
      MoveOp (LoadConst 3 1),
      FlowOp (Binary OpAdd 4 1 3 no_span),
      MoveOp (Move 1 4),
      FlowOp (Jump 1),
      CallOp (Return 1)]
     [CInt 0, CInt 1] 1 5 [1]"

lemma count_shape:
  "ck_code count_chunk = [MoveOp (LoadConst 1 0), FlowOp (Binary OpLt 2 1 0 no_span), FlowOp (CondBranch 2 7 no_span),
     MoveOp (LoadConst 3 1), FlowOp (Binary OpAdd 4 1 3 no_span), MoveOp (Move 1 4), FlowOp (Jump 1), CallOp (Return 1)]"
  "ck_num_registers count_chunk = 5" "ck_num_params count_chunk = 1" "pinned_regs count_chunk = [1]"
  by (simp_all add: count_chunk_def plain_chunk_def pinned_regs_def chunk_placeholder_def)

text \<open>A family of sets that is closed under the liveness equations bounds liveness from above.\<close>

definition live_bound :: "(nat, nat, 'm) op list \<Rightarrow> nat set list \<Rightarrow> bool" where
  "live_bound code L = list_all (\<lambda>i. set (of_uses (op_facts (code ! i))) \<subseteq> L ! i \<and>
     list_all (\<lambda>j. j < length code \<longrightarrow> L ! j - set (op_defs (code ! i)) \<subseteq> L ! i)
       ((if of_fallthrough (op_facts (code ! i)) then [Suc i] else []) @ of_targets (op_facts (code ! i)))) [0..<length code]"

lemma live_boundD:
  assumes "live_bound code L" and "live_before code i r"
  shows "r \<in> L ! i"
  using assms(2)
proof induction
  case (read i r)
  then show ?case using assms(1) by (auto simp: live_bound_def list_all_iff)
next
  case (pass i j r)
  then have "j < length code" "j \<in> set ((if of_fallthrough (op_facts (code ! i)) then [Suc i] else []) @ of_targets (op_facts (code ! i)))"
    by (auto simp: succs_def)
  with pass assms(1) show ?case unfolding live_bound_def list_all_iff by force
qed

lemmas op_shape = op_facts_def op_defs_def opt_regs_def

lemma count_bound: "live_bound (ck_code count_chunk) [{0}, {0, 1}, {0, 1, 2}, {0, 1}, {0, 1, 3}, {0, 4}, {0, 1}, {1}]"
  by (auto simp: live_bound_def count_shape op_shape)

lemma count_entry: "entry_defined count_chunk"
  using live_boundD [OF count_bound, of 0] by (auto simp: entry_defined_def count_shape)

lemma count_branches: "branches_clean (ck_code count_chunk)"
proof -
  have "op_defs (ck_code count_chunk ! i) = [] \<or> of_targets (op_facts (ck_code count_chunk ! i)) = []" if "i < 8" for i
  proof -
    have "i \<in> {0, 1, 2, 3, 4, 5, 6, 7}" using that by auto
    then show ?thesis by (auto simp: count_shape op_shape)
  qed
  moreover have "length (ck_code count_chunk) = 8" by (simp add: count_shape)
  ultimately show ?thesis unfolding branches_clean_def by (metis empty_iff list.set(1))
qed

lemma count_below: "regs_below 5 (ck_code count_chunk)"
  by (simp add: regs_below_def count_shape op_regs op_shape)

lemma count_ok: "chunk_ok count_chunk"
  using count_below by (simp add: chunk_ok_def count_shape)

theorem liveness_exact_witness:
  "regs_below 5 (ck_code count_chunk) \<and>
   (\<exists>lin lout. analyze (ck_code count_chunk) 5 = Some (lin, lout) \<and> bs_contains (lout ! 6) 1 \<and> \<not> bs_contains (lout ! 6) 4)"
proof
  show "regs_below 5 (ck_code count_chunk)" by (rule count_below)
  from liveness_exact [OF count_below] obtain lin lout where
    a: "analyze (ck_code count_chunk) 5 = Some (lin, lout)" "\<And>r. bs_contains (lout ! 6) r \<longleftrightarrow> live_after (ck_code count_chunk) 6 r"
    by (auto simp: count_shape)
  have s: "succs (ck_code count_chunk) 6 = {1}" by (auto simp: succs_def count_shape op_shape)
  have "live_before (ck_code count_chunk) 1 1" by (rule live_before.read) (simp_all add: count_shape op_shape)
  moreover have "\<not> live_before (ck_code count_chunk) 1 4" using live_boundD [OF count_bound, of 1 4] by auto
  ultimately show "\<exists>lin lout. analyze (ck_code count_chunk) 5 = Some (lin, lout) \<and> bs_contains (lout ! 6) 1 \<and> \<not> bs_contains (lout ! 6) 4"
    using a by (auto simp: live_after_def s)
qed

text \<open>The loop on integers: a branch is taken when its condition is 0.\<close>

fun count_act :: "(int, unit, unit) action" where
  "count_act (MoveOp (LoadConst d k)) vs s = Next [] (int k) 0 s"
| "count_act (MoveOp (Move d r)) vs s = Next [] (hd vs) 0 s"
| "count_act (FlowOp (Binary b d x y sp)) vs s =
     Next [] (if b = OpLt then (if vs ! 0 < vs ! 1 then 1 else 0) else vs ! 0 + vs ! 1) 0 s"
| "count_act (FlowOp (CondBranch r t sp)) vs s = (if hd vs = 0 then Branch 0 [] None None s else Next [] 0 0 s)"
| "count_act (FlowOp (Jump t)) vs s = Branch 0 [] None None s"
| "count_act i vs s = Stop [] s"

lemma count_run: "observe (run_chunk count_act 18 count_chunk [2] 0 ()) = (None, [2], ())"
  by code_simp



section \<open>An update of a global\<close>

text \<open>\<open>g = g + g\<close> at the top level, where the first read of \<open>g\<close> is dead when \<open>g\<close> is moved out.\<close>

definition update_chunk :: "unit chunk" where
  "update_chunk = plain_chunk
     [MoveOp (LoadGlobal 0 7 no_span),
      FlowOp (Binary OpAdd 1 0 0 no_span),
      MoveOp (TakeGlobal 2 7 no_span),
      FlowOp (Binary OpAdd 3 2 1 no_span),
      MoveOp (StoreGlobal 7 3),
      FlowOp Halt]
     [] 0 4 []"

lemma update_bound: "live_bound (ck_code update_chunk) [{}, {0}, {1}, {1, 2}, {3}, {}]"
  by (auto simp: live_bound_def update_chunk_def plain_chunk_def op_shape)

theorem stale_reads_exact_witness:
  "chunk_ok update_chunk \<and>
   (\<exists>lin lout. analyze (ck_code update_chunk) 4 = Some (lin, lout) \<and> 0 \<in> set (stale_drops update_chunk lout 2) \<and>
      1 \<notin> set (stale_drops update_chunk lout 2))"
proof
  let ?c = "ck_code update_chunk"
  note F = update_chunk_def plain_chunk_def op_shape chunk_placeholder_def
  show ok: "chunk_ok update_chunk" by (simp add: chunk_ok_def regs_below_def pinned_regs_def op_regs F)
  have n: "ck_num_registers update_chunk = 4" "length ?c = 6" "take_global (?c ! 2) = Some (2, 7)" "pinned_regs update_chunk = []"
    by (simp_all add: pinned_regs_def F)
  from stale_reads_exact [OF ok] n obtain lin lout where a: "analyze ?c 4 = Some (lin, lout)"
    and d: "\<And>r. r \<in> set (stale_drops update_chunk lout 2) \<longleftrightarrow>
      (\<exists>i. stale_read ?c 7 2 i r \<and> r \<noteq> 2 \<and> \<not> live_after ?c 2 r \<and> \<not> live_before ?c 2 r)" by auto
  have "\<not> live_before ?c 2 0" "\<not> live_before ?c 3 0" using live_boundD [OF update_bound] by (fastforce, fastforce)
  moreover have "succs ?c 2 = {3}" by (auto simp: succs_def F)
  moreover have "\<not> block_start ?c 1" "\<not> block_start ?c 2" by (simp_all add: block_start_def is_target_def F)
  then have "stale_read ?c 7 2 0 0"
    by (auto simp: stale_read_def F less_Suc_eq numeral_2_eq_2 le_Suc_eq)
  moreover have "\<not> stale_read ?c 7 2 i 1" for i
    by (auto simp: stale_read_def F less_Suc_eq numeral_2_eq_2)
  ultimately show "\<exists>lin lout. analyze ?c 4 = Some (lin, lout) \<and> 0 \<in> set (stale_drops update_chunk lout 2) \<and>
      1 \<notin> set (stale_drops update_chunk lout 2)" using a d unfolding live_after_def by (metis singletonD zero_neq_numeral)
qed

section \<open>A jump to the top of a loop\<close>

text \<open>
  The code of \<open>let i = 0; if c { echo c }; while i < n { i = i + 1 }; i\<close> with \<open>c\<close> in register 0 and \<open>n\<close> in
  register 1: the branch around the body of the \<open>if\<close> lands on the first instruction of the loop.
\<close>

definition join_chunk :: "unit chunk" where
  "join_chunk = plain_chunk
     [MoveOp (LoadConst 2 0),
      FlowOp (CondBranch 0 3 no_span),
      FlowOp (Echo 0),
      FlowOp (Binary OpLt 3 2 1 no_span),
      FlowOp (CondBranch 3 9 no_span),
      MoveOp (LoadConst 4 1),
      FlowOp (Binary OpAdd 5 2 4 no_span),
      MoveOp (Move 2 5),
      FlowOp (Jump 3),
      CallOp (Return 2)]
     [CInt 0, CInt 1] 2 6 [2]"

lemma join_hoisted:
  "ck_code (hoist_loop_invariant_consts join_chunk) =
     [MoveOp (LoadConst 2 0), FlowOp (CondBranch 0 4 no_span), FlowOp (Echo 0), MoveOp (LoadConst 4 1),
      FlowOp (Binary OpLt 3 2 1 no_span), FlowOp (CondBranch 3 9 no_span), FlowOp (Binary OpAdd 5 2 4 no_span),
      MoveOp (Move 2 5), FlowOp (Jump 4), CallOp (Return 2)]"
  by code_simp

lemma join_bound:
  "live_bound (ck_code join_chunk)
     [{0, 1}, {0, 1, 2}, {0, 1, 2}, {1, 2}, {1, 2, 3}, {1, 2}, {1, 2, 4}, {1, 5}, {1, 2}, {2}]"
  by (auto simp: live_bound_def join_chunk_def plain_chunk_def op_shape)

lemma join_skips_load: "live_before (ck_code (hoist_loop_invariant_consts join_chunk)) 0 4"
proof -
  let ?c = "ck_code (hoist_loop_invariant_consts join_chunk)"
  note F = join_hoisted op_shape succs_def
  have "live_before ?c 6 4" by (rule live_before.read) (simp_all add: F)
  then have "live_before ?c 5 4" by (rule live_before.pass [rotated 2]) (simp_all add: F)
  then have "live_before ?c 4 4" by (rule live_before.pass [rotated 2]) (simp_all add: F)
  then have "live_before ?c 1 4" by (rule live_before.pass [rotated 2]) (simp_all add: F)
  then show ?thesis by (rule live_before.pass [rotated 2]) (simp_all add: F)
qed

text \<open>
  C38: hoisting a constant load can separate it from a jump that needs it. The loads go in front of the
  loop, but every jump to the first instruction of the loop is redirected behind them, also a jump that
  enters the loop from outside. On the code of an \<open>if\<close> without \<open>else\<close> directly in front of a \<open>while\<close>, the
  register of the hoisted constant is then read before it is written; the original counts to 2 and stops,
  the rewritten chunk adds the initial value of the register and is still running.
\<close>

theorem hoist_skips_entering_jump:
  "\<not> live_before (ck_code join_chunk) 0 4 \<and> live_before (ck_code (hoist_loop_invariant_consts join_chunk)) 0 4 \<and>
   observe (run_chunk count_act 40 join_chunk [0, 2] 0 ()) = (None, [2], ()) \<and>
   fst (observe (run_chunk count_act 40 (hoist_loop_invariant_consts join_chunk) [0, 2] 0 ())) \<noteq> None"
proof (intro conjI)
  show "\<not> live_before (ck_code join_chunk) 0 4" using live_boundD [OF join_bound, of 0 4] by auto
  show "live_before (ck_code (hoist_loop_invariant_consts join_chunk)) 0 4" by (rule join_skips_load)
  show "observe (run_chunk count_act 40 join_chunk [0, 2] 0 ()) = (None, [2], ())" by code_simp
  show "fst (observe (run_chunk count_act 40 (hoist_loop_invariant_consts join_chunk) [0, 2] 0 ())) \<noteq> None" by code_simp
qed

end
