(* ===== verification/Fixed_Width.thy ===== *)
theory Fixed_Width
  imports Bytecode Complex_Main "HOL-Library.Signed_Division"
begin

text \<open>
  Integers at a width (\<open>crates/noeta-ext-abi/src/ring1.rs\<close>, \<open>crates/noeta-value/src/ops.rs\<close>). A
  fixed-width integer is erased to a 64-bit word at run time; the width lives in the static type. An
  \<open>i64\<close> is a \<open>64 word\<close> read by \<open>sint\<close>, a \<open>u64\<close> the same word read by \<open>uint\<close>. A float is not-a-number, an
  infinity, or the rational number it denotes: the conversions only compare, truncate and cast.
\<close>

unbundle bit_operations_syntax

type_synonym i64 = "64 word"

datatype f64 = NaN | Infinite bool | Finite rat

section \<open>Names of the integer methods\<close>

definition int_destination_from_suffix :: "string \<Rightarrow> (bool \<times> nat) option" where
  "int_destination_from_suffix rest =
     (if rest = ''int'' then Some (True, 64)
      else case rest of
        [] \<Rightarrow> None
      | c # digits \<Rightarrow>
          (case (if c = CHR ''i'' then Some True else if c = CHR ''u'' then Some False else None) of
             None \<Rightarrow> None
           | Some sgnd \<Rightarrow>
               map_option (Pair sgnd)
                 (if digits = ''8'' then Some 8 else if digits = ''16'' then Some 16
                  else if digits = ''32'' then Some 32 else if digits = ''64'' then Some 64 else None)))"

definition strip_prefix :: "string \<Rightarrow> string \<Rightarrow> string option" where
  "strip_prefix p s = (if take (length p) s = p then Some (drop (length p) s) else None)"

definition conversion_from_name :: "string \<Rightarrow> int_method option" where
  "conversion_from_name name =
     (case strip_prefix ''checked_to_'' name of
        Some rest \<Rightarrow> map_option (\<lambda>(sgnd, bits). CheckedConvert True sgnd bits) (int_destination_from_suffix rest)
      | None \<Rightarrow> (case strip_prefix ''to_'' name of
          None \<Rightarrow> None
        | Some rest \<Rightarrow> map_option (\<lambda>(sgnd, bits). Convert sgnd bits) (int_destination_from_suffix rest)))"

definition int_method_from_name :: "string \<Rightarrow> int_method option" where
  "int_method_from_name name =
     (if name = ''count_ones'' then Some CountOnes
      else if name = ''count_zeros'' then Some CountZeros
      else if name = ''leading_zeros'' then Some LeadingZeros
      else if name = ''trailing_zeros'' then Some TrailingZeros
      else if name = ''rotate_left'' then Some RotateLeft
      else if name = ''rotate_right'' then Some RotateRight
      else if name = ''reverse_bits'' then Some ReverseBits
      else if name = ''swap_bytes'' then Some SwapBytes
      else conversion_from_name name)"

fun int_method_arity :: "int_method \<Rightarrow> nat" where
  "int_method_arity RotateLeft = 1"
| "int_method_arity RotateRight = 1"
| "int_method_arity _ = 0"

section \<open>Conversions\<close>

definition int_width_range :: "bool \<Rightarrow> nat \<Rightarrow> int \<times> int" where
  "int_width_range sgnd bits =
     (if sgnd then (- (2 ^ (bits - 1)), 2 ^ (bits - 1) - 1) else (0, 2 ^ bits - 1))"

definition mask_to_width :: "i64 \<Rightarrow> bool \<Rightarrow> nat \<Rightarrow> i64" where
  "mask_to_width v sgnd bits =
     (if 64 \<le> bits then v
      else if sgnd then let shift = 64 - bits in signed_drop_bit shift (push_bit shift v)
      else v AND (push_bit bits 1 - 1))"

definition checked_int_convert :: "i64 \<Rightarrow> bool \<Rightarrow> bool \<Rightarrow> nat \<Rightarrow> i64 option" where
  "checked_int_convert recv src_signed dest_signed dest_bits =
     (let v = (if src_signed then sint recv else uint recv);
          (lo, hi) = int_width_range dest_signed dest_bits in
      if lo \<le> v \<and> v \<le> hi then Some (word_of_int v) else None)"

definition rat_trunc :: "rat \<Rightarrow> int" where
  "rat_trunc q = (if 0 \<le> q then \<lfloor>q\<rfloor> else \<lceil>q\<rceil>)"

text \<open>Rust's cast of a float to an integer type saturates and sends NaN to 0.\<close>

definition saturating_cast :: "f64 \<Rightarrow> bool \<Rightarrow> nat \<Rightarrow> int" where
  "saturating_cast f sgnd bits =
     (let (lo, hi) = int_width_range sgnd bits in
      case f of NaN \<Rightarrow> 0 | Infinite neg \<Rightarrow> (if neg then lo else hi) | Finite q \<Rightarrow> max lo (min hi (rat_trunc q)))"

definition float_to_int :: "f64 \<Rightarrow> bool \<Rightarrow> nat \<Rightarrow> i64" where
  "float_to_int f sgnd bits = word_of_int (saturating_cast f sgnd (if bits \<in> {8, 16, 32} then bits else 64))"

definition checked_float_to_int :: "f64 \<Rightarrow> bool \<Rightarrow> nat \<Rightarrow> i64 option" where
  "checked_float_to_int f dest_signed dest_bits =
     (case f of
        Finite q \<Rightarrow>
          let (lo, hi) = (if dest_signed then (- (2 ^ (dest_bits - 1)), 2 ^ (dest_bits - 1)) else (0, 2 ^ dest_bits)) in
          if lo \<le> rat_trunc q \<and> rat_trunc q < hi then Some (float_to_int f dest_signed dest_bits) else None
      | _ \<Rightarrow> None)"

datatype num_scalar = ScalarInt i64 | ScalarF64 f64 | ScalarF32 f64

fun checked_convert :: "num_scalar \<Rightarrow> bool \<Rightarrow> bool \<Rightarrow> nat \<Rightarrow> i64 option" where
  "checked_convert (ScalarInt i) src_signed dest_signed dest_bits = checked_int_convert i src_signed dest_signed dest_bits"
| "checked_convert (ScalarF64 f) src_signed dest_signed dest_bits = checked_float_to_int f dest_signed dest_bits"
| "checked_convert (ScalarF32 f) src_signed dest_signed dest_bits = checked_float_to_int f dest_signed dest_bits"

text \<open>The integer destinations of the total conversion.\<close>

fun num_convert_to_int :: "num_scalar \<Rightarrow> bool \<Rightarrow> nat \<Rightarrow> i64" where
  "num_convert_to_int (ScalarInt i) sgnd bits = mask_to_width i sgnd bits"
| "num_convert_to_int (ScalarF64 f) sgnd bits = float_to_int f sgnd bits"
| "num_convert_to_int (ScalarF32 f) sgnd bits = float_to_int f sgnd bits"

section \<open>Bit intrinsics\<close>

definition count_ones :: "i64 \<Rightarrow> nat" where
  "count_ones w = length (filter (bit w) [0..<64])"

definition leading_zeros :: "i64 \<Rightarrow> nat" where
  "leading_zeros w = length (takeWhile (\<lambda>i. \<not> bit w i) (rev [0..<64]))"

definition trailing_zeros :: "i64 \<Rightarrow> nat" where
  "trailing_zeros w = length (takeWhile (\<lambda>i. \<not> bit w i) [0..<64])"

definition rotate_left :: "i64 \<Rightarrow> nat \<Rightarrow> i64" where
  "rotate_left w n = (if n = 0 then w else push_bit n w OR drop_bit (64 - n) w)"

definition rotate_right :: "i64 \<Rightarrow> nat \<Rightarrow> i64" where
  "rotate_right w n = (if n = 0 then w else drop_bit n w OR push_bit (64 - n) w)"

definition reverse_bits :: "i64 \<Rightarrow> i64" where
  "reverse_bits w = horner_sum of_bool 2 (map (\<lambda>i. bit w (63 - i)) [0..<64])"

definition swap_bytes :: "i64 \<Rightarrow> i64" where
  "swap_bytes w = horner_sum of_bool 2 (map (\<lambda>i. bit w (8 * (7 - i div 8) + i mod 8)) [0..<64])"

text \<open>\<open>None\<close> is the \<open>unreachable!\<close> of the code.\<close>

fun int_method_apply :: "i64 \<Rightarrow> int_method \<Rightarrow> i64 \<Rightarrow> i64 option" where
  "int_method_apply recv CountOnes arg = Some (of_nat (count_ones recv))"
| "int_method_apply recv CountZeros arg = Some (of_nat (64 - count_ones recv))"
| "int_method_apply recv LeadingZeros arg = Some (of_nat (leading_zeros recv))"
| "int_method_apply recv TrailingZeros arg = Some (of_nat (trailing_zeros recv))"
| "int_method_apply recv RotateLeft arg = Some (rotate_left recv (unat (arg AND 63)))"
| "int_method_apply recv RotateRight arg = Some (rotate_right recv (unat (arg AND 63)))"
| "int_method_apply recv ReverseBits arg = Some (reverse_bits recv)"
| "int_method_apply recv SwapBytes arg = Some (swap_bytes recv)"
| "int_method_apply recv (Convert sgnd bits) arg = Some (mask_to_width recv sgnd bits)"
| "int_method_apply recv (CheckedConvert src_signed sgnd bits) arg = None"

fun int_method_narrow :: "nat \<Rightarrow> i64 \<Rightarrow> i64 \<Rightarrow> int_method \<Rightarrow> i64 \<Rightarrow> i64 option" where
  "int_method_narrow width msk v CountOnes arg = Some (of_nat (count_ones v))"
| "int_method_narrow width msk v CountZeros arg = Some (of_nat (width - count_ones v))"
| "int_method_narrow width msk v LeadingZeros arg = Some (of_nat (width - (64 - leading_zeros v)))"
| "int_method_narrow width msk v TrailingZeros arg = Some (of_nat (if v = 0 then width else trailing_zeros v))"
| "int_method_narrow width msk v RotateLeft arg =
     (let n = nat (sint arg mod int width) in
      Some (if n = 0 then v else (push_bit n v OR drop_bit (width - n) v) AND msk))"
| "int_method_narrow width msk v RotateRight arg =
     (let n = nat (sint arg mod int width) in
      Some (if n = 0 then v else (drop_bit n v OR push_bit (width - n) v) AND msk))"
| "int_method_narrow width msk v ReverseBits arg = Some (drop_bit (64 - width) (reverse_bits v))"
| "int_method_narrow width msk v SwapBytes arg = Some (drop_bit (64 - width) (swap_bytes v))"
| "int_method_narrow width msk v (Convert sgnd bits) arg = None"
| "int_method_narrow width msk v (CheckedConvert src_signed sgnd bits) arg = None"

definition int_method_width :: "i64 \<Rightarrow> int_method \<Rightarrow> i64 \<Rightarrow> nat \<Rightarrow> i64 option" where
  "int_method_width recv m arg bits =
     (if 64 \<le> bits then int_method_apply recv m arg
      else let msk = push_bit bits 1 - 1 in int_method_narrow bits msk (recv AND msk) m arg)"

datatype int_outcome = OutcomeWord i64 | OutcomeChecked "i64 option"

fun int_method_outcome :: "i64 \<Rightarrow> int_method \<Rightarrow> i64 \<Rightarrow> nat option \<Rightarrow> int_outcome option" where
  "int_method_outcome recv (CheckedConvert src_signed sgnd bits) arg width =
     Some (OutcomeChecked (checked_convert (ScalarInt recv) src_signed sgnd bits))"
| "int_method_outcome recv m arg (Some bits) = map_option OutcomeWord (int_method_width recv m arg bits)"
| "int_method_outcome recv m arg None = map_option OutcomeWord (int_method_apply recv m arg)"

section \<open>Operators\<close>

datatype int_op_error = DivByZero | ShiftOutOfRange i64

datatype int_op_value = IntResult i64 | BoolResult bool

type_synonym int_op_result = "int_op_error + int_op_value"

definition wrapping_div :: "i64 \<Rightarrow> i64 \<Rightarrow> i64" where
  "wrapping_div a b = word_of_int (sint a sdiv sint b)"

definition wrapping_rem :: "i64 \<Rightarrow> i64 \<Rightarrow> i64" where
  "wrapping_rem a b = word_of_int (sint a smod sint b)"

definition shift_in_range :: "i64 \<Rightarrow> bool" where
  "shift_in_range b = (0 \<le> sint b \<and> sint b < 64)"

text \<open>The operators on two integers; \<open>None\<close> is \<open>unreachable!\<close>.\<close>

fun int_arithmetic :: "binary_op \<Rightarrow> i64 \<Rightarrow> i64 \<Rightarrow> int_op_result option" where
  "int_arithmetic OpAdd a b = Some (Inr (IntResult (a + b)))"
| "int_arithmetic OpSub a b = Some (Inr (IntResult (a - b)))"
| "int_arithmetic OpMul a b = Some (Inr (IntResult (a * b)))"
| "int_arithmetic OpDiv a b = Some (if b = 0 then Inl DivByZero else Inr (IntResult (wrapping_div a b)))"
| "int_arithmetic OpRem a b = Some (if b = 0 then Inl DivByZero else Inr (IntResult (wrapping_rem a b)))"
| "int_arithmetic _ a b = None"

fun int_bitwise :: "binary_op \<Rightarrow> i64 \<Rightarrow> i64 \<Rightarrow> int_op_result option" where
  "int_bitwise OpBitAnd a b = Some (Inr (IntResult (a AND b)))"
| "int_bitwise OpBitOr a b = Some (Inr (IntResult (a OR b)))"
| "int_bitwise OpBitXor a b = Some (Inr (IntResult (a XOR b)))"
| "int_bitwise OpShl a b =
     Some (if shift_in_range b then Inr (IntResult (push_bit (nat (sint b)) a)) else Inl (ShiftOutOfRange b))"
| "int_bitwise OpShr a b =
     Some (if shift_in_range b then Inr (IntResult (signed_drop_bit (nat (sint b)) a)) else Inl (ShiftOutOfRange b))"
| "int_bitwise _ a b = None"

fun wide_signed :: "binary_op \<Rightarrow> i64 \<Rightarrow> i64 \<Rightarrow> nat \<Rightarrow> int_op_result option" where
  "wide_signed OpDiv a b bits = Some (if b = 0 then Inl DivByZero else Inr (IntResult (mask_to_width (wrapping_div a b) True bits)))"
| "wide_signed OpRem a b bits = Some (if b = 0 then Inl DivByZero else Inr (IntResult (mask_to_width (wrapping_rem a b) True bits)))"
| "wide_signed OpLt a b bits = Some (Inr (BoolResult (sint a < sint b)))"
| "wide_signed OpLe a b bits = Some (Inr (BoolResult (sint a \<le> sint b)))"
| "wide_signed OpGt a b bits = Some (Inr (BoolResult (sint a > sint b)))"
| "wide_signed OpGe a b bits = Some (Inr (BoolResult (sint a \<ge> sint b)))"
| "wide_signed _ a b bits = None"

fun wide_unsigned :: "binary_op \<Rightarrow> i64 \<Rightarrow> i64 \<Rightarrow> nat \<Rightarrow> int_op_result option" where
  "wide_unsigned OpDiv a b bits = Some (if b = 0 then Inl DivByZero else Inr (IntResult (mask_to_width (a div b) False bits)))"
| "wide_unsigned OpRem a b bits = Some (if b = 0 then Inl DivByZero else Inr (IntResult (mask_to_width (a mod b) False bits)))"
| "wide_unsigned OpLt a b bits = Some (Inr (BoolResult (a < b)))"
| "wide_unsigned OpLe a b bits = Some (Inr (BoolResult (a \<le> b)))"
| "wide_unsigned OpGt a b bits = Some (Inr (BoolResult (a > b)))"
| "wide_unsigned OpGe a b bits = Some (Inr (BoolResult (a \<ge> b)))"
| "wide_unsigned _ a b bits = None"

definition apply_binary_wide :: "binary_op \<Rightarrow> i64 \<Rightarrow> i64 \<Rightarrow> bool \<Rightarrow> nat \<Rightarrow> int_op_result option" where
  "apply_binary_wide opr a b sgnd bits =
     (if opr = OpShr then
        Some (if \<not> shift_in_range b then Inl (ShiftOutOfRange b)
              else Inr (IntResult (if sgnd then signed_drop_bit (nat (sint b)) a else drop_bit (nat (sint b)) a)))
      else if sgnd then wide_signed opr a b bits else wide_unsigned opr a b bits)"

fun int_unary :: "unary_op \<Rightarrow> i64 \<Rightarrow> i64 option" where
  "int_unary UNeg a = Some (- a)"
| "int_unary UNot a = Some (NOT a)"
| "int_unary USpread a = Some a"

end
