(* ===== verification/Fixed_Width_Laws.thy ===== *)
theory Fixed_Width_Laws
  imports Fixed_Width
begin

text \<open>
  The erased representation is faithful: at every width the operations on 64-bit words compute the
  fixed-width result of the mathematical one.
\<close>

section \<open>Integers at a width\<close>

text \<open>The number a word stands for, and the number of the width congruent to an integer.\<close>

definition int_value :: "bool \<Rightarrow> i64 \<Rightarrow> int" where
  "int_value sgnd w = (if sgnd then sint w else uint w)"

definition wrap :: "bool \<Rightarrow> nat \<Rightarrow> int \<Rightarrow> int" where
  "wrap sgnd bits z = (let m = z mod 2 ^ bits in if sgnd \<and> 2 ^ (bits - 1) \<le> m then m - 2 ^ bits else m)"

definition in_width :: "bool \<Rightarrow> nat \<Rightarrow> int \<Rightarrow> bool" where
  "in_width sgnd bits z = (fst (int_width_range sgnd bits) \<le> z \<and> z \<le> snd (int_width_range sgnd bits))"

definition fits_width :: "bool \<Rightarrow> nat \<Rightarrow> i64 \<Rightarrow> bool" where
  "fits_width sgnd bits w = in_width sgnd bits (int_value sgnd w)"

lemma half_width: "0 < bits \<Longrightarrow> (2::int) ^ bits = 2 * 2 ^ (bits - 1)"
  by (cases bits) simp_all

lemma wrap_in_width: "0 < bits \<Longrightarrow> in_width sgnd bits (wrap sgnd bits z)"
proof -
  assume b: "0 < bits"
  define m h where "m = z mod 2 ^ bits" and "h = (2::int) ^ (bits - 1)"
  have p: "(2::int) ^ bits = 2 * h" using half_width [OF b] by (simp add: h_def)
  have "0 \<le> m" "m < 2 ^ bits" by (simp_all add: m_def)
  with p show ?thesis
    unfolding in_width_def wrap_def int_width_range_def Let_def m_def [symmetric] h_def [symmetric] by auto
qed

lemma wrap_cong: "wrap sgnd bits z mod 2 ^ bits = z mod 2 ^ bits"
  by (simp add: wrap_def Let_def)

lemma wrap_id: "0 < bits \<Longrightarrow> in_width sgnd bits z \<Longrightarrow> wrap sgnd bits z = z"
proof -
  assume b: "0 < bits" and z: "in_width sgnd bits z"
  note h = half_width [OF b]
  show ?thesis
  proof (cases "0 \<le> z")
    case True
    then have "z mod 2 ^ bits = z" using z h by (intro mod_pos_pos_trivial) (auto simp: in_width_def int_width_range_def split: if_splits)
    then show ?thesis using z by (auto simp: wrap_def in_width_def int_width_range_def Let_def split: if_splits)
  next
    case False
    then have s: sgnd using z by (auto simp: in_width_def int_width_range_def split: if_splits)
    have "(z + 2 ^ bits) mod 2 ^ bits = z + 2 ^ bits"
      using False z h s by (intro mod_pos_pos_trivial) (auto simp: in_width_def int_width_range_def)
    then have "z mod 2 ^ bits = z + 2 ^ bits" by simp
    then show ?thesis using z h s by (simp add: wrap_def in_width_def int_width_range_def)
  qed
qed

lemma wrap_signed: "0 < bits \<Longrightarrow> wrap True bits z = signed_take_bit (bits - 1) z"
proof -
  assume "0 < bits"
  then obtain n where n: "bits = Suc n" by (cases bits) auto
  have t: "z mod 2 ^ Suc n = 2 ^ n * of_bool (bit z n) + take_bit n z"
    using take_bit_Suc_from_most [of n z] by (simp add: take_bit_eq_mod)
  moreover have "take_bit n z < 2 ^ n" "0 \<le> take_bit n z" by simp_all
  ultimately have "2 ^ n \<le> z mod 2 ^ Suc n \<longleftrightarrow> bit z n"
    by (cases "bit z n") (simp_all only: of_bool_eq mult_1_right mult_zero_right add_0 le_add_same_cancel1 not_le simp_thms)
  then show ?thesis by (simp add: wrap_def n signed_take_bit_eq_take_bit_minus take_bit_eq_mod Let_def)
qed

lemma wrap_unsigned: "wrap False bits z = take_bit bits z"
  by (simp add: wrap_def take_bit_eq_mod Let_def)

text \<open>The word of the width that stands for an integer.\<close>

definition erased :: "bool \<Rightarrow> nat \<Rightarrow> int \<Rightarrow> i64" where
  "erased sgnd bits z = word_of_int (wrap sgnd bits z)"

lemma word_of_int_value [simp]: "word_of_int (int_value sgnd w) = w"
  by (simp add: int_value_def)

lemma int_value_of_int: "in_width sgnd 64 z \<Longrightarrow> int_value sgnd (word_of_int z) = z"
proof -
  assume z: "in_width sgnd 64 z"
  have "wrap sgnd 64 z = z" using wrap_id [OF _ z] by simp
  moreover have "int_value sgnd (word_of_int z) = wrap sgnd 64 z"
    using wrap_signed [of 64 z] wrap_unsigned [of 64 z] by (simp add: int_value_def sint_sbintrunc' unsigned_of_int signed_of_int)
  ultimately show ?thesis by simp
qed

lemma in_width_mono: "0 < bits \<Longrightarrow> bits \<le> 64 \<Longrightarrow> in_width sgnd bits z \<Longrightarrow> in_width sgnd 64 z"
proof -
  assume b: "0 < bits" "bits \<le> 64" and z: "in_width sgnd bits z"
  have "(2::int) ^ (bits - 1) \<le> 2 ^ 63" "(2::int) ^ bits \<le> 2 ^ 64" 
    using power_increasing [of "bits - 1" 63 "2::int"] power_increasing [of bits 64 "2::int"] b by simp_all
  with z show ?thesis by (auto simp: in_width_def int_width_range_def split: if_splits)
qed

lemma erased_value: "0 < bits \<Longrightarrow> bits \<le> 64 \<Longrightarrow> int_value sgnd (erased sgnd bits z) = wrap sgnd bits z"
  unfolding erased_def using int_value_of_int in_width_mono wrap_in_width by blast

lemma erased_fits: "0 < bits \<Longrightarrow> bits \<le> 64 \<Longrightarrow> fits_width sgnd bits (erased sgnd bits z)"
  by (simp add: fits_width_def erased_value wrap_in_width)

lemma mask_erased:
  assumes "0 < bits" and "bits \<le> 64"
  shows "mask_to_width (word_of_int z) sgnd bits = erased sgnd bits z"
proof (cases "bits = 64")
  case True
  have "word_of_int (wrap sgnd 64 z) = (word_of_int z :: i64)"
    using wrap_cong [of sgnd 64 z] by (simp add: word_of_int_eq_iff take_bit_eq_mod)
  then show ?thesis using True by (simp add: mask_to_width_def erased_def)
next
  case False
  show ?thesis
  proof (cases sgnd)
    case True
    have "bit (signed_drop_bit (64 - bits) (push_bit (64 - bits) (word_of_int z :: i64))) n \<longleftrightarrow> bit (word_of_int (signed_take_bit (bits - 1) z) :: i64) n"
      if "n < 64" for n
      using that assms False
      by (cases "n = bits - 1") (auto simp: bit_signed_drop_bit_iff bit_push_bit_iff bit_word_of_int_iff bit_signed_take_bit_iff min_def)
    then have "signed_drop_bit (64 - bits) (push_bit (64 - bits) (word_of_int z :: i64)) = word_of_int (signed_take_bit (bits - 1) z)"
      by (intro bit_word_eqI) simp
    then show ?thesis using True False assms wrap_signed [of bits z] by (simp add: mask_to_width_def erased_def Let_def)
  next
    case F: False
    have "(word_of_int z :: i64) AND (push_bit bits 1 - 1) = take_bit bits (word_of_int z)"
      by (simp add: take_bit_eq_mask mask_eq_exp_minus_1 push_bit_of_1)
    then have "(word_of_int z :: i64) AND (push_bit bits 1 - 1) = word_of_int (take_bit bits z)"
      using assms by (simp add: take_bit_word_eq_self bit_eq_iff bit_take_bit_iff bit_word_of_int_iff)
    then show ?thesis using F False assms by (simp add: mask_to_width_def erased_def wrap_unsigned)
  qed
qed

lemma mask_value: "0 < bits \<Longrightarrow> bits \<le> 64 \<Longrightarrow> mask_to_width w sgnd bits = erased sgnd bits (int_value s w)"
  using mask_erased [of bits "int_value s w" sgnd] by simp

section \<open>Conversions\<close>

text \<open>
  Masking a word to a width is wrap-around at that width. For every width up to 64 bits and either
  signedness, the result stands for the one number of the width's range that is congruent to the input
  modulo \<open>2 ^ bits\<close>; a word that already fits is unchanged.
\<close>

theorem mask_to_width_wraps:
  assumes "0 < bits" and "bits \<le> 64"
  shows "in_width sgnd bits (int_value sgnd (mask_to_width w sgnd bits)) \<and>
    int_value sgnd (mask_to_width w sgnd bits) mod 2 ^ bits = sint w mod 2 ^ bits \<and>
    (fits_width sgnd bits w \<longrightarrow> mask_to_width w sgnd bits = w)"
proof -
  have m: "mask_to_width w sgnd bits = erased sgnd bits (int_value s w)" for s by (rule mask_value [OF assms])
  have "fits_width sgnd bits w \<longrightarrow> mask_to_width w sgnd bits = w"
    using m [of sgnd] wrap_id [OF assms(1)] by (simp add: fits_width_def erased_def)
  then show ?thesis
    using m [of True] by (simp add: erased_value assms wrap_in_width wrap_cong int_value_def [of True])
qed

theorem mask_to_width_wraps_witness:
  "in_width True 8 (int_value True (mask_to_width 200 True 8)) \<and> int_value True (mask_to_width 200 True 8) mod 256 = 200"
  using mask_to_width_wraps [of 8 True 200] by simp

lemma checked_int_exact:
  assumes "0 < bits" and "bits \<le> 64"
  shows "checked_int_convert w src sgnd bits =
    (if in_width sgnd bits (int_value src w) then Some (mask_to_width w sgnd bits) else None)"
proof -
  have "mask_to_width w sgnd bits = erased sgnd bits (int_value src w)" by (rule mask_value [OF assms])
  then show ?thesis
    using wrap_id [OF assms(1), of sgnd "int_value src w"]
    by (auto simp: checked_int_convert_def int_value_def in_width_def erased_def Let_def split: prod.splits)
qed

lemma saturating_exact: "in_width sgnd bits (rat_trunc q) \<Longrightarrow> saturating_cast (Finite q) sgnd bits = rat_trunc q"
  by (auto simp: saturating_cast_def in_width_def Let_def split: prod.splits)

lemma checked_float_exact:
  assumes "bits \<in> {8, 16, 32, 64}"
  shows "checked_float_to_int f sgnd bits =
    (case f of Finite q \<Rightarrow> if in_width sgnd bits (rat_trunc q) then Some (float_to_int f sgnd bits) else None | _ \<Rightarrow> None)"
  using assms by (auto simp: checked_float_to_int_def in_width_def int_width_range_def Let_def split: f64.splits)

text \<open>The number a scalar stands for when it is read as an integer; \<open>None\<close> for what has no integer part.\<close>

fun scalar_value :: "bool \<Rightarrow> num_scalar \<Rightarrow> int option" where
  "scalar_value src (ScalarInt w) = Some (int_value src w)"
| "scalar_value src (ScalarF64 f) = (case f of Finite q \<Rightarrow> Some (rat_trunc q) | _ \<Rightarrow> None)"
| "scalar_value src (ScalarF32 f) = (case f of Finite q \<Rightarrow> Some (rat_trunc q) | _ \<Rightarrow> None)"

lemma float_to_int_value:
  assumes "bits \<in> {8, 16, 32, 64}" and "in_width sgnd bits (rat_trunc q)"
  shows "int_value sgnd (float_to_int (Finite q) sgnd bits) = rat_trunc q"
proof -
  have "(if bits \<in> {8, 16, 32} then bits else 64) = bits" using assms(1) by auto
  then have "float_to_int (Finite q) sgnd bits = word_of_int (rat_trunc q)"
    unfolding float_to_int_def using saturating_exact [OF assms(2)] by (simp only:)
  moreover have "in_width sgnd 64 (rat_trunc q)" using in_width_mono [OF _ _ assms(2)] assms(1) by auto
  ultimately show ?thesis using int_value_of_int by simp
qed

text \<open>
  C29: a checked conversion answers with the total conversion or not at all. For every source (a word
  read by the signedness of its type, or a float) and every integer type, the answer is \<open>some\<close> exactly when
  the number of the source, truncated towards zero, is in the range of the destination; the word is then
  the one the total conversion gives, and it stands for that very number.
\<close>

theorem checked_convert_exact:
  assumes "bits \<in> {8, 16, 32, 64}"
  shows "(\<forall>w. checked_convert x src sgnd bits = Some w \<longrightarrow>
      w = num_convert_to_int x sgnd bits \<and> scalar_value src x = Some (int_value sgnd w)) \<and>
    (checked_convert x src sgnd bits \<noteq> None \<longleftrightarrow> (\<exists>z. scalar_value src x = Some z \<and> in_width sgnd bits z))"
proof -
  have b: "0 < bits" "bits \<le> 64" using assms by auto
  have i: "int_value sgnd (mask_to_width w sgnd bits) = int_value src w" if "in_width sgnd bits (int_value src w)" for w
    using mask_value [OF b, of w sgnd src] erased_value [OF b] wrap_id [OF b(1) that] by simp
  show ?thesis
    using i float_to_int_value [OF assms]
    by (cases x) (auto simp: checked_int_exact [OF b] checked_float_exact [OF assms] split: f64.splits if_splits)
qed

theorem checked_convert_exact_witness:
  "checked_convert (ScalarInt (- 1)) True False 8 = None \<and> checked_convert (ScalarInt (- 1)) False False 64 \<noteq> None"
  using checked_convert_exact [of 8 "ScalarInt (- 1)" True False] checked_convert_exact [of 64 "ScalarInt (- 1)" False False]
  by (simp add: int_value_def in_width_def int_width_range_def unsigned_minus_1_eq_mask mask_eq_exp_minus_1)

section \<open>Operators\<close>

text \<open>The fixed-width operators, on the numbers themselves.\<close>

fun width_op :: "bool \<Rightarrow> nat \<Rightarrow> binary_op \<Rightarrow> int \<Rightarrow> int \<Rightarrow> int_op_result option" where
  "width_op sgnd bits OpAdd x y = Some (Inr (IntResult (erased sgnd bits (x + y))))"
| "width_op sgnd bits OpSub x y = Some (Inr (IntResult (erased sgnd bits (x - y))))"
| "width_op sgnd bits OpMul x y = Some (Inr (IntResult (erased sgnd bits (x * y))))"
| "width_op sgnd bits OpDiv x y = Some (if y = 0 then Inl DivByZero else Inr (IntResult (erased sgnd bits (x sdiv y))))"
| "width_op sgnd bits OpRem x y = Some (if y = 0 then Inl DivByZero else Inr (IntResult (erased sgnd bits (x smod y))))"
| "width_op sgnd bits OpLt x y = Some (Inr (BoolResult (x < y)))"
| "width_op sgnd bits OpLe x y = Some (Inr (BoolResult (x \<le> y)))"
| "width_op sgnd bits OpGt x y = Some (Inr (BoolResult (x > y)))"
| "width_op sgnd bits OpGe x y = Some (Inr (BoolResult (x \<ge> y)))"
| "width_op sgnd bits _ x y = None"

text \<open>The result after the masking instruction that follows \<open>+ - *\<close>.\<close>

fun masked :: "bool \<Rightarrow> nat \<Rightarrow> int_op_result option \<Rightarrow> int_op_result option" where
  "masked sgnd bits (Some (Inr (IntResult w))) = Some (Inr (IntResult (mask_to_width w sgnd bits)))"
| "masked sgnd bits r = r"

lemma int_value_zero: "int_value sgnd w = 0 \<longleftrightarrow> w = 0"
proof
  assume "int_value sgnd w = 0"
  then have "(word_of_int (int_value sgnd w) :: i64) = word_of_int 0" by (simp only:)
  then show "w = 0" by simp
qed (simp add: int_value_def)

lemma masked_arithmetic:
  assumes "0 < bits" and "bits \<le> 64"
  shows "mask_to_width (a + b) sgnd bits = erased sgnd bits (int_value sgnd a + int_value sgnd b)"
    "mask_to_width (a - b) sgnd bits = erased sgnd bits (int_value sgnd a - int_value sgnd b)"
    "mask_to_width (a * b) sgnd bits = erased sgnd bits (int_value sgnd a * int_value sgnd b)"
  using mask_erased [OF assms, of "int_value sgnd a + int_value sgnd b" sgnd]
    mask_erased [OF assms, of "int_value sgnd a - int_value sgnd b" sgnd]
    mask_erased [OF assms, of "int_value sgnd a * int_value sgnd b" sgnd] by simp_all

lemma truncating_nonneg:
  fixes x y :: int
  assumes "0 \<le> x" and "0 \<le> y"
  shows "x sdiv y = x div y" "x smod y = x mod y"
  using assms by (auto simp: signed_divide_int_def signed_modulo_int_def sgn_if)

lemma unsigned_division:
  "a div b = (word_of_int (uint a sdiv uint b) :: i64)" "a mod b = (word_of_int (uint a smod uint b) :: i64)"
  using truncating_nonneg [of "uint a" "uint b"] by (simp_all add: word_div_def word_mod_def)

lemma div_in_width: "in_width sgnd bits x \<Longrightarrow> in_width sgnd bits (x div 2 ^ n)"
proof -
  assume x: "in_width sgnd bits x"
  have "0 \<le> x div 2 ^ n \<and> x div 2 ^ n \<le> x" if "0 \<le> x"
    using that zdiv_mono2 [of x 1 "2 ^ n"] by (simp add: pos_imp_zdiv_nonneg_iff)
  moreover have "x \<le> x div 2 ^ n \<and> x div 2 ^ n < 0" if "x < 0"
  proof -
    have "x * 2 ^ n \<le> x * 1" using that by (intro mult_left_mono_neg) auto
    then have "x \<le> x div 2 ^ n" using zdiv_mono1 [of "x * 2 ^ n" x "2 ^ n"] by simp
    then show ?thesis using that by (simp add: div_neg_pos_less0)
  qed
  ultimately show ?thesis using x by (cases "0 \<le> x") (auto simp: in_width_def int_width_range_def split: if_splits)
qed

lemma shifted_right:
  assumes "0 < bits" and "bits \<le> 64" and "fits_width sgnd bits a"
  shows "(if sgnd then signed_drop_bit n a else drop_bit n a) = erased sgnd bits (int_value sgnd a div 2 ^ n)"
proof -
  have "take_bit 64 (uint a) = uint a" using unsigned_less [of a, where ?'a = int] by (intro take_bit_int_eq_self) simp_all
  then have "uint (drop_bit n a) = drop_bit n (uint a)" by (simp add: unsigned_drop_bit_eq)
  then have "int_value sgnd (if sgnd then signed_drop_bit n a else drop_bit n a) = drop_bit n (int_value sgnd a)"
    by (simp add: int_value_def sint_signed_drop_bit_eq)
  then have "int_value sgnd (if sgnd then signed_drop_bit n a else drop_bit n a) = int_value sgnd a div 2 ^ n"
    by (simp only: drop_bit_eq_div)
  then have "(if sgnd then signed_drop_bit n a else drop_bit n a) = word_of_int (int_value sgnd a div 2 ^ n)"
    by (metis word_of_int_value)
  then show ?thesis
    using wrap_id [OF assms(1) div_in_width] assms(3) by (simp add: erased_def fits_width_def)
qed

text \<open>
  C28: the erased operators implement fixed-width arithmetic. On operands that fit an integer type, masking
  the 64-bit sum, difference or product, and the wide forms of division, remainder, comparison and right
  shift, give the word that stands for the mathematical result wrapped to the type (division truncates
  towards zero, so the least signed value divided by -1 wraps to itself); division by zero and a shift
  count outside 0 to 63 are the only errors.
\<close>

theorem fixed_width_arithmetic:
  assumes "bits \<in> {8, 16, 32, 64}" and "fits_width sgnd bits a" and "fits_width sgnd bits b"
  shows "(opr \<in> {OpAdd, OpSub, OpMul} \<longrightarrow>
      masked sgnd bits (int_arithmetic opr a b) = width_op sgnd bits opr (int_value sgnd a) (int_value sgnd b)) \<and>
    (opr \<in> {OpDiv, OpRem, OpLt, OpLe, OpGt, OpGe} \<longrightarrow>
      apply_binary_wide opr a b sgnd bits = width_op sgnd bits opr (int_value sgnd a) (int_value sgnd b)) \<and>
    apply_binary_wide OpShr a c sgnd bits =
      Some (if shift_in_range c then Inr (IntResult (erased sgnd bits (int_value sgnd a div 2 ^ nat (sint c)))) else Inl (ShiftOutOfRange c))"
proof (intro conjI)
  have b: "0 < bits" "bits \<le> 64" using assms(1) by auto
  show "opr \<in> {OpAdd, OpSub, OpMul} \<longrightarrow>
      masked sgnd bits (int_arithmetic opr a b) = width_op sgnd bits opr (int_value sgnd a) (int_value sgnd b)"
    using masked_arithmetic [OF b] by auto
  show "opr \<in> {OpDiv, OpRem, OpLt, OpLe, OpGt, OpGe} \<longrightarrow>
      apply_binary_wide opr a b sgnd bits = width_op sgnd bits opr (int_value sgnd a) (int_value sgnd b)"
  proof (cases sgnd)
    case True
    then show ?thesis using int_value_zero [of True b]
      by (auto simp: apply_binary_wide_def wrapping_div_def wrapping_rem_def mask_erased [OF b] int_value_def)
  next
    case False
    then show ?thesis using int_value_zero [of False b] mask_erased [OF b, of _ False]
      by (auto simp: apply_binary_wide_def unsigned_division int_value_def word_less_def word_le_def)
  qed
  show "apply_binary_wide OpShr a c sgnd bits =
      Some (if shift_in_range c then Inr (IntResult (erased sgnd bits (int_value sgnd a div 2 ^ nat (sint c)))) else Inl (ShiftOutOfRange c))"
    using shifted_right [OF b assms(2)] by (simp add: apply_binary_wide_def)
qed

theorem fixed_width_arithmetic_witness:
  "fits_width True 8 (- 128) \<and> apply_binary_wide OpDiv (- 128) (- 1) True 8 = Some (Inr (IntResult (- 128))) \<and>
   masked True 8 (int_arithmetic OpAdd 100 100) = Some (Inr (IntResult (- 56)))"
  using fixed_width_arithmetic [of 8 True "- 128" "- 1" OpDiv] fixed_width_arithmetic [of 8 True 100 100 OpAdd]
  by (simp add: fits_width_def in_width_def int_width_range_def int_value_def erased_def wrap_def)

section \<open>Bit intrinsics\<close>

text \<open>The intrinsics on the list of bits of a width, the lowest first.\<close>

definition pattern :: "nat \<Rightarrow> i64 \<Rightarrow> bool list" where
  "pattern bits w = map (bit w) [0..<bits]"

definition byte_list :: "bool list \<Rightarrow> bool list list" where
  "byte_list p = map (\<lambda>k. take 8 (drop (8 * k) p)) [0..<length p div 8]"

fun pattern_method :: "bool list \<Rightarrow> int_method \<Rightarrow> int \<Rightarrow> (bool list + nat) option" where
  "pattern_method p CountOnes n = Some (Inr (length (filter id p)))"
| "pattern_method p CountZeros n = Some (Inr (length (filter Not p)))"
| "pattern_method p LeadingZeros n = Some (Inr (length (takeWhile Not (rev p))))"
| "pattern_method p TrailingZeros n = Some (Inr (length (takeWhile Not p)))"
| "pattern_method p RotateLeft n = Some (Inl (rotate (nat (- n mod int (length p))) p))"
| "pattern_method p RotateRight n = Some (Inl (rotate (nat (n mod int (length p))) p))"
| "pattern_method p ReverseBits n = Some (Inl (rev p))"
| "pattern_method p SwapBytes n = Some (Inl (concat (rev (byte_list p))))"
| "pattern_method p _ n = None"

fun encode :: "bool list + nat \<Rightarrow> i64" where
  "encode (Inl p) = horner_sum of_bool 2 p"
| "encode (Inr n) = of_nat n"

lemma encode_eqI: "length p \<le> 64 \<Longrightarrow> (\<And>i. i < 64 \<Longrightarrow> bit w i \<longleftrightarrow> i < length p \<and> p ! i) \<Longrightarrow> w = encode (Inl p)"
  by (intro bit_word_eqI) (simp add: bit_horner_sum_bit_iff)

lemma length_pattern [simp]: "length (pattern bits w) = bits"
  by (simp add: pattern_def)

lemma nth_pattern [simp]: "i < bits \<Longrightarrow> pattern bits w ! i = bit w i"
  by (simp add: pattern_def)

text \<open>\<open>v\<close> holds the lowest \<open>bits\<close> bits of \<open>w\<close>.\<close>

definition low_bits :: "nat \<Rightarrow> i64 \<Rightarrow> i64 \<Rightarrow> bool" where
  "low_bits bits w v = (bits \<le> 64 \<and> (\<forall>i. bit v i \<longleftrightarrow> i < bits \<and> bit w i))"

lemma low_bits_mask: "bits < 64 \<Longrightarrow> low_bits bits w (w AND (push_bit bits 1 - 1))"
  by (auto simp: low_bits_def bit_and_iff push_bit_of_1 mask_eq_exp_minus_1 [symmetric] bit_mask_iff)

lemma low_bits_self: "low_bits 64 w w"
  by (auto simp: low_bits_def dest: bit_imp_le_length)

lemma upt_64: "bits \<le> 64 \<Longrightarrow> [0..<64] = [0..<bits] @ [bits..<64]"
  using upt_add_eq_append [of 0 bits "64 - bits"] by simp

lemma low_counts:
  assumes "low_bits bits w v"
  shows "count_ones v = length (filter id (pattern bits w))" "leading_zeros v = 64 - bits + length (takeWhile Not (rev (pattern bits w)))"
    "v \<noteq> 0 \<Longrightarrow> trailing_zeros v = length (takeWhile Not (pattern bits w))"
proof -
  have b: "bits \<le> 64" and v: "\<And>i. bit v i \<longleftrightarrow> i < bits \<and> bit w i" using assms by (auto simp: low_bits_def)
  show "count_ones v = length (filter id (pattern bits w))"
  proof -
    have "filter (bit v) [0..<bits] = filter (bit w) [0..<bits]" by (rule filter_cong [OF refl]) (simp add: v)
    moreover have "filter (bit v) [bits..<64] = []" by (simp add: filter_empty_conv v)
    ultimately show ?thesis unfolding count_ones_def upt_64 [OF b] pattern_def filter_map by (simp add: o_def id_def)
  qed
  have "takeWhile (\<lambda>i. \<not> bit v i) (rev [bits..<64] @ rev [0..<bits]) = rev [bits..<64] @ takeWhile (\<lambda>i. \<not> bit v i) (rev [0..<bits])"
    by (rule takeWhile_append2) (simp add: v)
  moreover have "takeWhile (\<lambda>i. \<not> bit v i) (rev [0..<bits]) = takeWhile (\<lambda>i. \<not> bit w i) (rev [0..<bits])"
    by (rule takeWhile_cong) (simp_all add: v)
  ultimately show "leading_zeros v = 64 - bits + length (takeWhile Not (rev (pattern bits w)))"
    unfolding leading_zeros_def upt_64 [OF b] rev_append pattern_def rev_map takeWhile_map by (simp only: o_def length_append length_map length_rev length_upt)
  show "trailing_zeros v = length (takeWhile Not (pattern bits w))" if "v \<noteq> 0"
  proof -
    have "\<exists>i. bit v i" 
    proof (rule ccontr)
      assume "\<not> (\<exists>i. bit v i)"
      then have "v = 0" by (intro bit_word_eqI) simp
      with that show False by simp
    qed
    then obtain i where "bit v i" by blast
    then have "takeWhile (\<lambda>i. \<not> bit v i) ([0..<bits] @ [bits..<64]) = takeWhile (\<lambda>i. \<not> bit v i) [0..<bits]"
      using v by (intro takeWhile_append1 [of i]) auto
    moreover have "takeWhile (\<lambda>i. \<not> bit v i) [0..<bits] = takeWhile (\<lambda>i. \<not> bit w i) [0..<bits]"
      by (rule takeWhile_cong) (simp_all add: v)
    ultimately show ?thesis unfolding trailing_zeros_def upt_64 [OF b] pattern_def takeWhile_map by (simp only: o_def length_map)
  qed
qed

lemma low_rotate_left:
  assumes v: "low_bits bits w v" and n: "n = nat (k mod int bits)" and b: "0 < bits"
    and r: "\<And>i. i < 64 \<Longrightarrow> bit r i \<longleftrightarrow> i < bits \<and> (if n = 0 then bit v i else n \<le> i \<and> bit v (i - n) \<or> bit v (i + (bits - n)))"
  shows "r = encode (Inl (rotate (nat (- k mod int bits)) (pattern bits w)))"
proof (rule encode_eqI)
  show "length (rotate (nat (- k mod int bits)) (pattern bits w)) \<le> 64" using v by (simp add: low_bits_def)
  have nb: "n < bits" using b by (simp add: n nat_less_iff)
  have m: "nat (- k mod int bits) = (if n = 0 then 0 else bits - n)"
  proof -
    have "0 \<le> k mod int bits" using b by simp
    then show ?thesis unfolding n zmod_zminus1_eq_if by (auto simp: nat_diff_distrib)
  qed
  fix i :: nat assume i: "i < 64"
  show "bit r i \<longleftrightarrow> i < length (rotate (nat (- k mod int bits)) (pattern bits w)) \<and> rotate (nat (- k mod int bits)) (pattern bits w) ! i"
  proof (cases "i < bits")
    case True
    have "(i + (bits - n)) mod bits = (if n \<le> i then i - n else i + (bits - n))" if "n \<noteq> 0"
    proof (cases "n \<le> i")
      case False
      then show ?thesis using True by simp
    next
      case le: True
      then have "i + (bits - n) = (i - n) + bits" using nb by simp
      then have "(i + (bits - n)) mod bits = (i - n) mod bits" by (simp only: mod_add_self2)
      then show ?thesis using le True by simp
    qed
    moreover have v': "bit v j \<longleftrightarrow> j < bits \<and> bit w j" for j using v by (simp add: low_bits_def)
    moreover have "i - n < bits" "i + (bits - n) < bits \<longleftrightarrow> \<not> n \<le> i" using True nb by auto
    moreover have "rotate (nat (- k mod int bits)) (pattern bits w) ! i = bit w ((i + (if n = 0 then 0 else bits - n)) mod bits)"
      using True b by (simp add: m nth_rotate add.commute)
    ultimately show ?thesis using True r [OF i] by (cases "n = 0"; cases "n \<le> i") simp_all
  qed (use r [OF i] in simp)
qed

lemma low_rotate_right:
  assumes v: "low_bits bits w v" and n: "n = nat (k mod int bits)" and b: "0 < bits"
    and r: "\<And>i. i < 64 \<Longrightarrow> bit r i \<longleftrightarrow> i < bits \<and> (if n = 0 then bit v i else bit v (i + n) \<or> bits - n \<le> i \<and> bit v (i - (bits - n)))"
  shows "r = encode (Inl (rotate (nat (k mod int bits)) (pattern bits w)))"
proof (rule encode_eqI)
  show "length (rotate (nat (k mod int bits)) (pattern bits w)) \<le> 64" using v by (simp add: low_bits_def)
  have nb: "n < bits" using b by (simp add: n nat_less_iff)
  fix i :: nat assume i: "i < 64"
  show "bit r i \<longleftrightarrow> i < length (rotate (nat (k mod int bits)) (pattern bits w)) \<and> rotate (nat (k mod int bits)) (pattern bits w) ! i"
  proof (cases "i < bits")
    case True
    have e: "rotate (nat (k mod int bits)) (pattern bits w) ! i = bit w ((i + n) mod bits)"
      using True nb by (simp add: n [symmetric] nth_rotate add.commute)
    have "(i + n) mod bits = (if i + n < bits then i + n else i - (bits - n))"
    proof (cases "i + n < bits")
      case False
      then have "i + n = (i - (bits - n)) + bits" using nb by simp
      then have "(i + n) mod bits = (i - (bits - n)) mod bits" by (simp only: mod_add_self2)
      also have "\<dots> = i - (bits - n)" using True by (intro mod_less) simp
      finally show ?thesis using False by simp
    qed simp
    moreover have v': "bit v j \<longleftrightarrow> j < bits \<and> bit w j" for j using v by (simp add: low_bits_def)
    moreover have "bits - n \<le> i \<longleftrightarrow> \<not> i + n < bits" "i - (bits - n) < bits" using True nb by auto
    ultimately show ?thesis using True r [OF i] unfolding e v' by (cases "n = 0"; cases "i + n < bits") simp_all
  qed (use r [OF i] in simp)
qed

lemma bit_bytes_reversed:
  "i < 64 \<Longrightarrow> bit (reverse_bits w) i = bit w (63 - i)" "i < 64 \<Longrightarrow> bit (swap_bytes w) i = bit w (8 * (7 - i div 8) + i mod 8)"
  by (simp_all add: reverse_bits_def swap_bytes_def bit_horner_sum_bit_iff del: upt_rec_numeral)

lemma low_reverse:
  assumes "low_bits bits w v" and "0 < bits"
  shows "drop_bit (64 - bits) (reverse_bits v) = encode (Inl (rev (pattern bits w)))"
proof (rule encode_eqI)
  fix i :: nat assume i: "i < 64"
  show "bit (drop_bit (64 - bits) (reverse_bits v)) i \<longleftrightarrow> i < length (rev (pattern bits w)) \<and> rev (pattern bits w) ! i"
  proof (cases "i < bits")
    case True
    then have "bit (drop_bit (64 - bits) (reverse_bits v)) i = bit v (bits - Suc i)"
      using assms by (simp add: bit_drop_bit_eq bit_bytes_reversed low_bits_def algebra_simps Suc_diff_Suc)
    then show ?thesis using True assms by (simp add: low_bits_def rev_nth)
  next
    case False
    then have "\<not> bit (reverse_bits v) (64 - bits + i)" using assms by (auto dest!: bit_imp_le_length simp: low_bits_def)
    then show ?thesis using False by (simp add: bit_drop_bit_eq)
  qed
qed (use assms in \<open>simp add: low_bits_def\<close>)

lemma nth_swapped:
  assumes "length p = 8 * n" and "i < 8 * n"
  shows "concat (rev (byte_list p)) ! i = p ! (8 * (n - 1 - i div 8) + i mod 8)" and "length (concat (rev (byte_list p))) = 8 * n"
proof -
  have l: "length (take 8 (drop (8 * k) p)) = 8" if "k < n" for k using that assms(1) by simp
  have rl: "rev (byte_list p) = map (\<lambda>j. take 8 (drop (8 * (n - 1 - j)) p)) [0..<n]"
    using assms(1) by (auto simp: byte_list_def rev_map [symmetric] intro!: nth_equalityI simp: rev_nth)
  have g: "length (concat (map f [0..<m])) = 8 * m \<and> (\<forall>i < 8 * m. concat (map f [0..<m]) ! i = f (i div 8) ! (i mod 8))"
    if "\<And>j. j < m \<Longrightarrow> length (f j) = 8" for f :: "nat \<Rightarrow> bool list" and m
    using that
  proof (induction m)
    case (Suc m)
    then have ih: "length (concat (map f [0..<m])) = 8 * m" "\<And>i. i < 8 * m \<Longrightarrow> concat (map f [0..<m]) ! i = f (i div 8) ! (i mod 8)"
      by auto
    have "i div 8 = m \<and> i mod 8 = i - 8 * m" if "8 * m \<le> i" "i < 8 * Suc m" for i
    proof -
      have "i div 8 = m" using that by (intro div_nat_eqI) auto
      then show ?thesis using div_mult_mod_eq [of i 8] by simp
    qed
    then show ?case using ih Suc.prems by (auto simp: nth_append)
  qed simp
  have f: "length (take 8 (drop (8 * (n - 1 - j)) p)) = 8" if "j < n" for j using l [of "n - 1 - j"] that by simp
  have "i div 8 < n" "i mod 8 < 8" using assms(2) by (auto simp: div_less_iff_less_mult)
  with g [OF f, of n] assms show "concat (rev (byte_list p)) ! i = p ! (8 * (n - 1 - i div 8) + i mod 8)"
    "length (concat (rev (byte_list p))) = 8 * n" unfolding rl by auto
qed

lemma low_swap:
  assumes "low_bits (8 * n) w v" and "0 < n"
  shows "drop_bit (64 - 8 * n) (swap_bytes v) = encode (Inl (concat (rev (byte_list (pattern (8 * n) w)))))"
proof (rule encode_eqI)
  let ?q = "concat (rev (byte_list (pattern (8 * n) w)))"
  have n: "n \<le> 8" and v: "\<And>j. bit v j \<longleftrightarrow> j < 8 * n \<and> bit w j" using assms(1) by (auto simp: low_bits_def)
  have q: "length ?q = 8 * n" "\<And>i. i < 8 * n \<Longrightarrow> ?q ! i = pattern (8 * n) w ! (8 * (n - 1 - i div 8) + i mod 8)"
    using nth_swapped(2) [of "pattern (8 * n) w" n 0] nth_swapped(1) [of "pattern (8 * n) w" n] assms(2) by simp_all
  then show "length ?q \<le> 64" using n by simp
  fix i :: nat assume i: "i < 64"
  show "bit (drop_bit (64 - 8 * n) (swap_bytes v)) i \<longleftrightarrow> i < length ?q \<and> ?q ! i"
  proof (cases "i < 8 * n")
    case True
    let ?k = "8 * (n - 1 - i div 8) + i mod 8"
    have d: "i div 8 < n" using True by (simp add: div_less_iff_less_mult)
    have "64 - 8 * n + i = 8 * (8 - n) + (8 * (i div 8) + i mod 8)" by (simp add: diff_mult_distrib2)
    then have "64 - 8 * n + i = 8 * (8 - n + i div 8) + i mod 8" by (simp only: add_mult_distrib2 add.assoc)
    then have "(64 - 8 * n + i) div 8 = 8 - n + i div 8" "(64 - 8 * n + i) mod 8 = i mod 8" by simp_all
    moreover have "7 - (8 - n + i div 8) = n - 1 - i div 8" using n by simp
    moreover have "64 - 8 * n + i < 64" using True n by simp
    ultimately have "bit (drop_bit (64 - 8 * n) (swap_bytes v)) i = bit v ?k"
      by (simp only: bit_drop_bit_eq o_def bit_bytes_reversed(2))
    moreover have "?k < 8 * n"
    proof -
      have "i mod 8 < 8" "n - 1 - i div 8 \<le> n - 1" by simp_all
      then show ?thesis using assms(2) by linarith
    qed
    ultimately show ?thesis using True v unfolding q(1) by (simp add: q(2))
  next
    case False
    then have "\<not> bit (swap_bytes v) (64 - 8 * n + i)" using n by (auto dest!: bit_imp_le_length)
    then show ?thesis using False unfolding q(1) by (simp add: bit_drop_bit_eq)
  qed
qed

lemma low_zero: "low_bits bits w 0 \<Longrightarrow> length (takeWhile Not (pattern bits w)) = bits"
proof -
  assume "low_bits bits w 0"
  then have "takeWhile Not (pattern bits w) = pattern bits w"
    by (auto simp: low_bits_def pattern_def takeWhile_eq_all_conv)
  then show ?thesis by (simp only: length_pattern)
qed

lemma trailing_zeros_0: "trailing_zeros 0 = 64"
proof -
  have "takeWhile (\<lambda>i. \<not> bit (0 :: i64) i) [0..<64] = [0..<64]" by (simp only: takeWhile_eq_all_conv) simp
  then show ?thesis by (simp only: trailing_zeros_def length_upt)
qed

lemma rotate_amount: "unat ((arg :: i64) AND 63) = nat (sint arg mod 64)"
proof -
  have "arg AND 63 = take_bit 6 arg" by (simp add: take_bit_eq_mask mask_numeral)
  then have "uint (arg AND 63) = take_bit 6 (uint arg)" by (simp only: unsigned_take_bit_eq)
  then have "uint (arg AND 63) = uint arg mod 64" by (simp add: take_bit_eq_mod)
  moreover have "uint arg mod 64 = sint arg mod 64"
  proof -
    have "take_bit 6 (signed_take_bit 63 (uint arg)) = take_bit 6 (uint arg)" by (rule take_bit_signed_take_bit) simp
    then show ?thesis by (simp add: sint_uint take_bit_eq_mod)
  qed
  ultimately show ?thesis by (metis unat_eq_nat_uint)
qed

lemma filter_Not: "length (filter Not p) = length p - length (filter id p)"
  using sum_length_filter_compl [of id p] by simp

lemma takeWhile_bound: "length (takeWhile Not (rev (pattern bits w))) \<le> bits"
  using length_takeWhile_le [of Not "rev (pattern bits w)"] by simp

lemma narrow_intrinsics:
  assumes "bits = 8 * n" and "0 < n" and "bits < 64"
    and "m \<in> {CountOnes, CountZeros, LeadingZeros, TrailingZeros, RotateLeft, RotateRight, ReverseBits, SwapBytes}"
  shows "int_method_width recv m arg bits = map_option encode (pattern_method (pattern bits recv) m (sint arg))"
proof -
  define msk v where "msk = (push_bit bits 1 - 1 :: i64)" and "v = recv AND msk"
  have low: "low_bits bits recv v" unfolding v_def msk_def by (rule low_bits_mask [OF assms(3)])
  have b: "0 < bits" using assms by simp
  have msk: "bit msk i \<longleftrightarrow> i < bits" if "i < 64" for i
    using that by (simp add: msk_def mask_eq_exp_minus_1 [symmetric] bit_mask_iff)
  define k where "k = nat (sint arg mod int bits)"
  have k: "k < bits" using b by (simp add: k_def nat_less_iff)
  have l: "(if k = 0 then v else (push_bit k v OR drop_bit (bits - k) v) AND msk) = encode (Inl (rotate (nat (- sint arg mod int bits)) (pattern bits recv)))"
    by (rule low_rotate_left [OF low k_def b])
      (use msk low k in \<open>auto simp: bit_and_iff bit_or_iff bit_push_bit_iff bit_drop_bit_eq low_bits_def algebra_simps\<close>)
  have r: "(if k = 0 then v else (drop_bit k v OR push_bit (bits - k) v) AND msk) = encode (Inl (rotate (nat (sint arg mod int bits)) (pattern bits recv)))"
    by (rule low_rotate_right [OF low k_def b])
      (use msk low k in \<open>auto simp: bit_and_iff bit_or_iff bit_push_bit_iff bit_drop_bit_eq low_bits_def algebra_simps\<close>)
  have t: "(if v = 0 then bits else trailing_zeros v) = length (takeWhile Not (pattern bits recv))"
    using low_zero [of bits recv] low low_counts(3) [OF low] by (cases "v = 0") simp_all
  have z: "bits - (64 - leading_zeros v) = length (takeWhile Not (rev (pattern bits recv)))"
    using low_counts(2) [OF low] takeWhile_bound [of bits recv] assms(3) by simp
  have sw: "drop_bit (64 - bits) (swap_bytes v) = encode (Inl (concat (rev (byte_list (pattern bits recv)))))"
    using low_swap [of n recv v] low assms(1,2) by simp
  have w: "int_method_width recv m arg bits = int_method_narrow bits msk v m arg"
    using assms(3) by (simp add: int_method_width_def Let_def msk_def v_def)
  note facts = low_counts(1) [OF low] low_reverse [OF low b] sw l r t z filter_Not length_pattern
  show ?thesis
    using assms(4) unfolding w
    by (elim insertE emptyE) (simp_all only: int_method_narrow.simps pattern_method.simps option.map facts encode.simps Let_def k_def [symmetric])
qed

lemma full_intrinsics:
  assumes "m \<in> {CountOnes, CountZeros, LeadingZeros, TrailingZeros, RotateLeft, RotateRight, ReverseBits, SwapBytes}"
  shows "int_method_width recv m arg 64 = map_option encode (pattern_method (pattern 64 recv) m (sint arg))"
proof -
  note low = low_bits_self [of recv]
  define k where "k = nat (sint arg mod int 64)"
  have k: "k < 64" by (simp add: k_def nat_less_iff)
  have a: "unat (arg AND 63) = k" using rotate_amount [of arg] by (simp add: k_def)
  have hi: "\<not> bit recv i" if "64 \<le> i" for i using that by (auto dest: bit_imp_le_length)
  have l: "rotate_left recv k = encode (Inl (rotate (nat (- sint arg mod int 64)) (pattern 64 recv)))"
    by (rule low_rotate_left [OF low k_def])
      (use k in \<open>auto simp: rotate_left_def bit_or_iff bit_push_bit_iff bit_drop_bit_eq algebra_simps\<close>)
  have r: "rotate_right recv k = encode (Inl (rotate (nat (sint arg mod int 64)) (pattern 64 recv)))"
    by (rule low_rotate_right [OF low k_def])
      (use k in \<open>auto simp: rotate_right_def bit_or_iff bit_push_bit_iff bit_drop_bit_eq algebra_simps\<close>)
  have t: "trailing_zeros recv = length (takeWhile Not (pattern 64 recv))"
    using low_zero [of 64 recv] low low_counts(3) [OF low] trailing_zeros_0 by (cases "recv = 0") simp_all
  have z: "leading_zeros recv = length (takeWhile Not (rev (pattern 64 recv)))" using low_counts(2) [OF low] by simp
  have rv: "reverse_bits recv = encode (Inl (rev (pattern 64 recv)))" using low_reverse [OF low] by simp
  have sw: "swap_bytes recv = encode (Inl (concat (rev (byte_list (pattern 64 recv)))))" using low_swap [of 8 recv recv] low by simp
  have w: "int_method_width recv m arg 64 = int_method_apply recv m arg" by (simp add: int_method_width_def)
  note facts = low_counts(1) [OF low] rv sw l r t z filter_Not length_pattern a
  show ?thesis
    using assms unfolding w
    by (elim insertE emptyE) (simp_all only: int_method_apply.simps pattern_method.simps option.map facts encode.simps)
qed

text \<open>
  C30: the bit intrinsics act on the bits of the receiver's width. On a receiver of 8, 16, 32 or 64 bits each
  intrinsic is the obvious operation on the list of those bits (count, run of zeros, cyclic rotation by
  any signed amount, reversal, reversal of the bytes), and its result is that list read as an unsigned
  number: nothing above the width leaks in or out.
\<close>

theorem width_intrinsics_reference:
  assumes "bits \<in> {8, 16, 32, 64}"
    and "m \<in> {CountOnes, CountZeros, LeadingZeros, TrailingZeros, RotateLeft, RotateRight, ReverseBits, SwapBytes}"
  shows "int_method_width recv m arg bits = map_option encode (pattern_method (pattern bits recv) m (sint arg))"
  using assms(1) narrow_intrinsics [OF _ _ _ assms(2), of bits "bits div 8" recv arg] full_intrinsics [OF assms(2), of recv arg]
  by auto

theorem width_intrinsics_reference_witness:
  "int_method_width 1 LeadingZeros 0 8 = Some 7 \<and> int_method_width 0x80 RotateLeft 1 8 = Some 1"
  using width_intrinsics_reference [of 8 LeadingZeros 1 0] width_intrinsics_reference [of 8 RotateLeft "0x80" 1]
  by (simp add: pattern_def rotate_def bit_numeral_rec numeral_eq_Suc)

end
