(* ===== verification/Pretty_Doc.thy ===== *)
theory Pretty_Doc
  imports Source_Span
begin

text \<open>
  The layout engine of the formatter (\<open>crates/noeta-fmt/src/doc.rs\<close>): documents, the test whether the rest
  of a line fits, and the renderer with its work stack. A string is its UTF-8 bytes; the stack is a list
  with its top first; columns and indents are mathematical integers (\<open>isize\<close> in the code).
\<close>

section \<open>Documents\<close>

datatype doc =
    DocNil
  | Text "u8 list"
  | RawText "u8 list"
  | Line
  | SoftLine
  | HardLine
  | Concat "doc list"
  | Nest int doc
  | Group doc
  | IfBreak doc

abbreviation newline_byte :: u8 where
  "newline_byte \<equiv> 10"

definition has_newline :: "u8 list \<Rightarrow> bool" where
  "has_newline s = (newline_byte \<in> set s)"

text \<open>\<open>None\<close> is the failing \<open>debug_assert\<close>.\<close>

definition doc_text :: "u8 list \<Rightarrow> doc option" where
  "doc_text s = (if has_newline s then None else Some (Text s))"

fun doc_join_from :: "doc list \<Rightarrow> doc \<Rightarrow> doc list" where
  "doc_join_from [] sep = []"
| "doc_join_from (d # ds) sep = sep # d # doc_join_from ds sep"

fun doc_join :: "doc list \<Rightarrow> doc \<Rightarrow> doc" where
  "doc_join [] sep = Concat []"
| "doc_join (d # ds) sep = Concat (d # doc_join_from ds sep)"

fun never_breaks :: "doc \<Rightarrow> bool" where
  "never_breaks DocNil = True"
| "never_breaks (Text s) = True"
| "never_breaks (RawText s) = (\<not> has_newline s)"
| "never_breaks Line = False"
| "never_breaks SoftLine = False"
| "never_breaks HardLine = False"
| "never_breaks (Concat ds) = list_all never_breaks ds"
| "never_breaks (Nest n d) = never_breaks d"
| "never_breaks (Group d) = never_breaks d"
| "never_breaks (IfBreak d) = False"

section \<open>Rendering\<close>

datatype mode = Flat | Break

definition width_of :: "u8 list \<Rightarrow> int" where
  "width_of s = int (chars_count s)"

record indent_style =
  is_width :: nat
  is_tabs :: bool

definition default_indent :: indent_style where
  "default_indent = \<lparr>is_width = 4, is_tabs = False\<rparr>"

text \<open>A negative indent writes no spaces; cast to \<open>usize\<close> for tabs it wraps.\<close>

definition new_line :: "int \<Rightarrow> indent_style \<Rightarrow> u8 list" where
  "new_line indent style =
     newline_byte #
       (if is_tabs style \<and> 0 < is_width style then replicate (nat (indent mod 2 ^ 64) div is_width style) 9
        else replicate (nat indent) 32)"

type_synonym work = "(int \<times> mode \<times> doc) list"

fun work_size :: "work \<Rightarrow> nat" where
  "work_size [] = 0"
| "work_size ((indent, m, d) # st) = Suc (size d) + work_size st"

lemma work_size_append [simp]: "work_size (xs @ ys) = work_size xs + work_size ys"
  by (induction xs rule: work_size.induct) simp_all

lemma work_size_concat [simp]: "work_size (map (\<lambda>d. (indent, m, d)) ds) = size_list size ds"
  by (induction ds) simp_all

function fits :: "int \<Rightarrow> work \<Rightarrow> work \<Rightarrow> bool" where
  "fits remaining [] [] = (0 \<le> remaining)"
| "fits remaining [] (item # rest) = (0 \<le> remaining \<and> fits remaining [item] rest)"
| "fits remaining ((indent, m, d) # local) rest =
     (if remaining < 0 then False
      else case d of
        DocNil \<Rightarrow> fits remaining local rest
      | Text s \<Rightarrow> fits (remaining - width_of s) local rest
      | RawText s \<Rightarrow> if has_newline s then m = Break else fits (remaining - width_of s) local rest
      | Concat ds \<Rightarrow> fits remaining (map (\<lambda>d. (indent, m, d)) ds @ local) rest
      | Nest n d \<Rightarrow> fits remaining ((indent + n, m, d) # local) rest
      | Line \<Rightarrow> (case m of Flat \<Rightarrow> fits (remaining - 1) local rest | Break \<Rightarrow> True)
      | SoftLine \<Rightarrow> (case m of Flat \<Rightarrow> fits remaining local rest | Break \<Rightarrow> True)
      | HardLine \<Rightarrow> (case m of Flat \<Rightarrow> False | Break \<Rightarrow> True)
      | Group d \<Rightarrow> fits remaining ((indent, Flat, d) # local) rest
      | IfBreak d \<Rightarrow> if m = Break then fits remaining ((indent, m, d) # local) rest else fits remaining local rest)"
  by pat_completeness auto
termination
  by (relation "measures [\<lambda>(r, local, rest). work_size local + work_size rest, \<lambda>(r, local, rest). length rest]")
    (auto split: prod.splits)

definition raw_col :: "int \<Rightarrow> u8 list \<Rightarrow> int" where
  "raw_col column s = (if has_newline s then width_of (rev (takeWhile (\<lambda>b. b \<noteq> newline_byte) (rev s))) else column + width_of s)"

function render_loop ::
  "int \<Rightarrow> indent_style \<Rightarrow> u8 list \<Rightarrow> (nat \<times> nat) list \<Rightarrow> int \<Rightarrow> work \<Rightarrow> u8 list \<times> (nat \<times> nat) list" where
  "render_loop width style out prot column [] = (out, prot)"
| "render_loop width style out prot column ((indent, m, d) # st) =
     (case d of
        DocNil \<Rightarrow> render_loop width style out prot column st
      | Text s \<Rightarrow> render_loop width style (out @ s) prot (column + width_of s) st
      | RawText s \<Rightarrow> render_loop width style (out @ s) (prot @ [(length out, length (out @ s))]) (raw_col column s) st
      | Concat ds \<Rightarrow> render_loop width style out prot column (map (\<lambda>d. (indent, m, d)) ds @ st)
      | Nest n d \<Rightarrow> render_loop width style out prot column ((indent + n, m, d) # st)
      | Line \<Rightarrow> (case m of
            Flat \<Rightarrow> render_loop width style (out @ [32]) prot (column + 1) st
          | Break \<Rightarrow> render_loop width style (out @ new_line indent style) prot indent st)
      | SoftLine \<Rightarrow> (case m of
            Flat \<Rightarrow> render_loop width style out prot column st
          | Break \<Rightarrow> render_loop width style (out @ new_line indent style) prot indent st)
      | HardLine \<Rightarrow> render_loop width style (out @ new_line indent style) prot indent st
      | Group d \<Rightarrow>
          render_loop width style out prot column
            ((indent, if fits (width - column) [(indent, Flat, d)] st then Flat else Break, d) # st)
      | IfBreak d \<Rightarrow>
          if m = Break then render_loop width style out prot column ((indent, m, d) # st)
          else render_loop width style out prot column st)"
  by pat_completeness auto
termination
  by (relation "measure (\<lambda>(w, style, out, prot, column, st). work_size st)") auto

definition render_protected :: "doc \<Rightarrow> nat \<Rightarrow> indent_style \<Rightarrow> u8 list \<times> (nat \<times> nat) list" where
  "render_protected d width style = render_loop (int width) style [] [] 0 [(0, Break, d)]"

definition render :: "doc \<Rightarrow> nat \<Rightarrow> u8 list" where
  "render d width = fst (render_protected d width default_indent)"

end
