(* ===== verification/Pretty_Doc_Laws.thy ===== *)
theory Pretty_Doc_Laws
  imports Pretty_Doc
begin

text \<open>
  The renderer chooses one of the layouts a document allows, a group it lays out flat stays within the
  width, and what it reports as verbatim is exactly the verbatim text.
\<close>

section \<open>Layouts\<close>

text \<open>
  The layouts of a document, as pieces of output. A flat group is flat throughout: it has no hard break
  and no verbatim text with a line break, and its inner groups are flat too.
\<close>

datatype piece = Plain "u8 list" | Verbatim "u8 list"

fun piece_text :: "piece \<Rightarrow> u8 list" where
  "piece_text (Plain s) = s"
| "piece_text (Verbatim s) = s"

definition pieces_text :: "piece list \<Rightarrow> u8 list" where
  "pieces_text ps = concat (map piece_text ps)"

fun verbatim_ranges :: "nat \<Rightarrow> piece list \<Rightarrow> (nat \<times> nat) list" where
  "verbatim_ranges k [] = []"
| "verbatim_ranges k (Plain s # ps) = verbatim_ranges (k + length s) ps"
| "verbatim_ranges k (Verbatim s # ps) = (k, k + length s) # verbatim_ranges (k + length s) ps"

inductive layout :: "indent_style \<Rightarrow> mode \<Rightarrow> int \<Rightarrow> doc \<Rightarrow> piece list \<Rightarrow> bool"
  and layouts :: "indent_style \<Rightarrow> mode \<Rightarrow> int \<Rightarrow> doc list \<Rightarrow> piece list \<Rightarrow> bool" for style where
  empty_doc: "layout style m i DocNil []"
| literal: "layout style m i (Text s) [Plain s]"
| raw: "m = Break \<or> \<not> has_newline s \<Longrightarrow> layout style m i (RawText s) [Verbatim s]"
| line_flat: "layout style Flat i Line [Plain [32]]"
| line_break: "layout style Break i Line [Plain (new_line i style)]"
| soft_flat: "layout style Flat i SoftLine []"
| soft_break: "layout style Break i SoftLine [Plain (new_line i style)]"
| hard: "layout style Break i HardLine [Plain (new_line i style)]"
| cat: "layouts style m i ds ps \<Longrightarrow> layout style m i (Concat ds) ps"
| nest: "layout style m (i + n) d ps \<Longrightarrow> layout style m i (Nest n d) ps"
| group_flat: "layout style Flat i d ps \<Longrightarrow> layout style m i (Group d) ps"
| group_break: "layout style Break i d ps \<Longrightarrow> layout style Break i (Group d) ps"
| if_flat: "layout style Flat i (IfBreak d) []"
| if_break: "layout style Break i d ps \<Longrightarrow> layout style Break i (IfBreak d) ps"
| nil: "layouts style m i [] []"
| cons: "\<lbrakk>layout style m i d ps; layouts style m i ds qs\<rbrakk> \<Longrightarrow> layouts style m i (d # ds) (ps @ qs)"

text \<open>The layouts of a work stack.\<close>

inductive stack_layout :: "indent_style \<Rightarrow> work \<Rightarrow> piece list \<Rightarrow> bool" for style where
  bottom: "stack_layout style [] []"
| item: "\<lbrakk>layout style m i d ps; stack_layout style st qs\<rbrakk> \<Longrightarrow> stack_layout style ((i, m, d) # st) (ps @ qs)"

inductive_simps stack_layout_Cons: "stack_layout style ((i, m, d) # st) ps"

lemma stack_layout_concat:
  "stack_layout style (map (\<lambda>d. (i, m, d)) ds @ st) ps \<Longrightarrow> \<exists>qs rs. ps = qs @ rs \<and> layouts style m i ds qs \<and> stack_layout style st rs"
proof (induction ds arbitrary: ps)
  case Nil
  then have "ps = [] @ ps" "layouts style m i [] []" "stack_layout style st ps" by (simp_all add: layout_layouts.nil)
  then show ?case by blast
next
  case (Cons d ds)
  then obtain qs rs where p: "ps = qs @ rs" "layout style m i d qs" "stack_layout style (map (\<lambda>d. (i, m, d)) ds @ st) rs"
    by (auto simp: stack_layout_Cons)
  from Cons.IH [OF p(3)] obtain qs' rs' where q: "rs = qs' @ rs'" "layouts style m i ds qs'" "stack_layout style st rs'" by blast
  from layout_layouts.cons [OF p(2) q(2)] q(3) p(1) q(1) show ?case by (metis append.assoc)
qed

lemma pieces_text_append [simp]: "pieces_text (ps @ qs) = pieces_text ps @ pieces_text qs" "pieces_text [] = []"
  by (simp_all add: pieces_text_def)

lemma verbatim_ranges_append: "verbatim_ranges k (ps @ qs) = verbatim_ranges k ps @ verbatim_ranges (k + length (pieces_text ps)) qs"
  by (induction k ps rule: verbatim_ranges.induct) (simp_all add: pieces_text_def add.assoc)

section \<open>What fits\<close>

lemma width_of_nonneg [simp]: "0 \<le> width_of s"
  by (simp add: width_of_def)

lemma fits_doc:
  "fits r ((i, m, DocNil) # st) rest \<longleftrightarrow> 0 \<le> r \<and> fits r st rest"
  "fits r ((i, m, Text s) # st) rest \<longleftrightarrow> 0 \<le> r \<and> fits (r - width_of s) st rest"
  "fits r ((i, m, RawText s) # st) rest \<longleftrightarrow> 0 \<le> r \<and> (if has_newline s then m = Break else fits (r - width_of s) st rest)"
  "fits r ((i, m, Concat ds) # st) rest \<longleftrightarrow> 0 \<le> r \<and> fits r (map (\<lambda>d. (i, m, d)) ds @ st) rest"
  "fits r ((i, m, Nest n d) # st) rest \<longleftrightarrow> 0 \<le> r \<and> fits r ((i + n, m, d) # st) rest"
  "fits r ((i, m, Line) # st) rest \<longleftrightarrow> 0 \<le> r \<and> (m = Break \<or> fits (r - 1) st rest)"
  "fits r ((i, m, SoftLine) # st) rest \<longleftrightarrow> 0 \<le> r \<and> (m = Break \<or> fits r st rest)"
  "fits r ((i, m, HardLine) # st) rest \<longleftrightarrow> 0 \<le> r \<and> m = Break"
  "fits r ((i, m, Group d) # st) rest \<longleftrightarrow> 0 \<le> r \<and> fits r ((i, Flat, d) # st) rest"
  "fits r ((i, m, IfBreak d) # st) rest \<longleftrightarrow> 0 \<le> r \<and> (if m = Break then fits r ((i, m, d) # st) rest else fits r st rest)"
  by (subst fits.simps, auto split: mode.splits)+

lemmas fits_none = fits.simps(1,2)

declare fits.simps [simp del]

lemma fits_nonneg: "fits r st rest \<Longrightarrow> 0 \<le> r"
proof (cases st)
  case Nil
  then show "fits r st rest \<Longrightarrow> 0 \<le> r" by (cases rest) (simp_all add: fits_none)
next
  case (Cons x xs)
  obtain i m d where "x = (i, m, d)" by (cases x)
  with Cons show "fits r st rest \<Longrightarrow> 0 \<le> r" by (cases d) (simp_all add: fits_doc)
qed

text \<open>Where an item comes from does not matter.\<close>

lemma fits_append: "fits r (local @ local') rest = fits r local (local' @ rest)"
proof (induction r local "local' @ rest" arbitrary: local' rest rule: fits.induct)
  case (1 r)
  then show ?case by (simp add: fits_none)
next
  case (2 r item rest0)
  show ?case
  proof (cases local')
    case Nil
    then show ?thesis by simp
  next
    case (Cons x xs)
    then have e: "rest0 = xs @ rest" "item = x" using 2(2) by simp_all
    show ?thesis
    proof (cases "0 \<le> r")
      case True
      have "fits r ([item] @ xs) rest = fits r [item] (xs @ rest)" by (rule 2(1) [OF e(1)])
      then show ?thesis unfolding Cons e(2) append_Nil append_Cons fits_none using True by (simp only: simp_thms)
    next
      case False
      then show ?thesis using fits_nonneg [of r "[] @ local'" rest] fits_nonneg [of r "[]" "local' @ rest"] by blast
    qed
  qed
next
  case (3 r i m d local)
  note ih = 3
  show ?case
  proof (cases "r < 0")
    case True
    then show ?thesis using fits_nonneg [of r "((i, m, d) # local) @ local'" rest] fits_nonneg [of r "(i, m, d) # local" "local' @ rest"] by linarith
  next
    case False
    show ?thesis
    proof (cases d)
      case Line
      show ?thesis using ih False unfolding Line by (cases m) (simp_all add: fits_doc)
    next
      case SoftLine
      show ?thesis using ih False unfolding SoftLine by (cases m) (simp_all add: fits_doc)
    qed (use ih False in \<open>simp_all add: fits_doc\<close>)
  qed
qed

lemma fits_stack: "fits r [] st = fits r st []" "fits r [item] st = fits r (item # st) []"
  using fits_append [of r "[]" st "[]"] fits_append [of r "[item]" st "[]"] by simp_all

section \<open>The work stack\<close>

text \<open>Flat items lie above broken ones, and if there is one the line fits.\<close>

fun modes_ok :: "work \<Rightarrow> bool" where
  "modes_ok [] = True"
| "modes_ok ((i, m, d) # st) = (if m = Flat then modes_ok st else list_all (\<lambda>(i, m, d). m = Break) st)"

definition stack_ok :: "int \<Rightarrow> int \<Rightarrow> work \<Rightarrow> bool" where
  "stack_ok width column st = (modes_ok st \<and> (st \<noteq> [] \<and> fst (snd (hd st)) = Flat \<longrightarrow> fits (width - column) st []))"

lemma all_break_ok: "list_all (\<lambda>(i, m, d). m = Break) st \<Longrightarrow> modes_ok st \<and> (st \<noteq> [] \<longrightarrow> fst (snd (hd st)) = Break)"
  by (induction st rule: modes_ok.induct) auto

lemma ok_tail: "stack_ok w c ((i, m, d) # st) \<Longrightarrow> (m = Flat \<Longrightarrow> fits (w - c') st []) \<Longrightarrow> stack_ok w c' st"
  using all_break_ok [of st] by (cases m) (auto simp: stack_ok_def)

lemma ok_push: "stack_ok w c ((i, m, d) # st) \<Longrightarrow> (m = Flat \<Longrightarrow> fits (w - c) ((j, m, e) # st) []) \<Longrightarrow> stack_ok w c ((j, m, e) # st)"
  by (auto simp: stack_ok_def)

lemma ok_fits: "stack_ok w c ((i, Flat, d) # st) \<Longrightarrow> fits (w - c) ((i, Flat, d) # st) []"
  by (simp add: stack_ok_def)

lemma ok_concat:
  assumes "stack_ok w c ((i, m, Concat ds) # st)"
  shows "stack_ok w c (map (\<lambda>d. (i, m, d)) ds @ st)"
proof (cases m)
  case Flat
  have "modes_ok st" using assms Flat by (simp add: stack_ok_def)
  then have "modes_ok (map (\<lambda>d. (i, Flat, d)) ds @ st)" by (induction ds) simp_all
  then show ?thesis using ok_fits [of w c i "Concat ds" st] assms Flat by (simp add: stack_ok_def fits_doc)
next
  case Break
  have b: "list_all (\<lambda>(i, m, d). m = Break) (map (\<lambda>d. (i, Break, d)) ds @ st)"
    using assms Break by (auto simp: stack_ok_def list_all_iff)
  from all_break_ok [OF b] show ?thesis unfolding stack_ok_def Break by (metis mode.distinct(1))
qed

lemma ok_group:
  assumes "stack_ok w c ((i, m, Group d) # st)"
  shows "stack_ok w c ((i, if fits (w - c) [(i, Flat, d)] st then Flat else Break, d) # st)"
    and "m = Flat \<Longrightarrow> fits (w - c) [(i, Flat, d)] st"
proof -
  show f: "m = Flat \<Longrightarrow> fits (w - c) [(i, Flat, d)] st"
    using ok_fits [of w c i "Group d" st] assms by (simp add: fits_doc fits_stack)
  show "stack_ok w c ((i, if fits (w - c) [(i, Flat, d)] st then Flat else Break, d) # st)"
  proof (cases "fits (w - c) [(i, Flat, d)] st")
    case True
    then show ?thesis using assms all_break_ok [of st] by (cases m) (auto simp: stack_ok_def fits_stack)
  next
    case False
    then have "m = Break" using f by (cases m) auto
    with False assms show ?thesis by (simp add: stack_ok_def)
  qed
qed

lemma render_doc:
  "render_loop w sty out prot c ((i, m, DocNil) # st) = render_loop w sty out prot c st"
  "render_loop w sty out prot c ((i, m, Text s) # st) = render_loop w sty (out @ s) prot (c + width_of s) st"
  "render_loop w sty out prot c ((i, m, RawText s) # st) =
     render_loop w sty (out @ s) (prot @ [(length out, length out + length s)]) (raw_col c s) st"
  "render_loop w sty out prot c ((i, m, Concat ds) # st) = render_loop w sty out prot c (map (\<lambda>d. (i, m, d)) ds @ st)"
  "render_loop w sty out prot c ((i, m, Nest n d) # st) = render_loop w sty out prot c ((i + n, m, d) # st)"
  "render_loop w sty out prot c ((i, Flat, Line) # st) = render_loop w sty (out @ [32]) prot (c + 1) st"
  "render_loop w sty out prot c ((i, Break, Line) # st) = render_loop w sty (out @ new_line i sty) prot i st"
  "render_loop w sty out prot c ((i, Flat, SoftLine) # st) = render_loop w sty out prot c st"
  "render_loop w sty out prot c ((i, Break, SoftLine) # st) = render_loop w sty (out @ new_line i sty) prot i st"
  "render_loop w sty out prot c ((i, m, HardLine) # st) = render_loop w sty (out @ new_line i sty) prot i st"
  "render_loop w sty out prot c ((i, m, Group d) # st) =
     render_loop w sty out prot c ((i, if fits (w - c) [(i, Flat, d)] st then Flat else Break, d) # st)"
  "render_loop w sty out prot c ((i, Flat, IfBreak d) # st) = render_loop w sty out prot c st"
  "render_loop w sty out prot c ((i, Break, IfBreak d) # st) = render_loop w sty out prot c ((i, Break, d) # st)"
  by (subst render_loop.simps, simp)+

lemmas render_none = render_loop.simps(1)

declare render_loop.simps [simp del]

section \<open>Rendering gives a layout\<close>

text \<open>What is left to show after one item has been rendered.\<close>

definition renders :: "int \<Rightarrow> indent_style \<Rightarrow> u8 list \<Rightarrow> (nat \<times> nat) list \<Rightarrow> int \<Rightarrow> work \<Rightarrow> piece list \<Rightarrow> bool" where
  "renders w sty out prot c st ps =
     (stack_layout sty st ps \<and>
      render_loop w sty out prot c st = (out @ pieces_text ps, prot @ verbatim_ranges (length out) ps))"

lemma renders_item:
  assumes "renders w sty (out @ pieces_text qs) (prot @ verbatim_ranges (length out) qs) c' st ps" and "layout sty m i d qs"
    and "render_loop w sty out prot c ((i, m, d) # st) =
      render_loop w sty (out @ pieces_text qs) (prot @ verbatim_ranges (length out) qs) c' st"
  shows "renders w sty out prot c ((i, m, d) # st) (qs @ ps)"
  using assms stack_layout.item [OF assms(2)] by (auto simp: renders_def verbatim_ranges_append)

lemma renders_same:
  assumes "renders w sty out prot c ((j, k, e) # st) ps" and "\<And>qs. layout sty k j e qs \<Longrightarrow> layout sty m i d qs"
    and "render_loop w sty out prot c ((i, m, d) # st) = render_loop w sty out prot c ((j, k, e) # st)"
  shows "renders w sty out prot c ((i, m, d) # st) ps"
  using assms by (auto simp: renders_def stack_layout_Cons)

lemma render_layout: "stack_ok w c st \<Longrightarrow> \<exists>ps. renders w sty out prot c st ps"
proof (induction "work_size st" arbitrary: out prot c st rule: less_induct)
  case less
  show ?case
  proof (cases st)
    case Nil
    have "renders w sty out prot c [] []" by (simp add: renders_def render_none stack_layout.bottom)
    then show ?thesis unfolding Nil by blast
  next
    case (Cons item rest)
    obtain i m d where item: "item = (i, m, d)" by (cases item)
    have st: "st = (i, m, d) # rest" by (simp add: Cons item)
    have ok: "stack_ok w c ((i, m, d) # rest)" using less.prems st by simp
    note fit = ok_fits [of w c i d rest]
    have tail: "\<exists>ps. renders w sty out' prot' c' rest ps" if "m = Flat \<Longrightarrow> fits (w - c') rest []" for out' prot' c'
      using less.hyps [of rest] ok_tail [OF ok that] by (simp add: st)
    have push: "\<exists>ps. renders w sty out prot c ((j, m, e) # rest) ps"
      if "size e < size d" "m = Flat \<Longrightarrow> fits (w - c) ((j, m, e) # rest) []" for j e
      using less.hyps [of "(j, m, e) # rest"] ok_push [OF ok that(2)] that(1) by (simp add: st)
    have one: ?thesis if "layout sty m i d qs" "m = Flat \<Longrightarrow> fits (w - c') rest []"
      "render_loop w sty out prot c ((i, m, d) # rest) =
        render_loop w sty (out @ pieces_text qs) (prot @ verbatim_ranges (length out) qs) c' rest" for qs c'
      using tail [OF that(2)] renders_item [OF _ that(1) that(3)] unfolding st by blast
    have same: ?thesis if "size e < size d" "m = Flat \<Longrightarrow> fits (w - c) ((j, m, e) # rest) []"
      "\<And>qs. layout sty m j e qs \<Longrightarrow> layout sty m i d qs"
      "render_loop w sty out prot c ((i, m, d) # rest) = render_loop w sty out prot c ((j, m, e) # rest)" for j e
      using push [OF that(1,2)] renders_same [OF _ that(3,4)] unfolding st by blast
    show ?thesis
    proof (cases d)
      case DocNil
      show ?thesis by (rule one [of "[]" c]) (use fit ok in \<open>auto simp: DocNil fits_doc render_doc intro: layout_layouts.intros\<close>)
    next
      case (Text s)
      show ?thesis by (rule one [of "[Plain s]" "c + width_of s"])
        (use fit ok in \<open>auto simp: Text fits_doc render_doc pieces_text_def diff_diff_eq intro: layout_layouts.intros\<close>)
    next
      case (RawText s)
      have "m = Flat \<Longrightarrow> \<not> has_newline s" using fit ok by (auto simp: RawText fits_doc)
      moreover then have "m = Break \<or> \<not> has_newline s" by (cases m) auto
      ultimately show ?thesis by (intro one [of "[Verbatim s]" "raw_col c s"])
        (use fit ok in \<open>auto simp: RawText fits_doc render_doc raw_col_def pieces_text_def diff_diff_eq intro: layout_layouts.intros\<close>)
    next
      case Line
      show ?thesis
      proof (cases m)
        case Flat
        show ?thesis by (rule one [of "[Plain [32]]" "c + 1"])
          (use fit ok in \<open>auto simp: Line Flat fits_doc render_doc pieces_text_def diff_diff_eq intro: layout_layouts.intros\<close>)
      next
        case Break
        show ?thesis by (rule one [of "[Plain (new_line i sty)]" i])
          (auto simp: Line Break render_doc pieces_text_def intro: layout_layouts.intros)
      qed
    next
      case SoftLine
      show ?thesis
      proof (cases m)
        case Flat
        show ?thesis by (rule one [of "[]" c])
          (use fit ok in \<open>auto simp: SoftLine Flat fits_doc render_doc intro: layout_layouts.intros\<close>)
      next
        case Break
        show ?thesis by (rule one [of "[Plain (new_line i sty)]" i])
          (auto simp: SoftLine Break render_doc pieces_text_def intro: layout_layouts.intros)
      qed
    next
      case HardLine
      have "m = Break" using fit ok by (cases m) (auto simp: HardLine fits_doc)
      then show ?thesis by (intro one [of "[Plain (new_line i sty)]" i])
        (auto simp: HardLine render_doc pieces_text_def intro: layout_layouts.intros)
    next
      case (Concat ds)
      have "stack_ok w c (map (\<lambda>d. (i, m, d)) ds @ rest)" using ok_concat ok unfolding Concat by blast
      moreover have "work_size (map (\<lambda>d. (i, m, d)) ds @ rest) < work_size st" by (simp add: st Concat)
      ultimately obtain ps where "renders w sty out prot c (map (\<lambda>d. (i, m, d)) ds @ rest) ps"
        using less.hyps by blast
      then have "renders w sty out prot c st ps"
        unfolding renders_def st Concat render_doc stack_layout_Cons using stack_layout_concat layout_layouts.cat by metis
      then show ?thesis by blast
    next
      case (Nest n e)
      show ?thesis by (rule same [of e "i + n"])
        (use fit ok in \<open>auto simp: Nest fits_doc render_doc intro: layout_layouts.intros\<close>)
    next
      case (Group e)
      let ?k = "if fits (w - c) [(i, Flat, e)] rest then Flat else Break"
      have g: "stack_ok w c ((i, ?k, e) # rest)" "m = Flat \<Longrightarrow> ?k = Flat" using ok_group ok unfolding Group by auto
      have "work_size ((i, ?k, e) # rest) < work_size st" by (simp add: st Group)
      from less.hyps [OF this g(1)] obtain ps where p: "renders w sty out prot c ((i, ?k, e) # rest) ps" by blast
      have l: "layout sty m i (Group e) qs" if "layout sty ?k i e qs" for qs
        using that g(2) by (cases m; cases ?k) (auto intro: layout_layouts.intros split: if_splits)
      have "renders w sty out prot c st ps" unfolding st Group by (rule renders_same [OF p l render_doc(11)])
      then show ?thesis by blast
    next
      case (IfBreak e)
      show ?thesis
      proof (cases m)
        case Flat
        show ?thesis by (rule one [of "[]" c])
          (use fit ok in \<open>auto simp: IfBreak Flat fits_doc render_doc intro: layout_layouts.intros\<close>)
      next
        case Break
        show ?thesis by (rule same [of e i])
          (auto simp: IfBreak Break render_doc intro: layout_layouts.intros)
      qed
    qed
  qed
qed

lemma rendered:
  "\<exists>ps. layout style Break 0 d ps \<and> render_protected d width style = (pieces_text ps, verbatim_ranges 0 ps)"
proof -
  have "stack_ok (int width) 0 [(0, Break, d)]" by (simp add: stack_ok_def)
  from render_layout [OF this, of style "[]" "[]"] obtain ps where
    p: "renders (int width) style [] [] 0 [(0, Break, d)] ps" by blast
  then have "layout style Break 0 d ps" unfolding renders_def stack_layout_Cons by (auto elim: stack_layout.cases)
  with p show ?thesis by (auto simp: renders_def render_protected_def)
qed

text \<open>
  C13: the renderer chooses a layout. At every width and in every indent style the output of a document is
  one of its layouts: text is kept as it is, each group is either broken or flat throughout (its inner
  groups flat, no hard break and no multi-line verbatim text in it, conditional content left out), and the byte ranges
  reported as protected are exactly the places of the verbatim texts, in order.
\<close>

theorem render_is_layout:
  "\<exists>ps. layout style Break 0 d ps \<and>
     render_protected d width style = (pieces_text ps, verbatim_ranges 0 ps)"
  by (rule rendered)

section \<open>Documents that never break\<close>

text \<open>The text constructor admits no line break.\<close>

fun texts_ok :: "doc \<Rightarrow> bool" where
  "texts_ok (Text s) = (\<not> has_newline s)"
| "texts_ok (Concat ds) = list_all texts_ok ds"
| "texts_ok (Nest n d) = texts_ok d"
| "texts_ok (Group d) = texts_ok d"
| "texts_ok (IfBreak d) = texts_ok d"
| "texts_ok _ = True"

fun flat_text :: "doc \<Rightarrow> u8 list" where
  "flat_text (Text s) = s"
| "flat_text (RawText s) = s"
| "flat_text (Concat ds) = concat (map flat_text ds)"
| "flat_text (Nest n d) = flat_text d"
| "flat_text (Group d) = flat_text d"
| "flat_text _ = []"

lemma never_breaks_layout:
  "layout style m i d ps \<Longrightarrow> never_breaks d \<Longrightarrow> pieces_text ps = flat_text d"
  "layouts style m i ds ps \<Longrightarrow> list_all never_breaks ds \<Longrightarrow> pieces_text ps = concat (map flat_text ds)"
  by (induction rule: layout_layouts.inducts) (simp_all add: pieces_text_def)

lemma flat_text_line: "never_breaks d \<Longrightarrow> texts_ok d \<Longrightarrow> \<not> has_newline (flat_text d)"
proof (induction d)
  case (Concat ds)
  then show ?case by (auto simp: has_newline_def list_all_iff)
qed (simp_all add: has_newline_def)

text \<open>
  "never breaks" means one line at every width. A document for which \<open>never_breaks\<close> answers yes, with
  its texts free of line breaks, renders to the same single line at every width and in every indent
  style: its texts one after the other.
\<close>

theorem never_breaks_one_line:
  assumes "never_breaks d" and "texts_ok d"
  shows "fst (render_protected d width style) = flat_text d \<and> \<not> has_newline (flat_text d)"
proof -
  obtain ps where "layout style Break 0 d ps" "render_protected d width style = (pieces_text ps, verbatim_ranges 0 ps)"
    using rendered by blast
  then show ?thesis using never_breaks_layout(1) assms flat_text_line by simp
qed

definition label_doc :: doc where
  "label_doc = Concat [Text [97], Group (Nest 4 (Concat [RawText [58], Text [98]]))]"

theorem never_breaks_one_line_witness:
  "never_breaks label_doc \<and> fst (render_protected label_doc 1 default_indent) = [97, 58, 98]"
  using never_breaks_one_line [of label_doc 1 default_indent] by (simp add: label_doc_def has_newline_def)

section \<open>The width\<close>

fun raws_ok :: "doc \<Rightarrow> bool" where
  "raws_ok (RawText s) = (\<not> has_newline s)"
| "raws_ok (Concat ds) = list_all raws_ok ds"
| "raws_ok (Nest n d) = raws_ok d"
| "raws_ok (Group d) = raws_ok d"
| "raws_ok (IfBreak d) = raws_ok d"
| "raws_ok _ = True"

definition lines_ok :: "work \<Rightarrow> bool" where
  "lines_ok st = list_all (\<lambda>(i, m, d). texts_ok d \<and> raws_ok d) st"

definition first_line :: "u8 list \<Rightarrow> u8 list" where
  "first_line s = takeWhile (\<lambda>b. b \<noteq> newline_byte) s"

lemma first_line_text: "\<not> has_newline s \<Longrightarrow> first_line (s @ t) = s @ first_line t"
  by (auto simp: first_line_def has_newline_def intro: takeWhile_append2)

lemma width_of_append: "width_of (s @ t) = width_of s + width_of t"
  by (simp add: width_of_def chars_count_def)

lemma first_line_break [simp]: "width_of (first_line (new_line i sty @ t)) = 0" "width_of (first_line []) = 0"
  by (simp_all add: first_line_def new_line_def width_of_def chars_count_def)

text \<open>Output is only ever appended.\<close>

lemma render_extends: "\<exists>t. fst (render_loop w sty out prot c st) = out @ t"
proof (induction w sty out prot c st rule: render_loop.induct)
  case (2 w sty out prot c i m d st)
  then show ?case by (cases d; cases m) (force simp: render_doc)+
qed (simp add: render_none)

definition first_fits :: "int \<Rightarrow> u8 list \<Rightarrow> u8 list \<Rightarrow> bool" where
  "first_fits r out result = (\<exists>t. result = out @ t \<and> width_of (first_line t) \<le> r)"

lemma first_fits_text: "\<not> has_newline s \<Longrightarrow> first_fits (r - width_of s) (out @ s) result \<Longrightarrow> first_fits r out result"
proof -
  assume s: "\<not> has_newline s" and "first_fits (r - width_of s) (out @ s) result"
  then obtain t where "result = out @ (s @ t)" "width_of (first_line t) \<le> r - width_of s" by (auto simp: first_fits_def)
  then show ?thesis unfolding first_fits_def using first_line_text [OF s, of t] width_of_append [of s "first_line t"] by force
qed

lemma first_fits_break: "0 \<le> r \<Longrightarrow> first_fits r out (fst (render_loop w sty (out @ new_line i sty) prot c st))"
  using render_extends [of w sty "out @ new_line i sty" prot c st] by (auto simp: first_fits_def)

lemma fits_line: "fits (w - c) st [] \<Longrightarrow> lines_ok st \<Longrightarrow> first_fits (w - c) out (fst (render_loop w sty out prot c st))"
proof (induction "work_size st" arbitrary: out prot c st rule: less_induct)
  case less
  show ?case
  proof (cases st)
    case Nil
    then show ?thesis using fits_nonneg [OF less.prems(1)] by (simp add: first_fits_def render_none)
  next
    case (Cons item rest)
    obtain i m d where item: "item = (i, m, d)" by (cases item)
    have st: "st = (i, m, d) # rest" by (simp add: Cons item)
    have r: "0 \<le> w - c" by (rule fits_nonneg [OF less.prems(1)])
    have f: "fits (w - c) ((i, m, d) # rest) []" and ok: "lines_ok rest" "texts_ok d" "raws_ok d"
      using less.prems by (simp_all add: st lines_ok_def)
    have step: "fits (w - c') st' [] \<Longrightarrow> lines_ok st' \<Longrightarrow> first_fits (w - c') out' (fst (render_loop w sty out' prot' c' st'))"
      if "work_size st' < work_size st" for st' out' prot' c' using less.hyps [OF that] .
    have verb: "first_fits (w - c) out (fst (render_loop w sty (out @ s) prot' (c + width_of s) rest))"
      if "\<not> has_newline s" "fits (w - c - width_of s) rest []" for s prot'
      using first_fits_text [OF that(1)] step [of rest "c + width_of s" "out @ s" prot'] that(2) ok(1) by (simp add: st diff_diff_eq)
    have w1: "width_of [32] = 1" "\<not> has_newline [32]" by (simp_all add: width_of_def chars_count_def is_continuation_def has_newline_def)
    note F = f [unfolded fits_doc] and B = first_fits_break [OF r]
    show ?thesis
    proof (cases d)
      case (Concat ds)
      have "lines_ok (map (\<lambda>d. (i, m, d)) ds @ rest)" using ok by (auto simp: lines_ok_def list_all_iff Concat)
      then show ?thesis using step [of "map (\<lambda>d. (i, m, d)) ds @ rest" c out prot] f by (simp add: st Concat render_doc fits_doc)
    next
      case (Group e)
      have "fits (w - c) [(i, Flat, e)] rest" using f by (simp add: Group fits_doc fits_stack)
      then show ?thesis using step [of "(i, Flat, e) # rest" c out prot] f ok by (simp add: st Group render_doc fits_doc lines_ok_def)
    next
      case Line
      then show ?thesis using f verb [OF w1(2)] w1(1) B by (cases m) (simp_all add: st render_doc fits_doc)
    next
      case (IfBreak e)
      then show ?thesis using f step [of "(i, m, e) # rest" c out prot] step [of rest c out prot] ok
        by (cases m) (simp_all add: st render_doc fits_doc lines_ok_def)
    next
      case (Nest n e)
      then show ?thesis using f step [of "(i + n, m, e) # rest" c out prot] ok by (simp add: st render_doc fits_doc lines_ok_def)
    next
      case SoftLine
      then show ?thesis using f step [of rest c out prot] ok B by (cases m) (simp_all add: st render_doc fits_doc)
    next
      case DocNil
      then show ?thesis using f step [of rest c out prot] ok by (simp add: st render_doc fits_doc)
    next
      case HardLine
      then show ?thesis using B by (simp add: st render_doc)
    next
      case (Text s)
      then show ?thesis using f verb [of s] ok by (simp add: st render_doc fits_doc)
    next
      case (RawText s)
      then show ?thesis using f verb [of s] ok by (simp add: st render_doc fits_doc raw_col_def)
    qed
  qed
qed



text \<open>
  A multi-line verbatim text is not measured. Behind a group, \<open>fits\<close> accepts a verbatim text with a line
  break without looking at its first line, so the group is laid out flat although the line overflows
  the width; broken, every line would have fitted.
\<close>

theorem fits_ignores_verbatim_first_line:
  "let d = Concat [Group (Concat [Text [97], Line, Text [98]]), RawText [99, 99, 99, 10, 99]] in
   fst (render_protected d 4 default_indent) = [97, 32, 98, 99, 99, 99, 10, 99] \<and>
   4 < width_of (first_line (fst (render_protected d 4 default_indent)))"
  by (simp add: render_protected_def render_doc render_none fits_doc fits_none has_newline_def width_of_def chars_count_def
      is_continuation_def first_line_def raw_col_def)

end
