(* ===== verification/Merkle_Log.thy ===== *)
theory Merkle_Log
  imports Prelude
begin

text \<open>
  Client-side verification of the transparency log (\<open>crates/noeta-pm/src/transparency.rs\<close> and the release
  check of \<open>crates/noeta-pm/src/registry.rs\<close>). Strings and hashes are byte lists. SHA-256 and Ed25519 come
  from other packages: the digest \<open>sha\<close>, the key decoder and the signature check are parameters. What the
  registry serves is an argument. An outer \<open>None\<close> is a call that does not return.
\<close>

type_synonym hash = "u8 list"

type_synonym digest = "u8 list \<Rightarrow> u8 list"

definition newline :: u8 where
  "newline = 10"

definition bytes_of :: "string \<Rightarrow> u8 list" where
  "bytes_of s = map of_char s"

section \<open>Hashes and records\<close>

definition leaf_hash :: "digest \<Rightarrow> u8 list \<Rightarrow> hash" where
  "leaf_hash sha bs = sha (0 # bs)"

definition node_hash :: "digest \<Rightarrow> hash \<Rightarrow> hash \<Rightarrow> hash" where
  "node_hash sha l r = sha (1 # l @ r)"

definition log_record ::
  "u8 list \<Rightarrow> u8 list \<Rightarrow> u8 list \<Rightarrow> u8 list \<Rightarrow> u8 list \<Rightarrow> u8 list \<Rightarrow> u8 list \<Rightarrow> u8 list" where
  "log_record name version url tag commit provenance license =
     bytes_of ''noeta-transparency-log-v1'' @ [newline] @ name @ [newline] @ version @ [newline] @ url @ [newline] @
     tag @ [newline] @ commit @ [newline] @ provenance @ [newline] @ license @ [newline]"

section \<open>Inclusion\<close>

text \<open>\<open>k << 1\<close> on a 64-bit \<open>usize\<close> drops the bit that leaves the word.\<close>

partial_function (option) pow2_loop :: "nat \<Rightarrow> nat \<Rightarrow> nat option" where
  "pow2_loop n k = (if 2 * k mod 2 ^ 64 < n then pow2_loop n (2 * k mod 2 ^ 64) else Some k)"

declare pow2_loop.simps [code]

definition largest_pow2_below :: "nat \<Rightarrow> nat option" where
  "largest_pow2_below n = pow2_loop n 1"

function root_from_inclusion :: "digest \<Rightarrow> hash \<Rightarrow> nat \<Rightarrow> nat \<Rightarrow> hash list \<Rightarrow> hash option option" where
  "root_from_inclusion sha leaf m n path =
     (if n \<le> 1 then Some (if path = [] then Some leaf else None)
      else if path = [] then Some None
      else case largest_pow2_below n of
        None \<Rightarrow> None
      | Some k \<Rightarrow>
          if m < k then map_option (map_option (\<lambda>l. node_hash sha l (last path))) (root_from_inclusion sha leaf m k (butlast path))
          else map_option (map_option (\<lambda>r. node_hash sha (last path) r)) (root_from_inclusion sha leaf (m - k) (n - k) (butlast path)))"
  by pat_completeness auto
termination
  by (relation "measure (\<lambda>(sha, leaf, m, n, path). length path)") auto

definition verify_inclusion :: "digest \<Rightarrow> hash \<Rightarrow> nat \<Rightarrow> nat \<Rightarrow> hash list \<Rightarrow> hash \<Rightarrow> bool option" where
  "verify_inclusion sha leaf m n path root =
     (if n \<le> m then Some False
      else map_option (\<lambda>r. r = Some root) (root_from_inclusion sha leaf m n path))"

section \<open>Consistency\<close>

function reconstruct_consistency :: "digest \<Rightarrow> hash list \<Rightarrow> nat \<Rightarrow> nat \<Rightarrow> bool \<Rightarrow> hash \<Rightarrow> (hash \<times> hash) option option" where
  "reconstruct_consistency sha path m n b root_m =
     (if m = n then
        Some (if b then Some (root_m, root_m) else if path = [] then None else Some (last path, last path))
      else if path = [] then Some None
      else case largest_pow2_below n of
        None \<Rightarrow> None
      | Some k \<Rightarrow>
          if m \<le> k then
            map_option (map_option (\<lambda>(lo, hi). (lo, node_hash sha hi (last path))))
              (reconstruct_consistency sha (butlast path) m k b root_m)
          else
            map_option (map_option (\<lambda>(lo, hi). (node_hash sha (last path) lo, node_hash sha (last path) hi)))
              (reconstruct_consistency sha (butlast path) (m - k) (n - k) False root_m))"
  by pat_completeness auto
termination
  by (relation "measure (\<lambda>(sha, path, m, n, b, root_m). length path)") auto

definition verify_consistency :: "digest \<Rightarrow> nat \<Rightarrow> nat \<Rightarrow> hash list \<Rightarrow> hash \<Rightarrow> hash \<Rightarrow> bool option" where
  "verify_consistency sha m n path root_m root_n =
     (if n < m then Some False
      else if m = n then Some (path = [] \<and> root_m = root_n)
      else if m = 0 then Some True
      else map_option (\<lambda>r. r = Some (root_m, root_n)) (reconstruct_consistency sha path m n True root_m))"

section \<open>Hexadecimal input\<close>

definition hex_digit :: "u8 \<Rightarrow> nat option" where
  "hex_digit b =
     (if 48 \<le> b \<and> b \<le> 57 then Some (unat b - 48)
      else if 97 \<le> b \<and> b \<le> 102 then Some (unat b - 87)
      else if 65 \<le> b \<and> b \<le> 70 then Some (unat b - 55)
      else None)"

text \<open>\<open>u8::from_str_radix(_, 16)\<close> on two bytes: one leading plus sign is allowed.\<close>

definition hex_pair :: "u8 \<Rightarrow> u8 \<Rightarrow> u8 option" where
  "hex_pair a b =
     (if a = 43 then map_option of_nat (hex_digit b)
      else case (hex_digit a, hex_digit b) of
        (Some x, Some y) \<Rightarrow> Some (of_nat (16 * x + y))
      | _ \<Rightarrow> None)"

fun hex_pairs :: "u8 list \<Rightarrow> u8 list option" where
  "hex_pairs [] = Some []"
| "hex_pairs [a] = None"
| "hex_pairs (a # b # rest) =
     (case hex_pair a b of None \<Rightarrow> None | Some x \<Rightarrow> map_option (Cons x) (hex_pairs rest))"

definition hex_to_array :: "nat \<Rightarrow> u8 list \<Rightarrow> u8 list option" where
  "hex_to_array n hex = (if length hex \<noteq> n * 2 then None else hex_pairs hex)"

definition hex_char :: "nat \<Rightarrow> u8" where
  "hex_char d = of_nat (if d < 10 then 48 + d else 87 + d)"

definition hex_encode :: "u8 list \<Rightarrow> u8 list" where
  "hex_encode bs = concat (map (\<lambda>b. [hex_char (unat b div 16), hex_char (unat b mod 16)]) bs)"

section \<open>Checkpoints and releases\<close>

datatype trust_error =
    KeyNotHex | BadKey | SignatureNotHex | NotLogged | NotAgainstCheckpoint | CoordinatesDiffer | LicenseDiffers
  | MalformedRoot | MalformedProof | ProofDoesNotVerify | NoLogKey | CheckpointNotSigned | Network

definition checkpoint_message :: "nat \<Rightarrow> u8 list \<Rightarrow> u8 list" where
  "checkpoint_message n root_hex =
     bytes_of ''noeta-log-checkpoint-v1'' @ [newline] @ bytes_of (show_nat n) @ [newline] @ root_hex @ [newline]"

text \<open>\<open>key_of\<close> decodes a public key, \<open>verify_strict\<close> checks a signature.\<close>

definition verify_checkpoint ::
  "(u8 list \<Rightarrow> 'k option) \<Rightarrow> ('k \<Rightarrow> u8 list \<Rightarrow> u8 list \<Rightarrow> bool) \<Rightarrow> u8 list \<Rightarrow> nat \<Rightarrow> u8 list \<Rightarrow> u8 list \<Rightarrow> trust_error + bool" where
  "verify_checkpoint key_of verify_strict public_hex n root_hex signature_hex =
     (case hex_to_array 32 public_hex of
        None \<Rightarrow> Inl KeyNotHex
      | Some pk \<Rightarrow> (case key_of pk of
          None \<Rightarrow> Inl BadKey
        | Some key \<Rightarrow> (case hex_to_array 64 signature_hex of
            None \<Rightarrow> Inl SignatureNotHex
          | Some sig \<Rightarrow> Inr (verify_strict key (checkpoint_message n root_hex) sig))))"

record release_coords =
  rc_name :: "u8 list"
  rc_version :: "u8 list"
  rc_url :: "u8 list"
  rc_tag :: "u8 list"
  rc_commit :: "u8 list"
  rc_license :: "u8 list option"

record log_checkpoint =
  cp_tree_size :: nat
  cp_root_hash :: "u8 list"
  cp_signature :: "u8 list"

record log_inclusion =
  li_record :: "u8 list"
  li_index :: nat
  li_tree_size :: nat
  li_root_hash :: "u8 list"
  li_proof :: "u8 list list"

record verified_log =
  vl_tree_size :: nat
  vl_root_hex :: "u8 list"
  vl_public_key :: "u8 list"

fun split_lines :: "u8 list \<Rightarrow> u8 list list" where
  "split_lines [] = [[]]"
| "split_lines (b # bs) =
     (if b = newline then [] # split_lines bs
      else case split_lines bs of [] \<Rightarrow> [[b]] | l # ls \<Rightarrow> (b # l) # ls)"

definition record_matches :: "release_coords \<Rightarrow> u8 list list \<Rightarrow> bool" where
  "record_matches rc parts =
     (6 \<le> length parts \<and> parts ! 0 = bytes_of ''noeta-transparency-log-v1'' \<and> parts ! 1 = rc_name rc \<and>
      parts ! 2 = rc_version rc \<and> parts ! 3 = rc_url rc \<and> parts ! 4 = rc_tag rc \<and> parts ! 5 = rc_commit rc)"

definition license_conflict :: "release_coords \<Rightarrow> u8 list list \<Rightarrow> bool" where
  "license_conflict rc parts =
     (case rc_license rc of None \<Rightarrow> False | Some expected \<Rightarrow> 9 \<le> length parts \<and> parts ! 7 \<noteq> expected)"

fun collect_hashes :: "u8 list list \<Rightarrow> hash list option" where
  "collect_hashes [] = Some []"
| "collect_hashes (h # hs) =
     (case hex_to_array 32 h of None \<Rightarrow> None | Some x \<Rightarrow> map_option (Cons x) (collect_hashes hs))"

text \<open>
  \<open>served\<close> is the registry's answer to the request for an inclusion proof, \<open>served_key\<close> its answer for the
  log key, \<open>served_cp\<close> its answer for the checkpoint; each request can fail.
\<close>

definition verify_inclusion_at ::
  "digest \<Rightarrow> trust_error + log_inclusion option \<Rightarrow> release_coords \<Rightarrow> log_checkpoint \<Rightarrow> (trust_error + unit) option" where
  "verify_inclusion_at sha served rc cp =
     (case served of
        Inl e \<Rightarrow> Some (Inl e)
      | Inr None \<Rightarrow> Some (Inl NotLogged)
      | Inr (Some incl) \<Rightarrow>
          let parts = split_lines (li_record incl) in
          if li_root_hash incl \<noteq> cp_root_hash cp \<or> li_tree_size incl \<noteq> cp_tree_size cp then Some (Inl NotAgainstCheckpoint)
          else if \<not> record_matches rc parts then Some (Inl CoordinatesDiffer)
          else if license_conflict rc parts then Some (Inl LicenseDiffers)
          else case hex_to_array 32 (cp_root_hash cp) of
            None \<Rightarrow> Some (Inl MalformedRoot)
          | Some root \<Rightarrow> (case collect_hashes (li_proof incl) of
              None \<Rightarrow> Some (Inl MalformedProof)
            | Some path \<Rightarrow>
                map_option (\<lambda>ok. if ok then Inr () else Inl ProofDoesNotVerify)
                  (verify_inclusion sha (leaf_hash sha (li_record incl)) (li_index incl) (li_tree_size incl) path root)))"

definition verify_release_logged ::
  "digest \<Rightarrow> (u8 list \<Rightarrow> 'k option) \<Rightarrow> ('k \<Rightarrow> u8 list \<Rightarrow> u8 list \<Rightarrow> bool) \<Rightarrow> trust_error + u8 list option \<Rightarrow>
   trust_error + log_checkpoint \<Rightarrow> trust_error + log_inclusion option \<Rightarrow> release_coords \<Rightarrow> u8 list option \<Rightarrow>
   (trust_error + verified_log) option" where
  "verify_release_logged sha key_of verify_strict served_key served_cp served rc pinned_key =
     (case (case pinned_key of Some k \<Rightarrow> Inr (Some k) | None \<Rightarrow> served_key) of
        Inl e \<Rightarrow> Some (Inl e)
      | Inr None \<Rightarrow> Some (Inl NoLogKey)
      | Inr (Some key) \<Rightarrow> (case served_cp of
          Inl e \<Rightarrow> Some (Inl e)
        | Inr cp \<Rightarrow> (case verify_checkpoint key_of verify_strict key (cp_tree_size cp) (cp_root_hash cp) (cp_signature cp) of
            Inl e \<Rightarrow> Some (Inl e)
          | Inr False \<Rightarrow> Some (Inl CheckpointNotSigned)
          | Inr True \<Rightarrow>
              map_option (\<lambda>r. case r of
                  Inl e \<Rightarrow> Inl e
                | Inr u \<Rightarrow> Inr \<lparr>vl_tree_size = cp_tree_size cp, vl_root_hex = cp_root_hash cp, vl_public_key = key\<rparr>)
                (verify_inclusion_at sha served rc cp))))"

end
