(* ===== verification/Merkle_Laws.thy ===== *)
theory Merkle_Laws
  imports Merkle_Log
begin

text \<open>
  The verifiers against the Merkle tree of RFC 6962: honest proofs are accepted, and what is accepted is
  true of every log with the given root unless the hash function collides on the inputs at hand.
\<close>

section \<open>The split point\<close>

fun split_at :: "nat \<Rightarrow> nat" where
  "split_at n = (if n \<le> 2 then 1 else 2 * split_at ((n + 1) div 2))"

declare split_at.simps [simp del]

lemma split_at_bounds: "2 \<le> n \<Longrightarrow> split_at n < n \<and> n \<le> 2 * split_at n \<and> 0 < split_at n"
proof (induction n rule: split_at.induct)
  case (1 n)
  show ?case
  proof (cases "n \<le> 2")
    case False
    then have "2 \<le> (n + 1) div 2" by simp
    with 1(1) [OF False] False show ?thesis by (subst (1 2 3) split_at.simps) auto
  qed (use 1 in \<open>simp add: split_at.simps\<close>)
qed

lemma split_at_power: "\<exists>i. split_at n = 2 ^ i"
proof (induction n rule: split_at.induct)
  case (1 n)
  show ?case
  proof (cases "n \<le> 2")
    case True
    then show ?thesis by (subst split_at.simps) (simp add: exI [of _ 0])
  next
    case False
    from 1 [OF this] obtain i where "split_at ((n + 1) div 2) = 2 ^ i" by blast
    then have "split_at n = 2 ^ Suc i" using False by (subst split_at.simps) simp
    then show ?thesis by blast
  qed
qed

lemma power_between:
  assumes "(2::nat) ^ i < n" "n \<le> 2 ^ Suc i" and "2 ^ j < n" "n \<le> 2 ^ Suc j"
  shows "i = j"
proof -
  have p: "(2::nat) ^ i < 2 ^ Suc j" "(2::nat) ^ j < 2 ^ Suc i" using assms by linarith+
  have "i < Suc j" by (rule power_less_imp_less_exp [OF _ p(1)]) simp
  moreover have "j < Suc i" by (rule power_less_imp_less_exp [OF _ p(2)]) simp
  ultimately show ?thesis by simp
qed

lemma split_at_unique: "2 ^ i < n \<Longrightarrow> n \<le> 2 ^ Suc i \<Longrightarrow> split_at n = 2 ^ i"
proof -
  assume a: "2 ^ i < n" "n \<le> 2 ^ Suc i"
  have "1 \<le> (2::nat) ^ i" by simp
  then have "2 \<le> n" using a(1) by linarith
  from split_at_bounds [OF this] have b: "split_at n < n" "n \<le> 2 * split_at n" by auto
  obtain j where j: "split_at n = 2 ^ j" using split_at_power by blast
  have "i = j" by (rule power_between [of i n j]) (use a b j in simp_all)
  then show ?thesis using j by simp
qed

lemma pow2_loop_returns:
  assumes "n \<le> 2 ^ 63" and "2 ^ i < n"
  shows "pow2_loop n (2 ^ i) = Some (split_at n)"
  using assms(2)
proof (induction "n - 2 ^ i" arbitrary: i rule: less_induct)
  case less
  have "(2::nat) ^ i < 2 ^ 63" using less.prems assms(1) by simp
  then have "i < 63" using power_less_imp_less_exp [of "2::nat" i 63] by simp
  then have "(2::nat) ^ Suc i \<le> 2 ^ 63" by (intro power_increasing) auto
  then have "(2::nat) ^ Suc i < 2 ^ 64" by (rule le_less_trans) simp
  then have m: "2 * 2 ^ i mod 2 ^ 64 = (2::nat) ^ Suc i" unfolding power_Suc by (rule mod_less)
  show ?case
  proof (cases "2 ^ Suc i < n")
    case True
    have "(2::nat) ^ i < 2 ^ Suc i" by simp
    then have "n - 2 ^ Suc i < n - 2 ^ i" using less.prems by linarith
    from less.hyps [OF this True] show ?thesis using True by (subst pow2_loop.simps) (simp only: m if_True)
  next
    case False
    then have "split_at n = 2 ^ i" using split_at_unique [OF less.prems] by simp
    then show ?thesis using False by (subst pow2_loop.simps) (simp only: m if_False)
  qed
qed

lemma largest_pow2_below_exact: "2 \<le> n \<Longrightarrow> n \<le> 2 ^ 63 \<Longrightarrow> largest_pow2_below n = Some (split_at n)"
  using pow2_loop_returns [of n 0] by (simp add: largest_pow2_below_def)

text \<open>Above \<open>2 ^ 63\<close> the loop runs into 0 and stays there.\<close>

definition below_top :: "nat \<Rightarrow> bool" where
  "below_top k = (k = 0 \<or> (\<exists>i \<le> 63. k = 2 ^ i))"

lemma below_top_double: "below_top k \<Longrightarrow> below_top (2 * k mod 2 ^ 64)"
proof (cases "k = 0 \<or> k = 2 ^ 63")
  case False
  assume "below_top k"
  with False obtain i where i: "i \<le> 63" "k = 2 ^ i" unfolding below_top_def by blast
  then have "i \<noteq> 63" using False by blast
  with i have "(2::nat) ^ Suc i < 2 ^ 64" by (intro power_strict_increasing) auto
  then have "2 * k mod 2 ^ 64 = 2 ^ Suc i" unfolding i(2) power_Suc by (rule mod_less)
  moreover have "Suc i \<le> 63" using i \<open>i \<noteq> 63\<close> by simp
  ultimately show ?thesis unfolding below_top_def by blast
qed (auto simp: below_top_def)

lemma below_top_le: "below_top k \<Longrightarrow> k \<le> 2 ^ 63"
  unfolding below_top_def using power_increasing [of _ 63 "2::nat"] by auto

lemma pow2_loop_bound:
  assumes ret: "pow2_loop n k = Some y"
  shows "below_top k \<longrightarrow> n \<le> 2 ^ 63"
proof (rule pow2_loop.raw_induct [where P = "\<lambda>n k y. below_top k \<longrightarrow> n \<le> 2 ^ 63", OF _ ret], intro impI)
  fix f n k y
  assume ih: "\<And>n k y. f n k = Some y \<Longrightarrow> below_top k \<longrightarrow> n \<le> 2 ^ 63"
    and body: "(if 2 * k mod 2 ^ 64 < n then f n (2 * k mod 2 ^ 64) else Some k) = Some y" and k: "below_top k"
  note d = below_top_double [OF k]
  show "n \<le> 2 ^ 63"
  proof (cases "2 * k mod 2 ^ 64 < n")
    case True
    then have "f n (2 * k mod 2 ^ 64) = Some y" using body by simp
    from ih [OF this] d show ?thesis by blast
  next
    case False
    then show ?thesis using below_top_le [OF d] by linarith
  qed
qed

lemma pow2_loop_stuck: "2 ^ 63 < n \<Longrightarrow> largest_pow2_below n = None"
proof -
  assume n: "2 ^ 63 < n"
  have "below_top (2 ^ 0)" unfolding below_top_def by blast
  then have "pow2_loop n 1 \<noteq> Some y" for y using pow2_loop_bound [of n 1 y] n by auto
  then show ?thesis unfolding largest_pow2_below_def by (cases "pow2_loop n 1") auto
qed

section \<open>The tree of RFC 6962\<close>

definition node_input :: "hash \<Rightarrow> hash \<Rightarrow> u8 list" where
  "node_input l r = 1 # l @ r"

lemma split_shorter:
  fixes ls :: "'a list"
  assumes "\<not> length ls \<le> 1"
  shows "split_at (length ls) < length ls" "length ls - split_at (length ls) < length ls"
  using split_at_bounds [of "length ls"] assms by auto

function merkle_root :: "digest \<Rightarrow> hash list \<Rightarrow> hash" where
  "merkle_root sha ls =
     (if ls = [] then sha [] else if length ls \<le> 1 then hd ls
      else node_hash sha (merkle_root sha (take (split_at (length ls)) ls)) (merkle_root sha (drop (split_at (length ls)) ls)))"
  by pat_completeness auto
termination
  by (relation "measure (\<lambda>(sha, ls). length ls)") (auto simp: split_shorter min_less_iff_disj)

declare merkle_root.simps [simp del]

text \<open>What is hashed to build the tree, and to check a proof.\<close>

function tree_inputs :: "digest \<Rightarrow> hash list \<Rightarrow> u8 list list" where
  "tree_inputs sha ls =
     (if length ls \<le> 1 then []
      else let k = split_at (length ls) in
        node_input (merkle_root sha (take k ls)) (merkle_root sha (drop k ls)) #
          tree_inputs sha (take k ls) @ tree_inputs sha (drop k ls))"
  by pat_completeness auto
termination
  by (relation "measure (\<lambda>(sha, ls). length ls)") (auto simp: split_shorter min_less_iff_disj)

declare tree_inputs.simps [simp del]

lemma tree_split:
  assumes "2 \<le> length ls"
  shows "merkle_root sha ls =
      node_hash sha (merkle_root sha (take (split_at (length ls)) ls)) (merkle_root sha (drop (split_at (length ls)) ls))"
    and "tree_inputs sha ls = node_input (merkle_root sha (take (split_at (length ls)) ls)) (merkle_root sha (drop (split_at (length ls)) ls)) #
      tree_inputs sha (take (split_at (length ls)) ls) @ tree_inputs sha (drop (split_at (length ls)) ls)"
  using assms by (subst merkle_root.simps, auto) (subst tree_inputs.simps, auto simp: Let_def)

lemma merkle_root_one: "merkle_root sha [x] = x"
  by (subst merkle_root.simps) simp

definition hashes :: "hash list \<Rightarrow> bool" where
  "hashes ls = (\<forall>x \<in> set ls. length x = 32)"

definition digest32 :: "digest \<Rightarrow> bool" where
  "digest32 sha = (\<forall>x. length (sha x) = 32)"

lemma hashes_simps [simp]:
  "hashes []" "hashes (x # xs) \<longleftrightarrow> length x = 32 \<and> hashes xs" "hashes ls \<Longrightarrow> hashes (take k ls)" "hashes ls \<Longrightarrow> hashes (drop k ls)"
  by (auto simp: hashes_def dest: in_set_takeD in_set_dropD)

lemma root_length: "digest32 sha \<Longrightarrow> hashes ls \<Longrightarrow> length (merkle_root sha ls) = 32"
proof -
  assume "digest32 sha" "hashes ls"
  then show ?thesis by (cases ls; cases "tl ls") (subst merkle_root.simps, simp add: digest32_def node_hash_def hashes_def)+
qed

text \<open>Equal nodes have equal children.\<close>

lemma node_children:
  assumes "inj_on sha S" and "node_input l r \<in> S" "node_input l' r' \<in> S" and "node_hash sha l r = node_hash sha l' r'"
    and "length l = length l'"
  shows "l = l' \<and> r = r'"
proof -
  have "node_input l r = node_input l' r'" using assms(1-4) by (auto simp: node_hash_def node_input_def dest: inj_onD)
  then show ?thesis using assms(5) by (simp add: node_input_def)
qed

lemma list_cases2: "2 \<le> length ls \<or> ls = [] \<or> (\<exists>x. ls = [x])"
  by (cases ls; cases "tl ls") auto

lemma root_inj:
  "\<lbrakk>digest32 sha; inj_on sha S; length xs = length ys; hashes xs; hashes ys;
    set (tree_inputs sha xs) \<subseteq> S; set (tree_inputs sha ys) \<subseteq> S; merkle_root sha xs = merkle_root sha ys\<rbrakk> \<Longrightarrow> xs = ys"
proof (induction "length xs" arbitrary: xs ys rule: less_induct)
  case less
  consider "2 \<le> length xs" | "xs = []" | x where "xs = [x]" using list_cases2 by blast
  then show ?case
  proof cases
    case 1
    let ?k = "split_at (length xs)"
    have l: "length ys = length xs" "2 \<le> length ys" using 1 less.prems(3) by simp_all
    note X = tree_split [OF 1, of sha] and Y = tree_split [OF l(2), of sha, unfolded l(1)]
    have c: "merkle_root sha (take ?k xs) = merkle_root sha (take ?k ys) \<and> merkle_root sha (drop ?k xs) = merkle_root sha (drop ?k ys)"
    proof (rule node_children [OF less.prems(2)])
      show "node_hash sha (merkle_root sha (take ?k xs)) (merkle_root sha (drop ?k xs)) =
          node_hash sha (merkle_root sha (take ?k ys)) (merkle_root sha (drop ?k ys))"
        using less.prems(8) unfolding X(1) Y(1) .
      show "length (merkle_root sha (take ?k xs)) = length (merkle_root sha (take ?k ys))"
        using root_length [OF less.prems(1)] less.prems(4,5) by simp
    qed (use less.prems(6,7) X(2) Y(2) in auto)
    have S: "set (tree_inputs sha (take ?k xs)) \<subseteq> S" "set (tree_inputs sha (drop ?k xs)) \<subseteq> S"
      "set (tree_inputs sha (take ?k ys)) \<subseteq> S" "set (tree_inputs sha (drop ?k ys)) \<subseteq> S"
      using less.prems(6,7) unfolding X(2) Y(2) by auto
    have "take ?k xs = take ?k ys"
      by (rule less.hyps) (use split_at_bounds [OF 1] less.prems(1,2,4,5) c S l(1) in simp_all)
    moreover have "drop ?k xs = drop ?k ys"
      by (rule less.hyps) (use split_shorter(2) [of xs] 1 less.prems(1,2,4,5) c S l(1) in simp_all)
    ultimately show ?thesis by (metis append_take_drop_id)
  next
    case 2
    then show ?thesis using less.prems(3) by simp
  next
    case 3
    then obtain y where "ys = [y]" using less.prems(3) by (cases ys) auto
    with 3 less.prems(8) show ?thesis by (simp add: merkle_root_one)
  qed
qed

text \<open>A digest with 32 bytes for the examples.\<close>

definition toy_sha :: digest where
  "toy_sha x = replicate 31 0 @ [fold (+) x 0]"

lemma toy_sha_digest32: "digest32 toy_sha"
  by (simp add: digest32_def toy_sha_def)

abbreviation hash_of :: "u8 \<Rightarrow> hash" where
  "hash_of b \<equiv> replicate 32 b"

section \<open>Inclusion proofs\<close>

declare root_from_inclusion.simps [simp del] reconstruct_consistency.simps [simp del]

lemma inclusion_step:
  assumes "2 \<le> n" and "n \<le> 2 ^ 63" and "path \<noteq> []"
  shows "root_from_inclusion sha leaf m n path =
    (if m < split_at n then map_option (map_option (\<lambda>l. node_hash sha l (last path))) (root_from_inclusion sha leaf m (split_at n) (butlast path))
     else map_option (map_option (\<lambda>r. node_hash sha (last path) r)) (root_from_inclusion sha leaf (m - split_at n) (n - split_at n) (butlast path)))"
  using assms largest_pow2_below_exact [OF assms(1,2)] by (subst root_from_inclusion.simps) auto

lemma inclusion_leaf: "n \<le> 1 \<Longrightarrow> root_from_inclusion sha leaf m n path = Some (if path = [] then Some leaf else None)"
  "2 \<le> n \<Longrightarrow> root_from_inclusion sha leaf m n [] = Some None"
  by (subst root_from_inclusion.simps, simp)+

text \<open>The proof an honest log gives for the leaf at \<open>m\<close>, innermost sibling first.\<close>

function inclusion_proof :: "digest \<Rightarrow> hash list \<Rightarrow> nat \<Rightarrow> hash list" where
  "inclusion_proof sha ls m =
     (if length ls \<le> 1 then []
      else if m < split_at (length ls)
      then inclusion_proof sha (take (split_at (length ls)) ls) m @ [merkle_root sha (drop (split_at (length ls)) ls)]
      else inclusion_proof sha (drop (split_at (length ls)) ls) (m - split_at (length ls)) @ [merkle_root sha (take (split_at (length ls)) ls)])"
  by pat_completeness auto
termination
  by (relation "measure (\<lambda>(sha, ls, m). length ls)") (auto simp: split_shorter min_less_iff_disj)

declare inclusion_proof.simps [simp del]

lemma inclusion_root:
  "\<lbrakk>m < length ls; length ls \<le> 2 ^ 63\<rbrakk> \<Longrightarrow>
   root_from_inclusion sha (ls ! m) m (length ls) (inclusion_proof sha ls m) = Some (Some (merkle_root sha ls))"
proof (induction sha ls m rule: inclusion_proof.induct)
  case (1 sha ls m)
  show ?case
  proof (cases "length ls \<le> 1")
    case True
    with 1(3) obtain x where "ls = [x]" by (cases ls; cases "tl ls") auto
    with 1(3) show ?thesis by (subst inclusion_proof.simps) (simp add: inclusion_leaf merkle_root_one)
  next
    case False
    let ?k = "split_at (length ls)"
    have l: "2 \<le> length ls" using False by simp
    note b = split_at_bounds [OF l] and s = inclusion_step [OF l 1(4)] and t = tree_split(1) [OF l, of sha]
    show ?thesis
    proof (cases "m < ?k")
      case True
      have p: "inclusion_proof sha ls m = inclusion_proof sha (take ?k ls) m @ [merkle_root sha (drop ?k ls)]"
        using False True by (subst inclusion_proof.simps) simp
      have "root_from_inclusion sha (take ?k ls ! m) m (length (take ?k ls)) (inclusion_proof sha (take ?k ls) m) = Some (Some (merkle_root sha (take ?k ls)))"
        by (rule 1(1) [OF False True]) (use 1(4) b True in simp_all)
      then show ?thesis unfolding p t using s b True by simp
    next
      case m: False
      have p: "inclusion_proof sha ls m = inclusion_proof sha (drop ?k ls) (m - ?k) @ [merkle_root sha (take ?k ls)]"
        using False m by (subst inclusion_proof.simps) simp
      have "root_from_inclusion sha (drop ?k ls ! (m - ?k)) (m - ?k) (length (drop ?k ls)) (inclusion_proof sha (drop ?k ls) (m - ?k)) =
          Some (Some (merkle_root sha (drop ?k ls)))"
        by (rule 1(2) [OF False m]) (use 1(3,4) b m in simp_all)
      then show ?thesis unfolding p t using s b m 1(3) by simp
    qed
  qed
qed

text \<open>What is hashed to check a proof.\<close>

function inclusion_inputs :: "digest \<Rightarrow> hash \<Rightarrow> nat \<Rightarrow> nat \<Rightarrow> hash list \<Rightarrow> u8 list list" where
  "inclusion_inputs sha leaf m n path =
     (if n \<le> 1 \<or> path = [] then []
      else if m < split_at n then
        (case root_from_inclusion sha leaf m (split_at n) (butlast path) of Some (Some l) \<Rightarrow> [node_input l (last path)] | _ \<Rightarrow> []) @
        inclusion_inputs sha leaf m (split_at n) (butlast path)
      else
        (case root_from_inclusion sha leaf (m - split_at n) (n - split_at n) (butlast path) of Some (Some r) \<Rightarrow> [node_input (last path) r] | _ \<Rightarrow> []) @
        inclusion_inputs sha leaf (m - split_at n) (n - split_at n) (butlast path))"
  by pat_completeness auto
termination
  by (relation "measure (\<lambda>(sha, leaf, m, n, path). length path)") auto

declare inclusion_inputs.simps [simp del]

lemma inclusion_length:
  "\<lbrakk>root_from_inclusion sha leaf m n path = Some (Some r); digest32 sha; length leaf = 32\<rbrakk> \<Longrightarrow> length r = 32"
  by (subst (asm) root_from_inclusion.simps) (auto simp: digest32_def node_hash_def split: if_splits option.splits)

lemma map2_SomeE:
  assumes "map_option (map_option f) x = Some (Some y)"
  obtains z where "x = Some (Some z)" "f z = y"
  using assms by auto

lemma inclusion_sound_aux:
  "\<lbrakk>digest32 sha; inj_on sha S; length leaf = 32; hashes ls; hashes path; m < length ls; length ls \<le> 2 ^ 63;
    root_from_inclusion sha leaf m (length ls) path = Some (Some (merkle_root sha ls));
    set (tree_inputs sha ls) \<subseteq> S; set (inclusion_inputs sha leaf m (length ls) path) \<subseteq> S\<rbrakk> \<Longrightarrow> leaf = ls ! m"
proof (induction "length path" arbitrary: m ls path rule: less_induct)
  case less
  note P = less.prems
  show ?case
  proof (cases "length ls \<le> 1")
    case True
    with P(6) obtain x where "ls = [x]" by (cases ls; cases "tl ls") auto
    then show ?thesis using P(6,8) by (auto simp: inclusion_leaf merkle_root_one split: if_splits)
  next
    case False
    then have l: "2 \<le> length ls" by simp
    have path: "path \<noteq> []" using P(8) inclusion_leaf(2) [OF l] by auto
    then have shorter: "length (butlast path) < length path" "hashes (butlast path)" "length (last path) = 32"
      using P(5) by (auto simp: hashes_def dest: in_set_butlastD)
    let ?k = "split_at (length ls)"
    note b = split_at_bounds [OF l] and s = inclusion_step [OF l P(7) path, of sha leaf m] and T = tree_split [OF l, of sha]
    have R: "node_input (merkle_root sha (take ?k ls)) (merkle_root sha (drop ?k ls)) \<in> S"
      "set (tree_inputs sha (take ?k ls)) \<subseteq> S" "set (tree_inputs sha (drop ?k ls)) \<subseteq> S" using P(9) unfolding T(2) by auto
    show ?thesis
    proof (cases "m < ?k")
      case True
      have "map_option (map_option (\<lambda>l. node_hash sha l (last path))) (root_from_inclusion sha leaf m ?k (butlast path)) =
          Some (Some (merkle_root sha ls))" using s P(8) True by simp
      then obtain x where x: "root_from_inclusion sha leaf m ?k (butlast path) = Some (Some x)"
        "node_hash sha x (last path) = merkle_root sha ls" by (rule map2_SomeE)
      have I: "node_input x (last path) \<in> S" "set (inclusion_inputs sha leaf m ?k (butlast path)) \<subseteq> S"
        using P(10) x(1) True path l by (subst (asm) inclusion_inputs.simps, auto)+
      have "x = merkle_root sha (take ?k ls) \<and> last path = merkle_root sha (drop ?k ls)"
        by (rule node_children [OF P(2) I(1) R(1)]) (use x(2) T(1) inclusion_length [OF x(1) P(1,3)] root_length [OF P(1)] P(4) in simp_all)
      then have "leaf = take ?k ls ! m"
        by (intro less.hyps [OF shorter(1) P(1-3) _ shorter(2)]) (use P(4,7) True b x(1) I R in simp_all)
      then show ?thesis using True by simp
    next
      case m: False
      have "map_option (map_option (\<lambda>r. node_hash sha (last path) r)) (root_from_inclusion sha leaf (m - ?k) (length ls - ?k) (butlast path)) =
          Some (Some (merkle_root sha ls))" using s P(8) m by simp
      then obtain x where x: "root_from_inclusion sha leaf (m - ?k) (length ls - ?k) (butlast path) = Some (Some x)"
        "node_hash sha (last path) x = merkle_root sha ls" by (rule map2_SomeE)
      have I: "node_input (last path) x \<in> S" "set (inclusion_inputs sha leaf (m - ?k) (length ls - ?k) (butlast path)) \<subseteq> S"
        using P(10) x(1) m path l by (subst (asm) inclusion_inputs.simps, auto)+
      have "last path = merkle_root sha (take ?k ls) \<and> x = merkle_root sha (drop ?k ls)"
        by (rule node_children [OF P(2) I(1) R(1)]) (use x(2) T(1) shorter(3) root_length [OF P(1)] P(4) in simp_all)
      then have "leaf = drop ?k ls ! (m - ?k)"
        by (intro less.hyps [OF shorter(1) P(1-3) _ shorter(2)]) (use P(4,6,7) m b x(1) I R in simp_all)
      then show ?thesis using m P(6) by simp
    qed
  qed
qed

text \<open>
  An accepted inclusion proof is honest. Let \<open>leaves\<close> be any log of at most \<open>2 ^ 63\<close> entries with the given
  size and root, and let the digest give 32 bytes and not collide on the inputs hashed for this tree and
  this proof. Whenever \<open>verify_inclusion\<close> accepts, the index is below the size and the leaf is the entry of
  the log at that index.
\<close>

theorem inclusion_sound:
  assumes "digest32 sha" and "hashes leaves" and "hashes path" and "length leaf = 32" and "length leaves \<le> 2 ^ 63"
    and "inj_on sha (set (tree_inputs sha leaves) \<union> set (inclusion_inputs sha leaf m (length leaves) path))"
    and "verify_inclusion sha leaf m (length leaves) path (merkle_root sha leaves) = Some True"
  shows "m < length leaves \<and> leaf = leaves ! m"
proof -
  have m: "m < length leaves" "root_from_inclusion sha leaf m (length leaves) path = Some (Some (merkle_root sha leaves))"
    using assms(7) by (auto simp: verify_inclusion_def split: if_splits)
  then show ?thesis using inclusion_sound_aux [OF assms(1,6,4,2,3) m(1) assms(5) m(2)] by simp
qed

lemma inclusion_complete:
  assumes "m < length leaves" and "length leaves \<le> 2 ^ 63"
  shows "verify_inclusion sha (leaves ! m) m (length leaves) (inclusion_proof sha leaves m) (merkle_root sha leaves) = Some True"
  using inclusion_root [OF assms, of sha] assms(1) by (simp add: verify_inclusion_def)

section \<open>Consistency proofs\<close>

lemma split_at_same: "2 \<le> n \<Longrightarrow> split_at n < m \<Longrightarrow> m \<le> n \<Longrightarrow> split_at m = split_at n"
proof -
  assume a: "2 \<le> n" "split_at n < m" "m \<le> n"
  obtain i where i: "split_at n = 2 ^ i" using split_at_power by blast
  have "split_at m = 2 ^ i" by (rule split_at_unique) (use a split_at_bounds [OF a(1)] i in simp_all)
  then show ?thesis using i by simp
qed

lemma consistency_step:
  assumes "m < n" and "2 \<le> n" and "n \<le> 2 ^ 63" and "path \<noteq> []"
  shows "reconstruct_consistency sha path m n b rm =
    (if m \<le> split_at n then
       map_option (map_option (\<lambda>(lo, hi). (lo, node_hash sha hi (last path)))) (reconstruct_consistency sha (butlast path) m (split_at n) b rm)
     else
       map_option (map_option (\<lambda>(lo, hi). (node_hash sha (last path) lo, node_hash sha (last path) hi)))
         (reconstruct_consistency sha (butlast path) (m - split_at n) (n - split_at n) False rm))"
  using assms largest_pow2_below_exact [OF assms(2,3)] by (subst reconstruct_consistency.simps) auto

lemma consistency_ends:
  "reconstruct_consistency sha path n n b rm =
     Some (if b then Some (rm, rm) else if path = [] then None else Some (last path, last path))"
  "m \<noteq> n \<Longrightarrow> reconstruct_consistency sha [] m n b rm = Some None"
  by (subst reconstruct_consistency.simps, simp)+

function subproof :: "digest \<Rightarrow> nat \<Rightarrow> hash list \<Rightarrow> bool \<Rightarrow> hash list" where
  "subproof sha m ls b =
     (if m = length ls then (if b then [] else [merkle_root sha ls])
      else if length ls \<le> 1 then []
      else if m \<le> split_at (length ls)
      then subproof sha m (take (split_at (length ls)) ls) b @ [merkle_root sha (drop (split_at (length ls)) ls)]
      else subproof sha (m - split_at (length ls)) (drop (split_at (length ls)) ls) False @ [merkle_root sha (take (split_at (length ls)) ls)])"
  by pat_completeness auto
termination
  by (relation "measure (\<lambda>(sha, m, ls, b). length ls)") (auto simp: split_shorter min_less_iff_disj)

declare subproof.simps [simp del]

lemma consistency_root:
  "\<lbrakk>0 < m; m \<le> length ls; length ls \<le> 2 ^ 63; b \<Longrightarrow> rm = merkle_root sha (take m ls)\<rbrakk> \<Longrightarrow>
   reconstruct_consistency sha (subproof sha m ls b) m (length ls) b rm = Some (Some (merkle_root sha (take m ls), merkle_root sha ls))"
proof (induction sha m ls b rule: subproof.induct)
  case (1 sha m ls b)
  show ?case
  proof (cases "m = length ls")
    case True
    then have "subproof sha m ls b = (if b then [] else [merkle_root sha ls])" by (subst subproof.simps) simp
    then show ?thesis using True 1(6) by (simp add: consistency_ends)
  next
    case False
    let ?k = "split_at (length ls)"
    have l: "m < length ls" "2 \<le> length ls" using False 1(3,4) by simp_all
    then have nl: "\<not> length ls \<le> 1" by simp
    note bd = split_at_bounds [OF l(2)] and s = consistency_step [OF l 1(5), of _ sha _ rm] and t = tree_split(1) [OF l(2), of sha]
    show ?thesis
    proof (cases "m \<le> ?k")
      case True
      have p: "subproof sha m ls b = subproof sha m (take ?k ls) b @ [merkle_root sha (drop ?k ls)]"
        using False nl True by (subst subproof.simps) simp
      have tk: "take m (take ?k ls) = take m ls" using True by (simp add: min_def)
      have "reconstruct_consistency sha (subproof sha m (take ?k ls) b) m (length (take ?k ls)) b rm =
          Some (Some (merkle_root sha (take m (take ?k ls)), merkle_root sha (take ?k ls)))"
        by (rule 1(1) [OF False nl True]) (use 1(3,5,6) bd True tk in simp_all)
      then show ?thesis unfolding p t tk using s bd True by simp
    next
      case m: False
      have p: "subproof sha m ls b = subproof sha (m - ?k) (drop ?k ls) False @ [merkle_root sha (take ?k ls)]"
        using False nl m by (subst subproof.simps) simp
      have "reconstruct_consistency sha (subproof sha (m - ?k) (drop ?k ls) False) (m - ?k) (length (drop ?k ls)) False rm =
          Some (Some (merkle_root sha (take (m - ?k) (drop ?k ls)), merkle_root sha (drop ?k ls)))"
        by (rule 1(2) [OF False nl m]) (use l(1) 1(5) bd m in simp_all)
      moreover have "merkle_root sha (take m ls) = node_hash sha (merkle_root sha (take ?k ls)) (merkle_root sha (take (m - ?k) (drop ?k ls)))"
      proof -
        have "split_at m = ?k" by (rule split_at_same [OF l(2)]) (use m l(1) in simp_all)
        moreover have lm: "2 \<le> length (take m ls)" "length (take m ls) = m" using m bd l(1) by simp_all
        moreover have "take ?k (take m ls) = take ?k ls" "drop ?k (take m ls) = take (m - ?k) (drop ?k ls)"
          using m by (simp_all add: min_def drop_take)
        ultimately show ?thesis using tree_split(1) [OF lm(1), of sha] by (simp only:)
      qed
      ultimately show ?thesis unfolding p t using s bd m by simp
    qed
  qed
qed

function consistency_inputs :: "digest \<Rightarrow> hash list \<Rightarrow> nat \<Rightarrow> nat \<Rightarrow> bool \<Rightarrow> hash \<Rightarrow> u8 list list" where
  "consistency_inputs sha path m n b rm =
     (if m = n \<or> path = [] then []
      else if m \<le> split_at n then
        (case reconstruct_consistency sha (butlast path) m (split_at n) b rm of
           Some (Some (lo, hi)) \<Rightarrow> [node_input hi (last path)] | _ \<Rightarrow> []) @
        consistency_inputs sha (butlast path) m (split_at n) b rm
      else
        (case reconstruct_consistency sha (butlast path) (m - split_at n) (n - split_at n) False rm of
           Some (Some (lo, hi)) \<Rightarrow> [node_input (last path) lo, node_input (last path) hi] | _ \<Rightarrow> []) @
        consistency_inputs sha (butlast path) (m - split_at n) (n - split_at n) False rm)"
  by pat_completeness auto
termination
  by (relation "measure (\<lambda>(sha, path, m, n, b, rm). length path)") auto

declare consistency_inputs.simps [simp del]

lemma consistency_inputs_right:
  assumes "m \<noteq> n" and "path \<noteq> []" and "\<not> m \<le> split_at n"
    and "reconstruct_consistency sha (butlast path) (m - split_at n) (n - split_at n) False rm = Some (Some (x, y))"
  shows "consistency_inputs sha path m n b rm = [node_input (last path) x, node_input (last path) y] @
    consistency_inputs sha (butlast path) (m - split_at n) (n - split_at n) False rm"
  using assms by (subst consistency_inputs.simps) simp

lemma consistency_length:
  "\<lbrakk>reconstruct_consistency sha path m n b rm = Some (Some (lo, hi)); digest32 sha; hashes path; length rm = 32\<rbrakk> \<Longrightarrow> length hi = 32"
  by (subst (asm) reconstruct_consistency.simps) (auto simp: digest32_def node_hash_def hashes_def split: if_splits option.splits)

lemma consistency_sound_aux:
  "\<lbrakk>digest32 sha; inj_on sha S; length rm = 32; hashes old; hashes new; hashes path; 0 < length old; length old \<le> length new;
    length new \<le> 2 ^ 63; reconstruct_consistency sha path (length old) (length new) b rm = Some (Some (merkle_root sha old, merkle_root sha new));
    set (tree_inputs sha old) \<subseteq> S; set (tree_inputs sha new) \<subseteq> S;
    set (consistency_inputs sha path (length old) (length new) b rm) \<subseteq> S\<rbrakk> \<Longrightarrow> old = take (length old) new"
proof (induction "length path" arbitrary: old new path b rule: less_induct)
  case less
  note P = less.prems
  show ?case
  proof (cases "length old = length new")
    case True
    then have "merkle_root sha old = merkle_root sha new" using P(10) by (auto simp: consistency_ends split: if_splits)
    then have "old = new" using root_inj [OF P(1,2) True P(4,5,11,12)] by simp
    then show ?thesis by simp
  next
    case False
    then have l: "length old < length new" "2 \<le> length new" using P(7,8) False by linarith+
    have path: "path \<noteq> []" using P(10) consistency_ends(2) [OF False] by auto
    then have shorter: "length (butlast path) < length path" "hashes (butlast path)" "length (last path) = 32"
      using P(6) by (auto simp: hashes_def dest: in_set_butlastD)
    let ?k = "split_at (length new)" let ?m = "length old"
    note b = split_at_bounds [OF l(2)] and s = consistency_step [OF l P(9) path, of sha b rm] and T = tree_split [OF l(2), of sha]
    have R: "node_input (merkle_root sha (take ?k new)) (merkle_root sha (drop ?k new)) \<in> S"
      "set (tree_inputs sha (take ?k new)) \<subseteq> S" "set (tree_inputs sha (drop ?k new)) \<subseteq> S" using P(12) unfolding T(2) by auto
    show ?thesis
    proof (cases "?m \<le> ?k")
      case True
      have "map_option (map_option (\<lambda>(lo, hi). (lo, node_hash sha hi (last path)))) (reconstruct_consistency sha (butlast path) ?m ?k b rm) =
          Some (Some (merkle_root sha old, merkle_root sha new))" using s P(10) True by simp
      then obtain x where x: "reconstruct_consistency sha (butlast path) ?m ?k b rm = Some (Some (merkle_root sha old, x))"
        "node_hash sha x (last path) = merkle_root sha new" by (rule map2_SomeE) auto
      have I: "node_input x (last path) \<in> S" "set (consistency_inputs sha (butlast path) ?m ?k b rm) \<subseteq> S"
        using P(13) x(1) True path l by (subst (asm) consistency_inputs.simps, auto)+
      have "x = merkle_root sha (take ?k new) \<and> last path = merkle_root sha (drop ?k new)"
        by (rule node_children [OF P(2) I(1) R(1)]) (use x(2) T(1) consistency_length [OF x(1) P(1) shorter(2) P(3)] root_length [OF P(1)] P(5) in simp_all)
      then have "old = take ?m (take ?k new)"
        by (intro less.hyps [OF shorter(1) P(1-4) _ shorter(2) P(7), of _ b]) (use P(5,9,11) True b x(1) I R in simp_all)
      moreover have "take ?m (take ?k new) = take ?m new" using True by (simp only: take_take min.absorb1)
      ultimately show ?thesis by (rule trans)
    next
      case m: False
      have "?k < ?m" "?m \<le> length new" using m l(1) by linarith+
      then have e: "split_at ?m = ?k" "2 \<le> ?m" using split_at_same [OF l(2)] b by (blast, linarith)
      note O = tree_split [OF e(2), of sha, unfolded e(1)]
      have Q: "node_input (merkle_root sha (take ?k old)) (merkle_root sha (drop ?k old)) \<in> S"
        "set (tree_inputs sha (take ?k old)) \<subseteq> S" "set (tree_inputs sha (drop ?k old)) \<subseteq> S" using P(11) unfolding O(2) by auto
      have "map_option (map_option (\<lambda>(lo, hi). (node_hash sha (last path) lo, node_hash sha (last path) hi)))
          (reconstruct_consistency sha (butlast path) (?m - ?k) (length new - ?k) False rm) =
          Some (Some (merkle_root sha old, merkle_root sha new))" using s P(10) m by simp
      then obtain x y where x: "reconstruct_consistency sha (butlast path) (?m - ?k) (length new - ?k) False rm = Some (Some (x, y))"
        "node_hash sha (last path) x = merkle_root sha old" "node_hash sha (last path) y = merkle_root sha new" by (rule map2_SomeE) auto
      have I: "node_input (last path) x \<in> S" "node_input (last path) y \<in> S"
        "set (consistency_inputs sha (butlast path) (?m - ?k) (length new - ?k) False rm) \<subseteq> S"
        using P(13) unfolding consistency_inputs_right [OF False path m x(1)] by simp_all
      have c: "last path = merkle_root sha (take ?k old) \<and> x = merkle_root sha (drop ?k old)"
        by (rule node_children [OF P(2) I(1) Q(1)]) (use x(2) O(1) shorter(3) root_length [OF P(1)] P(4) in simp_all)
      have d: "last path = merkle_root sha (take ?k new) \<and> y = merkle_root sha (drop ?k new)"
        by (rule node_children [OF P(2) I(2) R(1)]) (use x(3) T(1) shorter(3) root_length [OF P(1)] P(5) in simp_all)
      have "take ?k old = take ?k new"
        by (rule root_inj [OF P(1,2)]) (use c d P(4,5) Q R m l(1) b in simp_all)
      moreover have "drop ?k old = take (length (drop ?k old)) (drop ?k new)"
        by (intro less.hyps [OF shorter(1) P(1-3) _ _ shorter(2), of _ _ False]) (use P(4,5,9) m l b x(1) c d I(3) Q R in simp_all)
      ultimately have "take ?k old @ drop ?k old = take ?k new @ take (?m - ?k) (drop ?k new)" by simp
      also have "\<dots> = take ?m new" using m take_add [of ?k "?m - ?k" new] by simp
      finally show ?thesis by simp
    qed
  qed
qed

text \<open>
  C7: an accepted consistency proof means the log was only appended to. Let \<open>old\<close> and \<open>new\<close> be any logs (at
  most \<open>2 ^ 63\<close> entries) with the two given sizes and roots, and let the digest give 32 bytes and not collide
  on the inputs hashed for the trees and the proof. Whenever \<open>verify_consistency\<close> accepts, the old log is a
  prefix of the new one.
\<close>

theorem consistency_sound:
  assumes "digest32 sha" and "hashes old" and "hashes new" and "hashes path" and "length new \<le> 2 ^ 63"
    and "inj_on sha (set (tree_inputs sha old) \<union> set (tree_inputs sha new) \<union>
      set (consistency_inputs sha path (length old) (length new) True (merkle_root sha old)))"
    and "verify_consistency sha (length old) (length new) path (merkle_root sha old) (merkle_root sha new) = Some True"
  shows "length old \<le> length new \<and> old = take (length old) new"
proof -
  have le: "length old \<le> length new" using assms(7) by (auto simp: verify_consistency_def split: if_splits)
  consider "length old = length new" | "old = []" | "length old < length new" "0 < length old" using le by fastforce
  then show ?thesis
  proof cases
    case 1
    then have "merkle_root sha old = merkle_root sha new" using assms(7) by (simp add: verify_consistency_def)
    then have "old = new" using root_inj [OF assms(1,6) 1 assms(2,3)] by auto
    then show ?thesis by simp
  next
    case 3
    then have "reconstruct_consistency sha path (length old) (length new) True (merkle_root sha old) =
        Some (Some (merkle_root sha old, merkle_root sha new))"
      using assms(7) by (auto simp: verify_consistency_def)
    from consistency_sound_aux [OF assms(1,6) root_length [OF assms(1,2)] assms(2-4) 3(2) le assms(5) this] le show ?thesis by auto
  qed simp
qed

lemma consistency_complete:
  assumes "m \<le> length leaves" and "length leaves \<le> 2 ^ 63"
  shows "verify_consistency sha m (length leaves) (subproof sha m leaves True) (merkle_root sha (take m leaves)) (merkle_root sha leaves) = Some True"
proof -
  have "subproof sha m leaves True = []" if "m = length leaves" using that by (subst subproof.simps) simp
  then show ?thesis using consistency_root [of m leaves True "merkle_root sha (take m leaves)" sha] assms
    by (auto simp: verify_consistency_def)
qed

text \<open>
  C15: honest proofs are accepted. For every log of at most \<open>2 ^ 63\<close> entries, whatever the digest, the audit
  path of RFC 6962 for each entry verifies against the root, and the consistency proof of RFC 6962 from
  each earlier size verifies against the two roots.
\<close>

theorem honest_proofs_verify:
  assumes "length leaves \<le> 2 ^ 63"
  shows "(\<forall>m < length leaves.
      verify_inclusion sha (leaves ! m) m (length leaves) (inclusion_proof sha leaves m) (merkle_root sha leaves) = Some True) \<and>
    (\<forall>m \<le> length leaves.
      verify_consistency sha m (length leaves) (subproof sha m leaves True) (merkle_root sha (take m leaves)) (merkle_root sha leaves) = Some True)"
  using inclusion_complete [OF _ assms] consistency_complete [OF _ assms] by blast

text \<open>A log of two entries.\<close>

lemma split_at_two: "split_at (Suc (Suc 0)) = Suc 0"
  by (subst split_at.simps) simp

lemma two_inclusion:
  "inclusion_proof sha [x, y] (Suc 0) = [x]" "inclusion_inputs sha y (Suc 0) (Suc (Suc 0)) [x] = [node_input x y]"
  by (subst inclusion_proof.simps, simp add: split_at_two inclusion_proof.simps [of sha "[y]"] merkle_root_one)
    (subst inclusion_inputs.simps, simp add: split_at_two inclusion_inputs.simps [of sha y 0 "Suc 0"] inclusion_leaf)

lemma two_consistency:
  "subproof sha (Suc 0) [x, y] True = [y]" "consistency_inputs sha [y] (Suc 0) (Suc (Suc 0)) True x = [node_input x y]"
  by (subst subproof.simps, simp add: split_at_two subproof.simps [of sha "Suc 0" "[x]"] merkle_root_one)
    (subst consistency_inputs.simps, simp add: split_at_two consistency_inputs.simps [of sha "[]"] consistency_ends)

lemma two_tree: "tree_inputs sha [x, y] = [node_input x y]" "tree_inputs sha [x] = []"
  by (subst tree_inputs.simps, simp add: split_at_two merkle_root_one tree_inputs.simps [of sha "[_]"])+

lemmas two_entries = two_inclusion two_consistency two_tree merkle_root_one

lemma two_verify:
  "verify_inclusion sha y (Suc 0) (Suc (Suc 0)) [x] (merkle_root sha [x, y]) = Some True"
  "verify_consistency sha (Suc 0) (Suc (Suc 0)) [y] x (merkle_root sha [x, y]) = Some True"
  using inclusion_complete [of 1 "[x, y]" sha] consistency_complete [of 1 "[x, y]" sha] by (simp_all add: two_entries)

theorem inclusion_sound_witness:
  "verify_inclusion toy_sha (hash_of 2) 1 2 [hash_of 1] (merkle_root toy_sha [hash_of 1, hash_of 2]) = Some True \<and>
   hash_of 2 = [hash_of 1, hash_of 2] ! 1"
  unfolding numeral_2_eq_2
  using inclusion_sound [of toy_sha "[hash_of 1, hash_of 2]" "[hash_of 1]" "hash_of 2" 1] toy_sha_digest32
  by (simp add: two_entries two_verify)

theorem consistency_sound_witness:
  "verify_consistency toy_sha 1 2 [hash_of 2] (hash_of 1) (merkle_root toy_sha [hash_of 1, hash_of 2]) = Some True \<and>
   [hash_of 1] = take 1 [hash_of 1, hash_of 2]"
  unfolding numeral_2_eq_2
  using consistency_sound [of toy_sha "[hash_of 1]" "[hash_of 1, hash_of 2]" "[hash_of 2]"] toy_sha_digest32
  by (simp add: two_entries two_verify)

theorem honest_proofs_verify_witness:
  "verify_inclusion toy_sha (hash_of 3) 2 3 (inclusion_proof toy_sha [hash_of 1, hash_of 2, hash_of 3] 2)
     (merkle_root toy_sha [hash_of 1, hash_of 2, hash_of 3]) = Some True"
proof -
  have "verify_inclusion toy_sha ([hash_of 1, hash_of 2, hash_of 3] ! 2) 2 (length [hash_of 1, hash_of 2, hash_of 3])
      (inclusion_proof toy_sha [hash_of 1, hash_of 2, hash_of 3] 2) (merkle_root toy_sha [hash_of 1, hash_of 2, hash_of 3]) = Some True"
    by (rule conjunct1 [OF honest_proofs_verify, rule_format]) simp_all
  then show ?thesis by (simp add: numeral_3_eq_3)
qed



end
