(* ===== verification/Merkle_Release.thy ===== *)
theory Merkle_Release
  imports Merkle_Laws
begin

text \<open>
  The release check as a whole: hexadecimal fields, the record of a release, the signed checkpoint and the
  inclusion proof together. An accepted release is an entry of the log, and an honest registry is accepted.
\<close>

section \<open>Hexadecimal fields\<close>

lemma hex_digit_char: "d < 16 \<Longrightarrow> hex_digit (hex_char d) = Some d \<and> hex_char d \<noteq> 43"
proof -
  assume "d < 16"
  then have "d \<in> set [0..<16]" by simp
  moreover have "\<forall>d \<in> set [0..<16]. hex_digit (hex_char d) = Some d \<and> hex_char d \<noteq> 43" by code_simp
  ultimately show ?thesis by blast
qed

lemma hex_pair_char: "hex_pair (hex_char (unat b div 16)) (hex_char (unat b mod 16)) = Some b"
proof -
  have "unat b < 256" using unsigned_less [where 'a = nat, of b] by simp
  then have d: "unat b div 16 < 16" "unat b mod 16 < 16" by (simp_all add: div_less_iff_less_mult)
  have "16 * (unat b div 16) + unat b mod 16 = unat b" by simp
  then have "(of_nat (16 * (unat b div 16) + unat b mod 16) :: u8) = of_nat (unat b)" by (simp only:)
  also have "\<dots> = b" by simp
  finally have "(of_nat (16 * (unat b div 16) + unat b mod 16) :: u8) = b" .
  then show ?thesis using hex_digit_char [OF d(1)] hex_digit_char [OF d(2)] by (simp add: hex_pair_def)
qed

lemma hex_pairs_encode: "hex_pairs (hex_encode bs) = Some bs"
  by (induction bs) (simp_all add: hex_encode_def hex_pair_char)

lemma hex_encode_length: "length (hex_encode bs) = length bs * 2"
  by (induction bs) (simp_all add: hex_encode_def)

lemma hex_round_trip: "hex_to_array (length bs) (hex_encode bs) = Some bs"
  by (simp add: hex_to_array_def hex_encode_length hex_pairs_encode)

lemma hex_pairs_length: "hex_pairs xs = Some ys \<Longrightarrow> length xs = length ys * 2"
  by (induction xs arbitrary: ys rule: hex_pairs.induct) (auto split: option.splits)

lemma hex_to_array_length: "hex_to_array n hex = Some ys \<Longrightarrow> length ys = n"
  using hex_pairs_length [of hex ys] by (simp add: hex_to_array_def split: if_splits)

lemma collect_hashes_encode: "hashes hs \<Longrightarrow> collect_hashes (map hex_encode hs) = Some hs"
proof (induction hs)
  case (Cons h hs)
  then have "length h = 32" by simp
  then show ?case using Cons hex_round_trip [of h] by simp
qed simp

lemma collect_hashes_hashes: "collect_hashes hs = Some path \<Longrightarrow> hashes path"
  by (induction hs arbitrary: path) (auto split: option.splits dest: hex_to_array_length)

section \<open>Records\<close>

lemma split_lines_field: "newline \<notin> set f \<Longrightarrow> split_lines (f @ newline # rest) = f # split_lines rest"
  by (induction f) auto

definition one_line :: "u8 list \<Rightarrow> bool" where
  "one_line f = (newline \<notin> set f)"

lemma header_one_line: "one_line (bytes_of ''noeta-transparency-log-v1'')"
  by code_simp

lemma split_log_record:
  assumes "one_line name" "one_line version" "one_line url" "one_line tag" "one_line commit" "one_line provenance" "one_line license"
  shows "split_lines (log_record name version url tag commit provenance license) =
    [bytes_of ''noeta-transparency-log-v1'', name, version, url, tag, commit, provenance, license, []]"
  using assms header_one_line unfolding one_line_def log_record_def by (simp add: split_lines_field)

lemma record_matches_six:
  "record_matches rc parts \<Longrightarrow>
   take 6 parts = [bytes_of ''noeta-transparency-log-v1'', rc_name rc, rc_version rc, rc_url rc, rc_tag rc, rc_commit rc]"
  by (auto simp: record_matches_def less_Suc_eq numeral_eq_Suc intro!: nth_equalityI)

section \<open>Accepted releases\<close>

text \<open>What is hashed to build the log of \<open>entries\<close> and to check the served proof.\<close>

definition release_inputs :: "digest \<Rightarrow> u8 list list \<Rightarrow> log_inclusion \<Rightarrow> u8 list list" where
  "release_inputs sha entries incl =
     map (Cons 0) (li_record incl # entries) @ tree_inputs sha (map (leaf_hash sha) entries) @
     (case collect_hashes (li_proof incl) of None \<Rightarrow> []
      | Some path \<Rightarrow> inclusion_inputs sha (leaf_hash sha (li_record incl)) (li_index incl) (length entries) path)"

lemma leaf_hashes: "digest32 sha \<Longrightarrow> hashes (map (leaf_hash sha) entries)"
  by (induction entries) (simp_all add: digest32_def leaf_hash_def)

lemma leaf_hash_inj: "inj_on sha S \<Longrightarrow> 0 # x \<in> S \<Longrightarrow> 0 # y \<in> S \<Longrightarrow> leaf_hash sha x = leaf_hash sha y \<Longrightarrow> x = y"
  unfolding leaf_hash_def by (drule (3) inj_onD) simp

lemma inclusion_at_accepts:
  assumes "verify_inclusion_at sha (Inr (Some incl)) rc cp = Some (Inr ())"
  obtains root path where "hex_to_array 32 (cp_root_hash cp) = Some root" "collect_hashes (li_proof incl) = Some path"
    "verify_inclusion sha (leaf_hash sha (li_record incl)) (li_index incl) (cp_tree_size cp) path root = Some True"
    "record_matches rc (split_lines (li_record incl))"
  using assms by (auto simp: verify_inclusion_at_def Let_def split: if_splits option.splits)

lemma sum_unit_cases: "\<forall>e. z \<noteq> Inl e \<Longrightarrow> z = Inr ()"
  by (cases z) auto

lemma inclusion_at_entry:
  assumes sha: "digest32 sha" and n: "length entries \<le> 2 ^ 63" and inj: "inj_on sha (set (release_inputs sha entries incl))"
    and cp: "cp_tree_size cp = length entries" "hex_to_array 32 (cp_root_hash cp) = Some (merkle_root sha (map (leaf_hash sha) entries))"
    and ok: "verify_inclusion_at sha (Inr (Some incl)) rc cp = Some (Inr ())"
  shows "li_index incl < length entries \<and> entries ! li_index incl = li_record incl"
proof -
  let ?ls = "map (leaf_hash sha) entries" let ?leaf = "leaf_hash sha (li_record incl)" let ?S = "set (release_inputs sha entries incl)"
  obtain path where path: "collect_hashes (li_proof incl) = Some path"
    "verify_inclusion sha ?leaf (li_index incl) (length ?ls) path (merkle_root sha ?ls) = Some True"
    using inclusion_at_accepts [OF ok] cp by auto
  then have i: "li_index incl < length ?ls"
    "root_from_inclusion sha ?leaf (li_index incl) (length ?ls) path = Some (Some (merkle_root sha ?ls))"
    by (auto simp: verify_inclusion_def split: if_splits)
  have S: "set (tree_inputs sha ?ls) \<subseteq> ?S" "set (inclusion_inputs sha ?leaf (li_index incl) (length ?ls) path) \<subseteq> ?S"
    using path(1) by (auto simp: release_inputs_def)
  have leaf: "length ?leaf = 32" using sha by (simp add: digest32_def leaf_hash_def)
  have "?leaf = ?ls ! li_index incl"
    by (rule inclusion_sound_aux [OF sha inj leaf leaf_hashes [OF sha] collect_hashes_hashes [OF path(1)] i(1) _ i(2) S]) (use n in simp)
  then have e: "?leaf = leaf_hash sha (entries ! li_index incl)" using i(1) by simp
  have "entries ! li_index incl \<in> set entries" using i(1) by simp
  then have "0 # li_record incl \<in> ?S" "0 # entries ! li_index incl \<in> ?S" by (auto simp: release_inputs_def)
  from leaf_hash_inj [OF inj this e] i(1) show ?thesis by simp
qed

text \<open>
  C6: an accepted release is publicly logged. Suppose \<open>verify_release_logged\<close> accepts, and \<open>entries\<close> is any log of
  the checkpoint's size whose Merkle root is the checkpoint's, for a 32-byte digest without a collision on
  the inputs at hand. Then the returned key is the pinned one when there is one and the served one
  otherwise, the checkpoint of the returned size and root is signed under that key, and the log has at the
  proved index exactly the served record, whose first fields are the coordinates of the release.
\<close>

theorem release_logged:
  assumes "digest32 sha" and "length entries \<le> 2 ^ 63" and "inj_on sha (set (release_inputs sha entries incl))"
    and "cp_tree_size cp = length entries" and "hex_to_array 32 (cp_root_hash cp) = Some (merkle_root sha (map (leaf_hash sha) entries))"
    and "verify_release_logged sha key_of verify_strict served_key (Inr cp) (Inr (Some incl)) rc pinned = Some (Inr log)"
  shows "(case pinned of Some k \<Rightarrow> vl_public_key log = k | None \<Rightarrow> served_key = Inr (Some (vl_public_key log))) \<and>
    vl_tree_size log = length entries \<and>
    verify_checkpoint key_of verify_strict (vl_public_key log) (vl_tree_size log) (vl_root_hex log) (cp_signature cp) = Inr True \<and>
    li_index incl < length entries \<and> entries ! li_index incl = li_record incl \<and>
    take 6 (split_lines (li_record incl)) =
      [bytes_of ''noeta-transparency-log-v1'', rc_name rc, rc_version rc, rc_url rc, rc_tag rc, rc_commit rc]"
proof -
  obtain key where key: "(case pinned of Some k \<Rightarrow> Inr (Some k) | None \<Rightarrow> served_key) = Inr (Some key)"
    "verify_checkpoint key_of verify_strict key (cp_tree_size cp) (cp_root_hash cp) (cp_signature cp) = Inr True"
    "log = \<lparr>vl_tree_size = cp_tree_size cp, vl_root_hex = cp_root_hash cp, vl_public_key = key\<rparr>"
    and ok: "verify_inclusion_at sha (Inr (Some incl)) rc cp = Some (Inr ())"
    using assms(6) by (auto simp: verify_release_logged_def dest: sum_unit_cases split: sum.splits option.splits bool.splits)
  from inclusion_at_entry [OF assms(1-5) ok] record_matches_six inclusion_at_accepts [OF ok] key assms(4)
  show ?thesis by (auto split: option.splits)
qed

section \<open>Honest registries\<close>

lemma hashes_append: "hashes (xs @ ys) \<longleftrightarrow> hashes xs \<and> hashes ys"
  by (auto simp: hashes_def)

lemma inclusion_proof_hashes: "digest32 sha \<Longrightarrow> hashes ls \<Longrightarrow> hashes (inclusion_proof sha ls m)"
proof (induction sha ls m rule: inclusion_proof.induct)
  case (1 sha ls m)
  let ?k = "split_at (length ls)"
  have r: "length (merkle_root sha (take ?k ls)) = 32" "length (merkle_root sha (drop ?k ls)) = 32"
    using 1(3,4) by (simp_all add: root_length)
  show ?case
  proof (cases "length ls \<le> 1")
    case True
    then show ?thesis by (subst inclusion_proof.simps) simp
  next
    case False
    show ?thesis using False r 1(1) [OF False _ 1(3)] 1(2) [OF False _ 1(3)] 1(4)
      by (subst inclusion_proof.simps) (simp add: hashes_append)
  qed
qed

text \<open>
  C14: an honest registry is accepted. For every log of at most \<open>2 ^ 63\<close> records, every entry in it that records a
  release (fields without line breaks) and every 32-byte digest: the registry's record, the audit path of
  RFC 6962 and the root, all in lower-case hexadecimal, pass \<open>verify_inclusion_at\<close> for the coordinates of that
  release, whether the client knows the license or not.
\<close>

theorem honest_release_verifies:
  assumes "digest32 sha" and "length entries \<le> 2 ^ 63" and "i < length entries"
    and "entries ! i = log_record (rc_name rc) (rc_version rc) (rc_url rc) (rc_tag rc) (rc_commit rc) provenance license"
    and "list_all one_line [rc_name rc, rc_version rc, rc_url rc, rc_tag rc, rc_commit rc, provenance, license]"
    and "rc_license rc = None \<or> rc_license rc = Some license"
  shows "verify_inclusion_at sha
      (Inr (Some \<lparr>li_record = entries ! i, li_index = i, li_tree_size = length entries,
                  li_root_hash = hex_encode (merkle_root sha (map (leaf_hash sha) entries)),
                  li_proof = map hex_encode (inclusion_proof sha (map (leaf_hash sha) entries) i)\<rparr>))
      rc \<lparr>cp_tree_size = length entries, cp_root_hash = hex_encode (merkle_root sha (map (leaf_hash sha) entries)), cp_signature = sig\<rparr> =
    Some (Inr ())"
proof -
  let ?ls = "map (leaf_hash sha) entries"
  have parts: "split_lines (entries ! i) = [bytes_of ''noeta-transparency-log-v1'', rc_name rc, rc_version rc, rc_url rc, rc_tag rc, rc_commit rc, provenance, license, []]"
    using split_log_record assms(4,5) by simp
  have m: "record_matches rc (split_lines (entries ! i))" "\<not> license_conflict rc (split_lines (entries ! i))"
    using assms(6) unfolding parts by (auto simp: record_matches_def license_conflict_def split: option.splits)
  have h: "hex_to_array 32 (hex_encode (merkle_root sha ?ls)) = Some (merkle_root sha ?ls)"
    using hex_round_trip [of "merkle_root sha ?ls"] root_length [OF assms(1) leaf_hashes [OF assms(1)]] by simp
  have c: "collect_hashes (map hex_encode (inclusion_proof sha ?ls i)) = Some (inclusion_proof sha ?ls i)"
    by (intro collect_hashes_encode inclusion_proof_hashes leaf_hashes assms(1))
  have v: "verify_inclusion sha (leaf_hash sha (entries ! i)) i (length entries) (inclusion_proof sha ?ls i) (merkle_root sha ?ls) = Some True"
    using inclusion_complete [of i ?ls sha] assms(2,3) by simp
  show ?thesis unfolding verify_inclusion_at_def Let_def using m h c v by simp
qed

section \<open>A log of one release\<close>

definition demo_release :: release_coords where
  "demo_release = \<lparr>rc_name = bytes_of ''acme/json'', rc_version = bytes_of ''1.2.0'', rc_url = bytes_of ''https://acme'',
     rc_tag = bytes_of ''v1.2.0'', rc_commit = bytes_of ''c0ffee'', rc_license = Some (bytes_of ''MIT'')\<rparr>"

definition demo_record :: "u8 list" where
  "demo_record = log_record (rc_name demo_release) (rc_version demo_release) (rc_url demo_release) (rc_tag demo_release)
     (rc_commit demo_release) (bytes_of ''unsigned'') (bytes_of ''MIT'')"

definition demo_inclusion :: log_inclusion where
  "demo_inclusion = \<lparr>li_record = demo_record, li_index = 0, li_tree_size = 1,
     li_root_hash = hex_encode (leaf_hash toy_sha demo_record), li_proof = []\<rparr>"

definition demo_checkpoint :: log_checkpoint where
  "demo_checkpoint = \<lparr>cp_tree_size = 1, cp_root_hash = hex_encode (leaf_hash toy_sha demo_record),
     cp_signature = hex_encode (replicate 64 0)\<rparr>"

lemma demo_one_line:
  "list_all one_line [rc_name demo_release, rc_version demo_release, rc_url demo_release, rc_tag demo_release,
     rc_commit demo_release, bytes_of ''unsigned'', bytes_of ''MIT'']"
  by code_simp

lemma demo_license: "rc_license demo_release = Some (bytes_of ''MIT'')"
  by (simp add: demo_release_def)

theorem honest_release_verifies_witness:
  "verify_inclusion_at toy_sha (Inr (Some demo_inclusion)) demo_release demo_checkpoint = Some (Inr ())"
  using honest_release_verifies [OF toy_sha_digest32 _ _ _ demo_one_line, of "[demo_record]" 0 "hex_encode (replicate 64 0)"]
  by (simp add: demo_record_def [symmetric] demo_license demo_inclusion_def demo_checkpoint_def merkle_root_one
      inclusion_proof.simps [of toy_sha "[_]"])

lemma demo_hex:
  "hex_to_array 32 (hex_encode (replicate 32 b)) = Some (replicate 32 b)"
  "hex_to_array 64 (hex_encode (replicate 64 b)) = Some (replicate 64 b)"
  "hex_to_array 32 (hex_encode (leaf_hash toy_sha x)) = Some (leaf_hash toy_sha x)"
  using hex_round_trip [of "replicate 32 b"] hex_round_trip [of "replicate 64 b"] hex_round_trip [of "leaf_hash toy_sha x"] toy_sha_digest32
  by (simp_all add: digest32_def leaf_hash_def)

lemma demo_accepted:
  "verify_inclusion_at toy_sha (Inr (Some demo_inclusion)) demo_release demo_checkpoint = Some (Inr ())"
proof -
  have "split_lines demo_record = [bytes_of ''noeta-transparency-log-v1'', rc_name demo_release, rc_version demo_release, rc_url demo_release,
      rc_tag demo_release, rc_commit demo_release, bytes_of ''unsigned'', bytes_of ''MIT'', []]"
    unfolding demo_record_def by (rule split_log_record) (use demo_one_line in simp_all)
  then show ?thesis
    by (simp add: verify_inclusion_at_def demo_inclusion_def demo_checkpoint_def record_matches_def license_conflict_def demo_license
        demo_hex verify_inclusion_def inclusion_leaf)
qed

theorem release_logged_witness:
  "verify_release_logged toy_sha Some (\<lambda>k msg sig. sig = replicate 64 0) (Inr None) (Inr demo_checkpoint) (Inr (Some demo_inclusion))
     demo_release (Some (hex_encode (replicate 32 7))) =
   Some (Inr \<lparr>vl_tree_size = 1, vl_root_hex = cp_root_hash demo_checkpoint, vl_public_key = hex_encode (replicate 32 7)\<rparr>) \<and>
   take 6 (split_lines demo_record) ! 1 = bytes_of ''acme/json''"
proof -
  let ?log = "\<lparr>vl_tree_size = 1, vl_root_hex = cp_root_hash demo_checkpoint, vl_public_key = hex_encode (replicate 32 7)\<rparr>"
  have v: "verify_release_logged toy_sha Some (\<lambda>k msg sig. sig = replicate 64 0) (Inr None) (Inr demo_checkpoint) (Inr (Some demo_inclusion))
      demo_release (Some (hex_encode (replicate 32 7))) = Some (Inr ?log)"
    using demo_accepted by (simp add: verify_release_logged_def verify_checkpoint_def demo_checkpoint_def demo_hex)
  have "take 6 (split_lines (li_record demo_inclusion)) =
      [bytes_of ''noeta-transparency-log-v1'', rc_name demo_release, rc_version demo_release, rc_url demo_release, rc_tag demo_release, rc_commit demo_release]"
    using release_logged [OF toy_sha_digest32 _ _ _ _ v, of "[demo_record]"]
    by (simp add: demo_inclusion_def demo_checkpoint_def release_inputs_def demo_hex merkle_root_one two_tree
        inclusion_inputs.simps [of toy_sha _ 0 "Suc 0"])
  then show ?thesis using v by (simp add: demo_inclusion_def demo_release_def)
qed

end
