(* ===== verification/Token_Kind.thy ===== *)
theory Token_Kind
  imports Source_Span
begin

text \<open>
  The token kinds of the lexer (\<open>crates/noeta-lexer/src/lib.rs\<close>), their two name tables, and the reserved
  words derived from them.
\<close>

section \<open>Token kinds\<close>

text \<open>The enum has 110 variants; here it is cut, in its own order, into four groups and three more kinds.\<close>

datatype (plugins only: code size) keyword =
    EchoKw | MutKw | TrueKw | FalseKw | FnKw | ReturnKw | YieldKw | AsyncKw | StaticKw | AwaitKw
    | ConcurrentKw | SpawnKw | IsolateKw | IfKw | ThenKw | ElseKw | ForKw | WhileKw | BreakKw | ContinueKw
    | InKw | EnumKw | MatchKw | StructKw | TypeKw | ClassKw | DestructKw | ImplKw | TraitKw | NamespaceKw
    | UseKw | PubKw | AsKw | IsKw

datatype (plugins only: code size) reflection =
    AttributesOfKw | TypeOfKw | TypeNameKw | FieldsOfKw | TraitsOfKw | FromBytesKw | RolesOfKw | ParamsOfKw
    | ReturnsOfKw | InvokeKw | FieldSpecsOfKw | VariantsOfKw | ConstructKw

datatype (plugins only: code size) literal_kind =
    StringLit | RawStr | TemplateStr | FloatLit | F32Lit | F64Lit | IntNLit | IntLit | Ident

datatype (plugins only: code size) punctuation =
    Semicolon | Comma | DotDotDot | DotDotEq | DotDot | DotLBrace | Dot | ColonColon | Colon
    | QuestionQuestionEq | QuestionQuestion | Question | LParen | RParen | LBrace | RBrace | LBracket
    | RBracket | FatArrow | Arrow | PipeGt | EqEqEq | NotEqEq | EqEq | NotEq | LtEq | GtEq | PlusEq
    | MinusEq | StarEq | SlashEq | PercentEq | TildeEq | AmpAmp | PipePipe | Pipe | Amp | Caret | Shl | Eq
    | Lt | Gt | Plus | Minus | Star | Slash | Percent | Tilde | Bang | Hash | At

datatype token_kind =
    Kw keyword | Rf reflection | Lit literal_kind | Pn punctuation | DocText | BlockCommentOpen | LineComment

primrec keyword_label :: "keyword \<Rightarrow> string" where
  "keyword_label EchoKw = ''EchoKw''"
| "keyword_label MutKw = ''MutKw''"
| "keyword_label TrueKw = ''TrueKw''"
| "keyword_label FalseKw = ''FalseKw''"
| "keyword_label FnKw = ''FnKw''"
| "keyword_label ReturnKw = ''ReturnKw''"
| "keyword_label YieldKw = ''YieldKw''"
| "keyword_label AsyncKw = ''AsyncKw''"
| "keyword_label StaticKw = ''StaticKw''"
| "keyword_label AwaitKw = ''AwaitKw''"
| "keyword_label ConcurrentKw = ''ConcurrentKw''"
| "keyword_label SpawnKw = ''SpawnKw''"
| "keyword_label IsolateKw = ''IsolateKw''"
| "keyword_label IfKw = ''IfKw''"
| "keyword_label ThenKw = ''ThenKw''"
| "keyword_label ElseKw = ''ElseKw''"
| "keyword_label ForKw = ''ForKw''"
| "keyword_label WhileKw = ''WhileKw''"
| "keyword_label BreakKw = ''BreakKw''"
| "keyword_label ContinueKw = ''ContinueKw''"
| "keyword_label InKw = ''InKw''"
| "keyword_label EnumKw = ''EnumKw''"
| "keyword_label MatchKw = ''MatchKw''"
| "keyword_label StructKw = ''StructKw''"
| "keyword_label TypeKw = ''TypeKw''"
| "keyword_label ClassKw = ''ClassKw''"
| "keyword_label DestructKw = ''DestructKw''"
| "keyword_label ImplKw = ''ImplKw''"
| "keyword_label TraitKw = ''TraitKw''"
| "keyword_label NamespaceKw = ''NamespaceKw''"
| "keyword_label UseKw = ''UseKw''"
| "keyword_label PubKw = ''PubKw''"
| "keyword_label AsKw = ''AsKw''"
| "keyword_label IsKw = ''IsKw''"

primrec reflection_label :: "reflection \<Rightarrow> string" where
  "reflection_label AttributesOfKw = ''AttributesOfKw''"
| "reflection_label TypeOfKw = ''TypeOfKw''"
| "reflection_label TypeNameKw = ''TypeNameKw''"
| "reflection_label FieldsOfKw = ''FieldsOfKw''"
| "reflection_label TraitsOfKw = ''TraitsOfKw''"
| "reflection_label FromBytesKw = ''FromBytesKw''"
| "reflection_label RolesOfKw = ''RolesOfKw''"
| "reflection_label ParamsOfKw = ''ParamsOfKw''"
| "reflection_label ReturnsOfKw = ''ReturnsOfKw''"
| "reflection_label InvokeKw = ''InvokeKw''"
| "reflection_label FieldSpecsOfKw = ''FieldSpecsOfKw''"
| "reflection_label VariantsOfKw = ''VariantsOfKw''"
| "reflection_label ConstructKw = ''ConstructKw''"

primrec literal_kind_label :: "literal_kind \<Rightarrow> string" where
  "literal_kind_label StringLit = ''StringLit''"
| "literal_kind_label RawStr = ''RawStr''"
| "literal_kind_label TemplateStr = ''TemplateStr''"
| "literal_kind_label FloatLit = ''FloatLit''"
| "literal_kind_label F32Lit = ''F32Lit''"
| "literal_kind_label F64Lit = ''F64Lit''"
| "literal_kind_label IntNLit = ''IntNLit''"
| "literal_kind_label IntLit = ''IntLit''"
| "literal_kind_label Ident = ''Ident''"

primrec punctuation_label :: "punctuation \<Rightarrow> string" where
  "punctuation_label Semicolon = ''Semicolon''"
| "punctuation_label Comma = ''Comma''"
| "punctuation_label DotDotDot = ''DotDotDot''"
| "punctuation_label DotDotEq = ''DotDotEq''"
| "punctuation_label DotDot = ''DotDot''"
| "punctuation_label DotLBrace = ''DotLBrace''"
| "punctuation_label Dot = ''Dot''"
| "punctuation_label ColonColon = ''ColonColon''"
| "punctuation_label Colon = ''Colon''"
| "punctuation_label QuestionQuestionEq = ''QuestionQuestionEq''"
| "punctuation_label QuestionQuestion = ''QuestionQuestion''"
| "punctuation_label Question = ''Question''"
| "punctuation_label LParen = ''LParen''"
| "punctuation_label RParen = ''RParen''"
| "punctuation_label LBrace = ''LBrace''"
| "punctuation_label RBrace = ''RBrace''"
| "punctuation_label LBracket = ''LBracket''"
| "punctuation_label RBracket = ''RBracket''"
| "punctuation_label FatArrow = ''FatArrow''"
| "punctuation_label Arrow = ''Arrow''"
| "punctuation_label PipeGt = ''PipeGt''"
| "punctuation_label EqEqEq = ''EqEqEq''"
| "punctuation_label NotEqEq = ''NotEqEq''"
| "punctuation_label EqEq = ''EqEq''"
| "punctuation_label NotEq = ''NotEq''"
| "punctuation_label LtEq = ''LtEq''"
| "punctuation_label GtEq = ''GtEq''"
| "punctuation_label PlusEq = ''PlusEq''"
| "punctuation_label MinusEq = ''MinusEq''"
| "punctuation_label StarEq = ''StarEq''"
| "punctuation_label SlashEq = ''SlashEq''"
| "punctuation_label PercentEq = ''PercentEq''"
| "punctuation_label TildeEq = ''TildeEq''"
| "punctuation_label AmpAmp = ''AmpAmp''"
| "punctuation_label PipePipe = ''PipePipe''"
| "punctuation_label Pipe = ''Pipe''"
| "punctuation_label Amp = ''Amp''"
| "punctuation_label Caret = ''Caret''"
| "punctuation_label Shl = ''Shl''"
| "punctuation_label Eq = ''Eq''"
| "punctuation_label Lt = ''Lt''"
| "punctuation_label Gt = ''Gt''"
| "punctuation_label Plus = ''Plus''"
| "punctuation_label Minus = ''Minus''"
| "punctuation_label Star = ''Star''"
| "punctuation_label Slash = ''Slash''"
| "punctuation_label Percent = ''Percent''"
| "punctuation_label Tilde = ''Tilde''"
| "punctuation_label Bang = ''Bang''"
| "punctuation_label Hash = ''Hash''"
| "punctuation_label At = ''At''"

primrec token_label :: "token_kind \<Rightarrow> string" where
  "token_label (Kw k) = keyword_label k"
| "token_label (Rf k) = reflection_label k"
| "token_label (Lit k) = literal_kind_label k"
| "token_label (Pn k) = punctuation_label k"
| "token_label DocText = ''DocText''"
| "token_label BlockCommentOpen = ''BlockCommentOpen''"
| "token_label LineComment = ''LineComment''"

primrec keyword_describe :: "keyword \<Rightarrow> string" where
  "keyword_describe EchoKw = ''`echo`''"
| "keyword_describe MutKw = ''`mut`''"
| "keyword_describe TrueKw = ''`true`''"
| "keyword_describe FalseKw = ''`false`''"
| "keyword_describe FnKw = ''`fn`''"
| "keyword_describe ReturnKw = ''`return`''"
| "keyword_describe YieldKw = ''`yield`''"
| "keyword_describe AsyncKw = ''`async`''"
| "keyword_describe StaticKw = ''`static`''"
| "keyword_describe AwaitKw = ''`await`''"
| "keyword_describe ConcurrentKw = ''`concurrent`''"
| "keyword_describe SpawnKw = ''`spawn`''"
| "keyword_describe IsolateKw = ''`isolate`''"
| "keyword_describe IfKw = ''`if`''"
| "keyword_describe ThenKw = ''`then`''"
| "keyword_describe ElseKw = ''`else`''"
| "keyword_describe ForKw = ''`for`''"
| "keyword_describe WhileKw = ''`while`''"
| "keyword_describe BreakKw = ''`break`''"
| "keyword_describe ContinueKw = ''`continue`''"
| "keyword_describe InKw = ''`in`''"
| "keyword_describe EnumKw = ''`enum`''"
| "keyword_describe MatchKw = ''`match`''"
| "keyword_describe StructKw = ''`struct`''"
| "keyword_describe TypeKw = ''`type`''"
| "keyword_describe ClassKw = ''`class`''"
| "keyword_describe DestructKw = ''`destruct`''"
| "keyword_describe ImplKw = ''`impl`''"
| "keyword_describe TraitKw = ''`trait`''"
| "keyword_describe NamespaceKw = ''`namespace`''"
| "keyword_describe UseKw = ''`use`''"
| "keyword_describe PubKw = ''`pub`''"
| "keyword_describe AsKw = ''`as`''"
| "keyword_describe IsKw = ''`is`''"

primrec reflection_describe :: "reflection \<Rightarrow> string" where
  "reflection_describe AttributesOfKw = ''`attributes_of`''"
| "reflection_describe TypeOfKw = ''`type_of`''"
| "reflection_describe TypeNameKw = ''`type_name`''"
| "reflection_describe FieldsOfKw = ''`fields_of`''"
| "reflection_describe TraitsOfKw = ''`traits_of`''"
| "reflection_describe FromBytesKw = ''`from_bytes`''"
| "reflection_describe RolesOfKw = ''`roles_of`''"
| "reflection_describe ParamsOfKw = ''`params_of`''"
| "reflection_describe ReturnsOfKw = ''`returns_of`''"
| "reflection_describe InvokeKw = ''`invoke`''"
| "reflection_describe FieldSpecsOfKw = ''`field_specs_of`''"
| "reflection_describe VariantsOfKw = ''`variants_of`''"
| "reflection_describe ConstructKw = ''`construct`''"

primrec literal_kind_describe :: "literal_kind \<Rightarrow> string" where
  "literal_kind_describe StringLit = ''a string literal''"
| "literal_kind_describe RawStr = ''a raw string literal''"
| "literal_kind_describe TemplateStr = ''a template string literal''"
| "literal_kind_describe FloatLit = ''a float literal''"
| "literal_kind_describe F32Lit = ''an f32 literal''"
| "literal_kind_describe F64Lit = ''an f64 literal''"
| "literal_kind_describe IntNLit = ''a fixed-width integer literal''"
| "literal_kind_describe IntLit = ''an integer literal''"
| "literal_kind_describe Ident = ''an identifier''"

primrec punctuation_describe :: "punctuation \<Rightarrow> string" where
  "punctuation_describe Semicolon = ''`;`''"
| "punctuation_describe Comma = ''`,`''"
| "punctuation_describe DotDotDot = ''`...`''"
| "punctuation_describe DotDotEq = ''`..=`''"
| "punctuation_describe DotDot = ''`..`''"
| "punctuation_describe DotLBrace = ''`.{`''"
| "punctuation_describe Dot = ''`.`''"
| "punctuation_describe ColonColon = ''`::`''"
| "punctuation_describe Colon = ''`:`''"
| "punctuation_describe QuestionQuestionEq = ''`??=`''"
| "punctuation_describe QuestionQuestion = ''`??`''"
| "punctuation_describe Question = ''`?`''"
| "punctuation_describe LParen = ''`(`''"
| "punctuation_describe RParen = ''`)`''"
| "punctuation_describe LBrace = ''`{`''"
| "punctuation_describe RBrace = ''`}`''"
| "punctuation_describe LBracket = ''`[`''"
| "punctuation_describe RBracket = ''`]`''"
| "punctuation_describe FatArrow = ''`=>`''"
| "punctuation_describe Arrow = ''`->`''"
| "punctuation_describe PipeGt = ''`|>`''"
| "punctuation_describe EqEqEq = ''`===`''"
| "punctuation_describe NotEqEq = ''`!==`''"
| "punctuation_describe EqEq = ''`==`''"
| "punctuation_describe NotEq = ''`!=`''"
| "punctuation_describe LtEq = ''`<=`''"
| "punctuation_describe GtEq = ''`>=`''"
| "punctuation_describe PlusEq = ''`+=`''"
| "punctuation_describe MinusEq = ''`-=`''"
| "punctuation_describe StarEq = ''`*=`''"
| "punctuation_describe SlashEq = ''`/=`''"
| "punctuation_describe PercentEq = ''`%=`''"
| "punctuation_describe TildeEq = ''`~=`''"
| "punctuation_describe AmpAmp = ''`&&`''"
| "punctuation_describe PipePipe = ''`||`''"
| "punctuation_describe Pipe = ''`|`''"
| "punctuation_describe Amp = ''`&`''"
| "punctuation_describe Caret = ''`^`''"
| "punctuation_describe Shl = ''`<<`''"
| "punctuation_describe Eq = ''`=`''"
| "punctuation_describe Lt = ''`<`''"
| "punctuation_describe Gt = ''`>`''"
| "punctuation_describe Plus = ''`+`''"
| "punctuation_describe Minus = ''`-`''"
| "punctuation_describe Star = ''`*`''"
| "punctuation_describe Slash = ''`/`''"
| "punctuation_describe Percent = ''`%`''"
| "punctuation_describe Tilde = ''`~`''"
| "punctuation_describe Bang = ''`!`''"
| "punctuation_describe Hash = ''`#`''"
| "punctuation_describe At = ''`@`''"

primrec token_describe :: "token_kind \<Rightarrow> string" where
  "token_describe (Kw k) = keyword_describe k"
| "token_describe (Rf k) = reflection_describe k"
| "token_describe (Lit k) = literal_kind_describe k"
| "token_describe (Pn k) = punctuation_describe k"
| "token_describe DocText = ''a text-tier body''"
| "token_describe BlockCommentOpen = ''`/*`''"
| "token_describe LineComment = ''`//`''"

section \<open>Reserved words\<close>

datatype reserved_role = Keyword | Reflection | BooleanLiteral

record reserved_word =
  rw_word :: string
  rw_role :: reserved_role

fun token_reserved_role :: "token_kind \<Rightarrow> reserved_role" where
  "token_reserved_role (Kw k) = (if k = TrueKw \<or> k = FalseKw then BooleanLiteral else Keyword)"
| "token_reserved_role (Rf k) = Reflection"
| "token_reserved_role k = Keyword"

definition strip_suffix_char :: "char \<Rightarrow> string \<Rightarrow> string option" where
  "strip_suffix_char c s = (if s \<noteq> [] \<and> last s = c then Some (butlast s) else None)"

definition code_between :: "nat \<Rightarrow> nat \<Rightarrow> char \<Rightarrow> bool" where
  "code_between lo hi ch = (lo \<le> of_char ch \<and> of_char ch \<le> hi)"

definition is_ascii_alphabetic :: "char \<Rightarrow> bool" where
  "is_ascii_alphabetic ch = (code_between 65 90 ch \<or> code_between 97 122 ch)"

definition is_ascii_alphanumeric :: "char \<Rightarrow> bool" where
  "is_ascii_alphanumeric ch = (is_ascii_alphabetic ch \<or> code_between 48 57 ch)"

text \<open>An identifier: what the pattern of \<open>Ident\<close> accepts.\<close>

fun identifier_shaped :: "string \<Rightarrow> bool" where
  "identifier_shaped [] = False"
| "identifier_shaped (c # cs) =
     ((is_ascii_alphabetic c \<or> c = CHR ''_'') \<and> list_all (\<lambda>c. is_ascii_alphanumeric c \<or> c = CHR ''_'') cs)"

definition token_reserved_word :: "token_kind \<Rightarrow> reserved_word option" where
  "token_reserved_word k =
     (case strip_prefix [CHR ''`''] (token_describe k) of
        None \<Rightarrow> None
      | Some t \<Rightarrow> (case strip_suffix_char (CHR ''`'') t of
          None \<Rightarrow> None
        | Some word \<Rightarrow>
            if identifier_shaped word then Some \<lparr>rw_word = word, rw_role = token_reserved_role k\<rparr> else None))"

definition RESERVED_WORD_KINDS :: "token_kind list" where
  "RESERVED_WORD_KINDS =
     map Kw [EchoKw, MutKw, TrueKw, FalseKw, FnKw, ReturnKw, YieldKw, AsyncKw, StaticKw, AwaitKw, ConcurrentKw
       , SpawnKw, IsolateKw, IfKw, ThenKw, ElseKw, ForKw, WhileKw, BreakKw, ContinueKw, InKw, EnumKw
       , MatchKw, StructKw, TypeKw, ClassKw, DestructKw, ImplKw, TraitKw, NamespaceKw, UseKw, PubKw, AsKw
       , IsKw] @
     map Rf [AttributesOfKw, TypeOfKw, TypeNameKw, FieldsOfKw, TraitsOfKw, FromBytesKw, RolesOfKw, ParamsOfKw
       , ReturnsOfKw, InvokeKw, FieldSpecsOfKw, VariantsOfKw, ConstructKw]"

fun role_describe :: "reserved_role \<Rightarrow> string" where
  "role_describe Keyword = ''a keyword of the grammar''"
| "role_describe Reflection = ''one of the reflection primitives''"
| "role_describe BooleanLiteral = ''a boolean literal''"

text \<open>\<open>None\<close> is the panic on a listed kind that is no reserved word.\<close>

fun words_of :: "token_kind list \<Rightarrow> reserved_word list option" where
  "words_of [] = Some []"
| "words_of (k # ks) =
     (case token_reserved_word k of None \<Rightarrow> None | Some w \<Rightarrow> map_option (Cons w) (words_of ks))"

definition reserved_word_all :: "reserved_word list option" where
  "reserved_word_all = words_of RESERVED_WORD_KINDS"

section \<open>Line ends\<close>

fun is_statement_ending :: "token_kind \<Rightarrow> bool" where
  "is_statement_ending (Kw k) =
     (k \<in> set [TrueKw, FalseKw, AwaitKw, ReturnKw, BreakKw, ContinueKw])"
| "is_statement_ending (Lit k) =
     (k \<in> set [Ident, IntLit, FloatLit, F32Lit, F64Lit, IntNLit, StringLit, RawStr, TemplateStr])"
| "is_statement_ending (Pn k) =
     (k \<in> set [RParen, RBrace, RBracket, Question])"
| "is_statement_ending k = False"

fun is_leading_continuation :: "token_kind \<Rightarrow> bool" where
  "is_leading_continuation (Kw k) =
     (k \<in> set [AsKw, IsKw, ElseKw, ThenKw, InKw])"
| "is_leading_continuation (Pn k) =
     (k \<in> set [Plus, Minus, Star, Slash, Percent, EqEq, NotEq, EqEqEq, NotEqEq, LtEq, GtEq, Lt, Gt, AmpAmp
               , PipePipe, Pipe, Amp, Caret, Shl, Tilde, Dot, PipeGt, QuestionQuestion, DotDot, DotDotEq
               , Comma, Colon, ColonColon, FatArrow, Arrow, RParen, RBrace, RBracket])"
| "is_leading_continuation k = False"

definition token_continues_line :: "token_kind \<Rightarrow> bool" where
  "token_continues_line k = is_leading_continuation k"

section \<open>The word list is complete\<close>

lemma keyword_reserved: "\<not> Option.is_none (token_reserved_word (Kw k)) \<and> Kw k \<in> set RESERVED_WORD_KINDS"
  by (induction k; code_simp)

lemma reflection_reserved: "\<not> Option.is_none (token_reserved_word (Rf k)) \<and> Rf k \<in> set RESERVED_WORD_KINDS"
  by (induction k; code_simp)

lemma literal_not_reserved: "Option.is_none (token_reserved_word (Lit k))"
  by (induction k; code_simp)

lemma punctuation_not_reserved: "Option.is_none (token_reserved_word (Pn k))"
  by (induction k; code_simp)

lemma other_not_reserved:
  "Option.is_none (token_reserved_word DocText) \<and> Option.is_none (token_reserved_word BlockCommentOpen) \<and>
   Option.is_none (token_reserved_word LineComment)"
  by code_simp

lemma reserved_words_listed: "(\<exists>w. token_reserved_word k = Some w) \<longleftrightarrow> k \<in> set RESERVED_WORD_KINDS"
proof -
  have "Option.is_none (token_reserved_word k) \<longleftrightarrow> k \<notin> set RESERVED_WORD_KINDS"
    using keyword_reserved reflection_reserved literal_not_reserved punctuation_not_reserved other_not_reserved
    by (cases k) (simp_all add: RESERVED_WORD_KINDS_def image_iff)
  then show ?thesis by (auto simp: Option.is_none_def)
qed

lemma reserved_spellings_distinct: "distinct (map token_describe RESERVED_WORD_KINDS)"
  by code_simp

end
