(* ===== verification/Lex_Scan.thy ===== *)
theory Lex_Scan
  imports Token_Kind
begin

text \<open>
  The hand-written scanners of the lexer (\<open>crates/noeta-lexer/src/lib.rs\<close>): the end of a text-tier body, of
  a nested block comment, and of a string with interpolation holes. Text is its UTF-8 bytes and an offset
  is a natural number (\<open>u32\<close> and \<open>usize\<close> in the code, the same for a text below \<open>2 ^ 32\<close> bytes).
\<close>

abbreviation lbrace :: u8 where "lbrace \<equiv> 123"
abbreviation rbrace :: u8 where "rbrace \<equiv> 125"
abbreviation backslash :: u8 where "backslash \<equiv> 92"
abbreviation dquote :: u8 where "dquote \<equiv> 34"
abbreviation squote :: u8 where "squote \<equiv> 39"
abbreviation backtick :: u8 where "backtick \<equiv> 96"
abbreviation dollar :: u8 where "dollar \<equiv> 36"
abbreviation slash :: u8 where "slash \<equiv> 47"
abbreviation star :: u8 where "star \<equiv> 42"

definition lit :: "string \<Rightarrow> u8 list" where
  "lit s = map of_char s"

section \<open>Text bodies\<close>

definition body_escape :: "u8 \<Rightarrow> bool" where
  "body_escape b = (b = lbrace \<or> b = rbrace \<or> b = backslash)"

function brace_loop :: "u8 list \<Rightarrow> nat \<Rightarrow> nat \<Rightarrow> nat option" where
  "brace_loop bytes depth i =
     (if i < length bytes then
        if bytes ! i = backslash \<and> i + 1 < length bytes \<and> body_escape (bytes ! (i + 1)) then brace_loop bytes depth (i + 2)
        else if bytes ! i = lbrace then brace_loop bytes (depth + 1) (i + 1)
        else if bytes ! i = rbrace then (if depth - 1 = 0 then Some i else brace_loop bytes (depth - 1) (i + 1))
        else brace_loop bytes depth (i + 1)
      else None)"
  by pat_completeness auto
termination
  by (relation "measure (\<lambda>(bytes, depth, i). length bytes - i)") auto

definition matching_brace :: "u8 list \<Rightarrow> nat \<Rightarrow> nat option" where
  "matching_brace bytes open_end = brace_loop bytes 1 open_end"

fun unescape_text_body :: "u8 list \<Rightarrow> u8 list" where
  "unescape_text_body [] = []"
| "unescape_text_body [c] = [c]"
| "unescape_text_body (c # d # cs) =
     (if c = backslash \<and> body_escape d then d # unescape_text_body cs else c # unescape_text_body (d # cs))"

section \<open>Block comments\<close>

function comment_loop :: "u8 list \<Rightarrow> nat \<Rightarrow> nat \<Rightarrow> nat option" where
  "comment_loop bytes depth i =
     (if i + 1 < length bytes then
        if bytes ! i = slash \<and> bytes ! (i + 1) = star then comment_loop bytes (depth + 1) (i + 2)
        else if bytes ! i = star \<and> bytes ! (i + 1) = slash then
          (if depth - 1 = 0 then Some (i + 2) else comment_loop bytes (depth - 1) (i + 2))
        else comment_loop bytes depth (i + 1)
      else None)"
  by pat_completeness auto
termination
  by (relation "measure (\<lambda>(bytes, depth, i). length bytes - i)") auto

definition block_comment_end :: "u8 list \<Rightarrow> nat \<Rightarrow> nat option" where
  "block_comment_end bytes open_end = comment_loop bytes 1 open_end"

declare brace_loop.simps [simp del] comment_loop.simps [simp del]

section \<open>Strings with interpolation\<close>

text \<open>The length of the character that starts with a byte (\<open>len_utf8\<close>).\<close>

definition char_len :: "u8 \<Rightarrow> nat" where
  "char_len b = (if b < 128 then 1 else if b < 224 then 2 else if b < 240 then 3 else 4)"

text \<open>\<open>Panic\<close> is a slice off a character boundary.\<close>

datatype scan_end = EndAt nat | Unterminated | Panic

datatype scan_mode = InString u8 | InHole nat

text \<open>
  The loops of \<open>interpolated_string_end\<close> and \<open>interpolation_hole_end\<close>, which call each other: inside the
  string with a given quote, or inside a hole at a given depth.
\<close>

partial_function (option) interp_scan :: "u8 list \<Rightarrow> scan_mode \<Rightarrow> nat \<Rightarrow> scan_end option" where
  "interp_scan bytes m i =
     (if length bytes \<le> i then Some Unterminated
      else if \<not> is_char_boundary bytes i then Some Panic
      else case m of
        InString quote \<Rightarrow>
          if bytes ! i = backslash then
            if \<not> is_char_boundary bytes (i + 1) then Some Panic
            else if i + 1 < length bytes then interp_scan bytes m (i + 1 + char_len (bytes ! (i + 1)))
            else interp_scan bytes m (i + 1)
          else if bytes ! i = quote then Some (EndAt (i + 1))
          else if quote \<noteq> squote \<and> bytes ! i = dollar \<and> i + 1 < length bytes \<and> bytes ! (i + 1) = lbrace then
            Option.bind (interp_scan bytes (InHole 1) (i + 2))
              (\<lambda>r. case r of EndAt j \<Rightarrow> interp_scan bytes m j | Unterminated \<Rightarrow> Some Unterminated | Panic \<Rightarrow> Some Panic)
          else interp_scan bytes m (i + char_len (bytes ! i))
      | InHole depth \<Rightarrow>
          if bytes ! i = lbrace then interp_scan bytes (InHole (depth + 1)) (i + 1)
          else if bytes ! i = rbrace then
            if depth - 1 = 0 then Some (EndAt (i + 1)) else interp_scan bytes (InHole (depth - 1)) (i + 1)
          else if bytes ! i = dquote \<or> bytes ! i = squote \<or> bytes ! i = backtick then
            Option.bind (interp_scan bytes (InString (bytes ! i)) (i + 1))
              (\<lambda>r. case r of EndAt j \<Rightarrow> interp_scan bytes m j | Unterminated \<Rightarrow> Some Unterminated | Panic \<Rightarrow> Some Panic)
          else interp_scan bytes m (i + char_len (bytes ! i)))"

declare interp_scan.simps [code]

definition interpolated_string_end :: "u8 list \<Rightarrow> nat \<Rightarrow> u8 \<Rightarrow> scan_end option" where
  "interpolated_string_end bytes open_at quote = interp_scan bytes (InString quote) (open_at + 1)"

definition interpolation_hole_end :: "u8 list \<Rightarrow> nat \<Rightarrow> scan_end option" where
  "interpolation_hole_end bytes start = interp_scan bytes (InHole 1) start"

text \<open>The content ranges of the holes; an inner \<open>None\<close> is a panic.\<close>

partial_function (option) holes_loop :: "u8 list \<Rightarrow> u8 \<Rightarrow> nat \<Rightarrow> (nat \<times> nat) list \<Rightarrow> (nat \<times> nat) list option option" where
  "holes_loop bytes quote i holes =
     (if length bytes \<le> i then Some (Some holes)
      else if \<not> is_char_boundary bytes i then Some None
      else if bytes ! i = backslash then
        if \<not> is_char_boundary bytes (i + 1) then Some None
        else if i + 1 < length bytes then holes_loop bytes quote (i + 1 + char_len (bytes ! (i + 1))) holes
        else holes_loop bytes quote (i + 1) holes
      else if bytes ! i = quote then Some (Some holes)
      else if bytes ! i = dollar \<and> i + 1 < length bytes \<and> bytes ! (i + 1) = lbrace then
        Option.bind (interpolation_hole_end bytes (i + 2))
          (\<lambda>r. case r of
              EndAt j \<Rightarrow> holes_loop bytes quote j (holes @ [(i + 2, j - 1)])
            | Unterminated \<Rightarrow> Some (Some holes)
            | Panic \<Rightarrow> Some None)
      else holes_loop bytes quote (i + char_len (bytes ! i)) holes)"

declare holes_loop.simps [code]

definition interpolation_holes :: "u8 list \<Rightarrow> nat \<Rightarrow> u8 \<Rightarrow> (nat \<times> nat) list option option" where
  "interpolation_holes bytes open_at quote =
     (if quote = squote then Some (Some []) else holes_loop bytes quote (open_at + 1) [])"

section \<open>UTF-8\<close>

text \<open>What the scanners rely on: each character is a first byte and its continuation bytes.\<close>

function utf8 :: "u8 list \<Rightarrow> bool" where
  "utf8 [] = True"
| "utf8 (b # bs) =
     (\<not> is_continuation b \<and> char_len b \<le> Suc (length bs) \<and> list_all is_continuation (take (char_len b - 1) bs) \<and>
      utf8 (drop (char_len b - 1) bs))"
  by pat_completeness auto
termination
  by (relation "measure length") auto

end
