(* ===== verification/Lex_Pass.thy ===== *)
theory Lex_Pass
  imports Lex_Scan
begin

text \<open>
  The lexer proper (\<open>crates/noeta-lexer/src/lib.rs\<close>): the loop over the generated automaton with its
  hand-written detours, the two passes for declared text tiers, and the scan for statement boundaries.

  The automaton is generated by another package from the token patterns: \<open>logos\<close> gives for a text and a
  position the next token there, an error or the end, with its span. Spans are pairs of offsets without
  the id of their source. An outer \<open>None\<close> is a run that does not end, an inner \<open>None\<close> a panic.
\<close>

type_synonym scanner = "u8 list \<Rightarrow> nat \<Rightarrow> (token_kind option \<times> nat \<times> nat) option"

section \<open>Tokens, comments and diagnostics\<close>

record token =
  tk_kind :: token_kind
  tk_start :: nat
  tk_end :: nat

definition mk_token :: "token_kind \<Rightarrow> nat \<Rightarrow> nat \<Rightarrow> token" where
  "mk_token k s e = \<lparr>tk_kind = k, tk_start = s, tk_end = e\<rparr>"

datatype comment_kind = LineC | BlockC | ShebangC

record comment =
  cm_start :: nat
  cm_end :: nat
  cm_kind :: comment_kind

datatype diagnostic_code = UnexpectedEndOfInput | UnterminatedString | UnexpectedCharacter

record diagnostic =
  dg_code :: diagnostic_code
  dg_start :: nat
  dg_end :: nat
  dg_message :: "u8 list"
  dg_help :: "u8 list option"

record lexed =
  lx_tokens :: "token list"
  lx_diagnostics :: "diagnostic list"
  lx_comments :: "comment list"
  lx_text_tier_decls :: "u8 list list"

definition push_token :: "token \<Rightarrow> lexed \<Rightarrow> lexed" where
  "push_token t lx = lx\<lparr>lx_tokens := lx_tokens lx @ [t]\<rparr>"

definition push_comment :: "bool \<Rightarrow> comment_kind \<Rightarrow> nat \<Rightarrow> nat \<Rightarrow> lexed \<Rightarrow> lexed" where
  "push_comment collect k s e lx =
     (if collect then lx\<lparr>lx_comments := lx_comments lx @ [\<lparr>cm_start = s, cm_end = e, cm_kind = k\<rparr>]\<rparr> else lx)"

definition push_diagnostic :: "diagnostic \<Rightarrow> lexed \<Rightarrow> lexed" where
  "push_diagnostic d lx = lx\<lparr>lx_diagnostics := lx_diagnostics lx @ [d]\<rparr>"

definition unterminated_block_comment :: "nat \<Rightarrow> nat \<Rightarrow> diagnostic" where
  "unterminated_block_comment s e =
     \<lparr>dg_code = UnexpectedEndOfInput, dg_start = s, dg_end = e, dg_message = lit ''unterminated block comment'',
      dg_help = Some (lit ''add a closing `*/`; block comments nest, so each `/*` needs its own `*/`'')\<rparr>"

definition unterminated_text_block :: "nat \<Rightarrow> nat \<Rightarrow> u8 list \<Rightarrow> diagnostic" where
  "unterminated_text_block s e tier =
     \<lparr>dg_code = UnexpectedEndOfInput, dg_start = s, dg_end = e,
      dg_message = lit ''unterminated `@'' @ tier @ lit ''` block'',
      dg_help = Some (lit ''add a closing `}` to end the text block; braces inside the body must balance '' @
        lit ''(write a literal unbalanced brace as `'' @ [backslash] @ lit ''{` or `'' @ [backslash] @ lit ''}`)'')\<rparr>"

definition lex_error :: "u8 list \<Rightarrow> nat \<Rightarrow> nat \<Rightarrow> diagnostic option" where
  "lex_error text s e =
     (case str_slice text s e of
        None \<Rightarrow> None
      | Some found \<Rightarrow> Some
          (if take 1 found = [dquote] then
             \<lparr>dg_code = UnterminatedString, dg_start = s, dg_end = e, dg_message = lit ''unterminated string literal'',
              dg_help = Some (lit ''add a closing `\"` to terminate the string'')\<rparr>
           else
             \<lparr>dg_code = UnexpectedCharacter, dg_start = s, dg_end = e,
              dg_message = lit ''unexpected character `'' @ found @ lit ''`'', dg_help = None\<rparr>))"

section \<open>Text tiers\<close>

text \<open>A hash set of names; the list is its enumeration.\<close>

type_synonym text_tiers = "u8 list list"

definition default_tiers :: text_tiers where
  "default_tiers = [lit ''doc'']"

definition tiers_insert :: "u8 list \<Rightarrow> text_tiers \<Rightarrow> text_tiers" where
  "tiers_insert name tiers = (if name \<in> set tiers then tiers else tiers @ [name])"

definition tiers_with :: "u8 list list \<Rightarrow> text_tiers" where
  "tiers_with names = fold tiers_insert names default_tiers"

definition opens_text_block :: "u8 list \<Rightarrow> token list \<Rightarrow> text_tiers \<Rightarrow> bool" where
  "opens_text_block text tokens tiers =
     (case rev tokens of
        name # at # rest \<Rightarrow>
          tk_kind at = Pn At \<and> tk_kind name = Lit Ident \<and>
          (case str_slice text (tk_start name) (tk_end name) of None \<Rightarrow> False | Some n \<Rightarrow> n \<in> set tiers)
      | _ \<Rightarrow> False)"

section \<open>One pass\<close>

text \<open>\<open>Lexer::bump\<close> panics when it does not land on a character boundary of the text.\<close>

definition bump_to :: "u8 list \<Rightarrow> nat \<Rightarrow> nat option" where
  "bump_to text p = (if p \<le> length text \<and> is_char_boundary text p then Some p else None)"

definition open_text_block :: "u8 list \<Rightarrow> nat \<Rightarrow> nat \<Rightarrow> lexed \<Rightarrow> (lexed \<times> nat) option" where
  "open_text_block text s e lx =
     (case matching_brace text e of
        Some c \<Rightarrow>
          map_option (Pair (push_token (mk_token (Pn RBrace) c (c + 1)) (push_token (mk_token DocText e c) (push_token (mk_token (Pn LBrace) s e) lx))))
            (bump_to text (c + 1))
      | None \<Rightarrow>
          map_option (\<lambda>name. (push_token (mk_token (Pn LBrace) s e) (push_diagnostic (unterminated_text_block s e name) lx), e))
            (case lx_tokens lx of [] \<Rightarrow> Some (lit ''doc'') | ts \<Rightarrow> str_slice text (tk_start (last ts)) (tk_end (last ts))))"

definition open_block_comment :: "bool \<Rightarrow> u8 list \<Rightarrow> nat \<Rightarrow> nat \<Rightarrow> lexed \<Rightarrow> (lexed \<times> nat) option" where
  "open_block_comment collect text s e lx =
     (case block_comment_end text e of
        Some c \<Rightarrow> map_option (Pair (push_comment collect BlockC s c lx)) (bump_to text c)
      | None \<Rightarrow> map_option (Pair (push_diagnostic (unterminated_block_comment s e) lx)) (bump_to text (length text)))"

text \<open>The token of a string, its end, and the holes in which to look for comments.\<close>

definition lex_string ::
  "bool \<Rightarrow> u8 list \<Rightarrow> token_kind \<Rightarrow> nat \<Rightarrow> nat \<Rightarrow> lexed \<Rightarrow> (lexed \<times> nat \<times> (nat \<times> nat) list) option option" where
  "lex_string collect text k s e lx =
     (if \<not> (s < length text \<and> is_char_boundary text s) then Some None
      else let quote = text ! s in
        Option.bind (interpolated_string_end text s quote) (\<lambda>r.
          case (case r of
                  EndAt j \<Rightarrow> if e < j then map_option (Pair j) (bump_to text j) else Some (e, e)
                | Unterminated \<Rightarrow> Some (e, e)
                | Panic \<Rightarrow> None) of
            None \<Rightarrow> Some None
          | Some (j, p) \<Rightarrow>
              if collect then
                map_option (map_option (\<lambda>holes. (push_token (mk_token k s j) lx, p, holes))) (interpolation_holes text s quote)
              else Some (Some (push_token (mk_token k s j) lx, p, []))))"

text \<open>One iteration of the loop: the new state, the new position and the holes to look into.\<close>

definition lex_token ::
  "text_tiers \<Rightarrow> bool \<Rightarrow> u8 list \<Rightarrow> token_kind option \<Rightarrow> nat \<Rightarrow> nat \<Rightarrow> lexed \<Rightarrow> (lexed \<times> nat \<times> (nat \<times> nat) list) option option" where
  "lex_token tiers collect text r s e lx =
     (case r of
        None \<Rightarrow> Some (map_option (\<lambda>d. (push_diagnostic d lx, e, [])) (lex_error text s e))
      | Some k \<Rightarrow>
          if k = LineComment then Some (Some (push_comment collect LineC s e lx, e, []))
          else if k = Pn LBrace \<and> opens_text_block text (lx_tokens lx) tiers then
            Some (map_option (\<lambda>(lx, p). (lx, p, [])) (open_text_block text s e lx))
          else if k = BlockCommentOpen then
            Some (map_option (\<lambda>(lx, p). (lx, p, [])) (open_block_comment collect text s e lx))
          else if k = Lit StringLit \<or> k = Lit TemplateStr then lex_string collect text k s e lx
          else Some (Some (push_token (mk_token k s e) lx, e, [])))"

definition empty_lexed :: lexed where
  "empty_lexed = \<lparr>lx_tokens = [], lx_diagnostics = [], lx_comments = [], lx_text_tier_decls = []\<rparr>"

definition find_newline :: "u8 list \<Rightarrow> nat" where
  "find_newline text = length (takeWhile (\<lambda>b. b \<noteq> newline) text)"

text \<open>The start of a pass: a shebang line is skipped.\<close>

definition lex_start :: "bool \<Rightarrow> u8 list \<Rightarrow> (lexed \<times> nat) option" where
  "lex_start collect text =
     (if take 2 text = lit ''#!'' then
        map_option (Pair (push_comment collect ShebangC 0 (find_newline text) empty_lexed)) (bump_to text (find_newline text))
      else Some (empty_lexed, 0))"

definition shift_comment :: "nat \<Rightarrow> comment \<Rightarrow> comment" where
  "shift_comment offset c = c\<lparr>cm_start := cm_start c + offset, cm_end := cm_end c + offset\<rparr>"

text \<open>
  The loop of \<open>lex_pass\<close>, with the holes of the last string still to be searched for comments; a hole is
  a pass of its own over the text of the hole (\<open>hole_comments\<close>).
\<close>

partial_function (option) lex_loop ::
  "scanner \<Rightarrow> text_tiers \<Rightarrow> bool \<Rightarrow> u8 list \<Rightarrow> nat \<Rightarrow> lexed \<Rightarrow> (nat \<times> nat) list \<Rightarrow> lexed option option" where
  "lex_loop logos tiers collect text pos lx holes =
     (case holes of
        (a, b) # rest \<Rightarrow>
          (case str_slice text a b of
             None \<Rightarrow> lex_loop logos tiers collect text pos lx rest
           | Some inner \<Rightarrow>
               (case lex_start True inner of
                  None \<Rightarrow> Some None
                | Some (start, p) \<Rightarrow>
                    Option.bind (lex_loop logos tiers True inner p start [])
                      (\<lambda>r. case r of
                          None \<Rightarrow> Some None
                        | Some found \<Rightarrow>
                            lex_loop logos tiers collect text pos
                              (lx\<lparr>lx_comments := lx_comments lx @ map (shift_comment a) (lx_comments found)\<rparr>) rest)))
      | [] \<Rightarrow>
          (case logos text pos of
             None \<Rightarrow> Some (Some lx)
           | Some (r, s, e) \<Rightarrow>
               Option.bind (lex_token tiers collect text r s e lx)
                 (\<lambda>x. case x of
                     None \<Rightarrow> Some None
                   | Some (lx', pos', holes') \<Rightarrow> lex_loop logos tiers collect text pos' lx' holes')))"

declare lex_loop.simps [code]

definition lex_pass :: "scanner \<Rightarrow> text_tiers \<Rightarrow> bool \<Rightarrow> u8 list \<Rightarrow> lexed option option" where
  "lex_pass logos tiers collect text =
     (case lex_start collect text of
        None \<Rightarrow> Some None
      | Some (lx, p) \<Rightarrow> lex_loop logos tiers collect text p lx [])"

section \<open>Tier declarations\<close>

definition ident_text :: "u8 list \<Rightarrow> token \<Rightarrow> u8 list option" where
  "ident_text text t = (if tk_kind t = Lit Ident then str_slice text (tk_start t) (tk_end t) else None)"

text \<open>The search for a key at depth 1 up to the closing parenthesis: what follows the key's colon.\<close>

fun tier_key :: "u8 list \<Rightarrow> u8 list list \<Rightarrow> nat \<Rightarrow> token list \<Rightarrow> token list option" where
  "tier_key text keys depth [] = None"
| "tier_key text keys depth (t # ts) =
     (if tk_kind t = Pn LParen then tier_key text keys (depth + 1) ts
      else if tk_kind t = Pn RParen then (if depth - 1 = 0 then None else tier_key text keys (depth - 1) ts)
      else if depth = 1 \<and> (case ident_text text t of None \<Rightarrow> False | Some n \<Rightarrow> n \<in> set keys) \<and>
        ts \<noteq> [] \<and> tk_kind (hd ts) = Pn Colon then Some (tl ts)
      else tier_key text keys depth ts)"

definition tier_head :: "u8 list \<Rightarrow> token \<Rightarrow> token \<Rightarrow> token \<Rightarrow> token \<Rightarrow> u8 list option" where
  "tier_head text at kw opn name =
     (if tk_kind at = Pn At \<and> ident_text text kw = Some (lit ''tier'') \<and> tk_kind opn = Pn LParen
      then ident_text text name else None)"

fun declared_text_tiers :: "u8 list \<Rightarrow> token list \<Rightarrow> u8 list list" where
  "declared_text_tiers text (at # kw # opn # name # rest) =
     (case tier_head text at kw opn name of
        None \<Rightarrow> []
      | Some n \<Rightarrow> (case tier_key text [lit ''text'', lit ''expr''] 1 rest of None \<Rightarrow> [] | Some ts \<Rightarrow> [n])) @
     declared_text_tiers text (kw # opn # name # rest)"
| "declared_text_tiers text ts = []"

definition trim_quotes :: "u8 list \<Rightarrow> u8 list" where
  "trim_quotes s = rev (dropWhile (\<lambda>b. b = dquote) (rev (dropWhile (\<lambda>b. b = dquote) s)))"

fun declared_tier_languages_in :: "u8 list \<Rightarrow> token list \<Rightarrow> (u8 list \<times> u8 list) list" where
  "declared_tier_languages_in text (at # kw # opn # name # rest) =
     (case tier_head text at kw opn name of
        None \<Rightarrow> []
      | Some n \<Rightarrow> (case tier_key text [lit ''text''] 1 rest of
            Some (s # ts) \<Rightarrow>
              if tk_kind s = Lit StringLit then
                (case str_slice text (tk_start s) (tk_end s) of None \<Rightarrow> [] | Some raw_text \<Rightarrow> [(n, trim_quotes raw_text)])
              else []
          | _ \<Rightarrow> [])) @
     declared_tier_languages_in text (kw # opn # name # rest)"
| "declared_tier_languages_in text ts = []"

fun declared_expr_tier_names_in :: "u8 list \<Rightarrow> token list \<Rightarrow> u8 list list" where
  "declared_expr_tier_names_in text (at # kw # opn # name # rest) =
     (case tier_head text at kw opn name of
        None \<Rightarrow> []
      | Some n \<Rightarrow> (case tier_key text [lit ''expr''] 1 rest of None \<Rightarrow> [] | Some ts \<Rightarrow> [n])) @
     declared_expr_tier_names_in text (kw # opn # name # rest)"
| "declared_expr_tier_names_in text ts = []"

section \<open>The two passes\<close>

definition lex_impl :: "scanner \<Rightarrow> bool \<Rightarrow> text_tiers \<Rightarrow> u8 list \<Rightarrow> lexed option option" where
  "lex_impl logos collect tiers text =
     Option.bind (lex_pass logos tiers collect text) (\<lambda>r.
       case r of
         None \<Rightarrow> Some None
       | Some lx \<Rightarrow>
           let declared = declared_text_tiers text (lx_tokens lx) in
           if list_ex (\<lambda>n. n \<notin> set tiers) declared then
             map_option (map_option (\<lambda>lx. lx\<lparr>lx_text_tier_decls := declared\<rparr>))
               (lex_pass logos (fold tiers_insert declared tiers) collect text)
           else Some (Some (lx\<lparr>lx_text_tier_decls := declared\<rparr>)))"

definition lex_in :: "scanner \<Rightarrow> text_tiers \<Rightarrow> u8 list \<Rightarrow> lexed option option" where
  "lex_in logos tiers text = lex_impl logos False tiers text"

definition lex_with_trivia_in :: "scanner \<Rightarrow> text_tiers \<Rightarrow> u8 list \<Rightarrow> lexed option option" where
  "lex_with_trivia_in logos tiers text = lex_impl logos True tiers text"

definition lex_source :: "scanner \<Rightarrow> u8 list \<Rightarrow> lexed option option" where
  "lex_source logos text = lex_in logos default_tiers text"

definition lex_with_trivia :: "scanner \<Rightarrow> u8 list \<Rightarrow> lexed option option" where
  "lex_with_trivia logos text = lex_with_trivia_in logos default_tiers text"

definition declared_tier_languages :: "scanner \<Rightarrow> u8 list \<Rightarrow> (u8 list \<times> u8 list) list option option" where
  "declared_tier_languages logos text =
     map_option (map_option (\<lambda>lx. declared_tier_languages_in text (lx_tokens lx))) (lex_source logos text)"

text \<open>\<open>ReservedWord::from_spelling\<close>: the text is one token and the token is a reserved word.\<close>

definition from_spelling :: "scanner \<Rightarrow> u8 list \<Rightarrow> reserved_word option" where
  "from_spelling logos text =
     (case logos text 0 of
        Some (Some k, s, e) \<Rightarrow>
          if (s, e) \<noteq> (0, length text) \<or> logos text e \<noteq> None then None else token_reserved_word k
      | _ \<Rightarrow> None)"

section \<open>Statement boundaries\<close>

record newline_boundary =
  nb_offset :: nat
  nb_hard :: bool

definition gap_has_newline :: "u8 list \<Rightarrow> nat \<Rightarrow> nat \<Rightarrow> bool" where
  "gap_has_newline text a b = (case str_slice text a b of None \<Rightarrow> False | Some gap \<Rightarrow> newline \<in> set gap)"

definition boundary_between :: "u8 list \<Rightarrow> nat \<Rightarrow> token option \<Rightarrow> token \<Rightarrow> newline_boundary list" where
  "boundary_between text depth prev tok =
     (case prev of
        None \<Rightarrow> []
      | Some p \<Rightarrow>
          if depth = 0 \<and> \<not> is_leading_continuation (tk_kind tok) \<and> gap_has_newline text (tk_end p) (tk_start tok)
          then [\<lparr>nb_offset = tk_start tok, nb_hard = is_statement_ending (tk_kind p)\<rparr>] else [])"

text \<open>The bracket depth relative to the innermost brace, and the depths outside the open braces.\<close>

definition bracket_depth :: "token_kind \<Rightarrow> nat \<times> nat list \<Rightarrow> nat \<times> nat list" where
  "bracket_depth k state =
     (case state of (depth, saved) \<Rightarrow>
        if k = Pn LParen \<or> k = Pn LBracket then (depth + 1, saved)
        else if k = Pn RParen \<or> k = Pn RBracket then (depth - 1, saved)
        else if k = Pn LBrace \<or> k = Pn DotLBrace then (0, depth # saved)
        else if k = Pn RBrace then (case saved of [] \<Rightarrow> (0, []) | d # ds \<Rightarrow> (d, ds))
        else (depth, saved))"

fun boundaries_loop :: "u8 list \<Rightarrow> nat \<times> nat list \<Rightarrow> token option \<Rightarrow> token list \<Rightarrow> newline_boundary list" where
  "boundaries_loop text state prev [] = []"
| "boundaries_loop text state prev (tok # toks) =
     boundary_between text (fst state) prev tok @
     boundaries_loop text (bracket_depth (tk_kind tok) state) (Some tok) toks"

definition newline_boundaries :: "u8 list \<Rightarrow> token list \<Rightarrow> newline_boundary list" where
  "newline_boundaries text tokens = boundaries_loop text (0, []) None tokens"

end
