(* ===== verification/Lex_Scan_Laws.thy ===== *)
theory Lex_Scan_Laws
  imports Lex_Scan
begin

text \<open>
  The scanners stop at the right place: they never slice inside a character, the string scanner always
  returns, the end of a text body is the brace that matches its opening one, and escaping is undone.
\<close>

section \<open>Character boundaries\<close>

lemma char_len_bounds: "0 < char_len b" "char_len b \<le> 4" "b < 128 \<Longrightarrow> char_len b = 1"
  by (auto simp: char_len_def)

lemma boundary_ends [simp]: "is_char_boundary t 0" "is_char_boundary t (length t)"
  by (simp_all add: is_char_boundary_def)

lemma boundary_drop: "is_char_boundary t i \<Longrightarrow> n \<le> i \<Longrightarrow> is_char_boundary (drop n t) (i - n)"
  by (auto simp: is_char_boundary_def)

lemma inside_char:
  assumes "utf8 (b # bs)" and "is_char_boundary (b # bs) i" and "0 < i" "i < char_len b"
  shows "Suc (length bs) \<le> i"
proof -
  have "bs ! (i - 1) \<in> set (take (char_len b - 1) bs)" if "i < Suc (length bs)"
    using that assms(3,4) by (auto simp: in_set_conv_nth intro!: exI [of _ "i - 1"])
  then have "is_continuation ((b # bs) ! i)" if "i < Suc (length bs)"
    using that assms(1,3) by (auto simp: list_all_iff nth_Cons')
  then show ?thesis using assms(2,3) by (auto simp: is_char_boundary_def not_less)
qed

lemma utf8_drop: "utf8 t \<Longrightarrow> is_char_boundary t i \<Longrightarrow> utf8 (drop i t)"
proof (induction t arbitrary: i rule: utf8.induct)
  case (2 b bs)
  let ?n = "char_len b"
  consider "i = 0" | "0 < i" "i < ?n" | "?n \<le> i" by linarith
  then show ?case
  proof cases
    case 2
    then have "Suc (length bs) \<le> i" by (rule inside_char [OF \<open>utf8 (b # bs)\<close> \<open>is_char_boundary (b # bs) i\<close>])
    then show ?thesis by simp
  next
    case 3
    then have "is_char_boundary (drop (?n - 1) bs) (i - ?n)"
      using boundary_drop [OF \<open>is_char_boundary (b # bs) i\<close> 3] char_len_bounds(1) [of b] by (simp add: drop_Cons')
    then have "utf8 (drop (i - ?n) (drop (?n - 1) bs))" using 2 by simp
    then show ?thesis using 3 char_len_bounds(1) [of b] by (simp add: drop_Cons')
  qed (use 2 in simp)
qed simp

lemma utf8_take: "utf8 t \<Longrightarrow> is_char_boundary t i \<Longrightarrow> utf8 (take i t)"
proof (induction t arbitrary: i rule: utf8.induct)
  case (2 b bs)
  let ?n = "char_len b"
  consider "i = 0" | "0 < i" "i < ?n" | "?n \<le> i" by linarith
  then show ?case
  proof cases
    case 2
    then have "Suc (length bs) \<le> i" by (rule inside_char [OF \<open>utf8 (b # bs)\<close> \<open>is_char_boundary (b # bs) i\<close>])
    then show ?thesis using \<open>utf8 (b # bs)\<close> by simp
  next
    case 3
    then have "is_char_boundary (drop (?n - 1) bs) (i - ?n)"
      using boundary_drop [OF \<open>is_char_boundary (b # bs) i\<close> 3] char_len_bounds(1) [of b] by (simp add: drop_Cons')
    then have "utf8 (take (i - ?n) (drop (?n - 1) bs))" using 2 by simp
    moreover have "take (i - ?n) (drop (?n - 1) bs) = drop (?n - 1) (take (i - 1) bs)"
      using 3 char_len_bounds(1) [of b] by (simp add: drop_take)
    ultimately show ?thesis using 3 2(2) char_len_bounds(1) [of b] by (auto simp: take_Cons' min_def)
  qed simp
qed simp

lemma utf8_slice: "utf8 t \<Longrightarrow> is_char_boundary t a \<Longrightarrow> is_char_boundary t b \<Longrightarrow> a \<le> b \<Longrightarrow> utf8 (take (b - a) (drop a t))"
  by (simp add: utf8_take utf8_drop boundary_drop)

lemma boundary_next:
  assumes "utf8 t" and "is_char_boundary t i" and "i < length t"
  shows "i + char_len (t ! i) \<le> length t \<and> is_char_boundary t (i + char_len (t ! i))"
proof -
  let ?n = "char_len (t ! i)"
  have d: "drop i t = t ! i # drop (Suc i) t" using assms(3) by (simp add: Cons_nth_drop_Suc)
  have "utf8 (t ! i # drop (Suc i) t)" using utf8_drop [OF assms(1,2)] d by simp
  then have n: "?n \<le> length t - i" "utf8 (drop (i + ?n) t)"
    using assms(3) char_len_bounds(1) [of "t ! i"] by (auto simp: Suc_diff_Suc add.commute)
  have "\<not> is_continuation (t ! (i + ?n))" if "i + ?n < length t"
    using n(2) that by (subst (asm) Cons_nth_drop_Suc [symmetric]) simp_all
  moreover have "i + ?n \<le> length t" using n(1) assms(3) by linarith
  ultimately show ?thesis by (auto simp: is_char_boundary_def)
qed

lemma boundary_ascii:
  assumes "utf8 t" and "i < length t" and "t ! i < 128"
  shows "is_char_boundary t i" "is_char_boundary t (Suc i)"
proof -
  show b: "is_char_boundary t i" using assms(2,3) by (auto simp: is_char_boundary_def is_continuation_def)
  show "is_char_boundary t (Suc i)" using boundary_next [OF assms(1) b assms(2)] char_len_bounds(3) [OF assms(3)] by simp
qed

section \<open>Strings and holes\<close>

fun closer :: "scan_mode \<Rightarrow> u8" where
  "closer (InString quote) = quote"
| "closer (InHole depth) = rbrace"

text \<open>The scan ends the text, or it ends behind the closing byte.\<close>

definition scanned :: "u8 list \<Rightarrow> scan_mode \<Rightarrow> nat \<Rightarrow> scan_end option \<Rightarrow> bool" where
  "scanned t m i r =
     (r = Some Unterminated \<or>
      (\<exists>j. r = Some (EndAt j) \<and> i < j \<and> j \<le> length t \<and> is_char_boundary t j \<and> t ! (j - 1) = closer m))"

lemma scanned_later: "scanned t m j r \<Longrightarrow> i \<le> j \<Longrightarrow> closer m = closer m' \<Longrightarrow> scanned t m' i r"
  by (auto simp: scanned_def)

lemma scanned_end: "scanned t m i (Some (EndAt j)) \<Longrightarrow> i < j \<and> j \<le> length t \<and> is_char_boundary t j"
  by (simp add: scanned_def)

lemma scanned_bind:
  assumes "scanned t m' i' r" and "\<And>j. \<lbrakk>i' < j; j \<le> length t; is_char_boundary t j\<rbrakk> \<Longrightarrow> scanned t m i (f j)"
  shows "scanned t m i (Option.bind r (\<lambda>r. case r of EndAt j \<Rightarrow> f j | Unterminated \<Rightarrow> Some Unterminated | Panic \<Rightarrow> Some Panic))"
  using assms by (auto simp: scanned_def [of t m' i'] scanned_def [of t m i "Some Unterminated"])

lemma interp_scanned:
  assumes t: "utf8 t"
  shows "i \<le> length t \<Longrightarrow> is_char_boundary t i \<Longrightarrow> closer m < 128 \<Longrightarrow> scanned t m i (interp_scan t m i)"
proof (induction "length t - i" arbitrary: i m rule: less_induct)
  case less
  note later = less.hyps
  have go: "scanned t m i (interp_scan t m' j)" if "i < j" "j \<le> length t" "is_char_boundary t j" "closer m' = closer m" for j m'
    using later [of j m'] that less.prems(3) scanned_later [of t m' j _ i m] by simp
  show ?case
  proof (cases "i < length t")
    case False
    then show ?thesis by (subst interp_scan.simps) (simp add: scanned_def)
  next
    case True
    note nx = boundary_next [OF t less.prems(2) True] char_len_bounds(1) [of "t ! i"]
    have step: "scanned t m i (interp_scan t m (i + char_len (t ! i)))" by (rule go) (use nx in simp_all)
    have suc: "is_char_boundary t (i + 1)" if "t ! i < 128" using boundary_ascii(2) [OF t True that] by simp
    show ?thesis
    proof (cases m)
      case (InString quote)
      have esc: "scanned t m i (interp_scan t m (i + 1 + char_len (t ! (i + 1))))" if "t ! i = backslash" "i + 1 < length t"
        by (rule go) (use boundary_next [OF t suc that(2)] that in simp_all)
      have close: "scanned t m i (Some (EndAt (i + 1)))" if "t ! i = quote"
        using that suc less.prems(3) True InString by (simp add: scanned_def)
      have hole: "scanned t m i (Option.bind (interp_scan t (InHole 1) (i + 2))
          (\<lambda>r. case r of EndAt j \<Rightarrow> interp_scan t m j | Unterminated \<Rightarrow> Some Unterminated | Panic \<Rightarrow> Some Panic))"
        if h: "t ! i = dollar" "i + 1 < length t" "t ! (i + 1) = lbrace"
      proof (rule scanned_bind)
        show "scanned t (InHole 1) (i + 2) (interp_scan t (InHole 1) (i + 2))"
          by (rule later) (use True boundary_ascii(2) [OF t h(2)] h in simp_all)
      qed (use go in simp)
      show ?thesis unfolding interp_scan.simps [of t m i]
        using True less.prems(2) InString suc esc close hole step go [of "i + 1" m] by auto
    next
      case (InHole depth)
      have hole: "scanned t m i (interp_scan t (InHole d) (i + 1))" if "t ! i < 128" for d
        by (rule go) (use True suc that InHole in simp_all)
      have close: "scanned t m i (Some (EndAt (i + 1)))" if "t ! i = rbrace"
        using that suc True InHole by (simp add: scanned_def)
      have str: "scanned t m i (Option.bind (interp_scan t (InString (t ! i)) (i + 1))
          (\<lambda>r. case r of EndAt j \<Rightarrow> interp_scan t m j | Unterminated \<Rightarrow> Some Unterminated | Panic \<Rightarrow> Some Panic))"
        if h: "t ! i < 128"
      proof (rule scanned_bind)
        show "scanned t (InString (t ! i)) (i + 1) (interp_scan t (InString (t ! i)) (i + 1))"
          by (rule later) (use True suc h in simp_all)
      qed (use go in simp)
      show ?thesis unfolding interp_scan.simps [of t m i]
        using True less.prems(2) InHole hole close str step by auto
    qed
  qed
qed

text \<open>The holes come in order, each behind its \<open>${\<close> and before its closing brace.\<close>

fun holes_from :: "u8 list \<Rightarrow> nat \<Rightarrow> (nat \<times> nat) list \<Rightarrow> bool" where
  "holes_from t i [] = True"
| "holes_from t i ((a, b) # hs) =
     (i + 2 \<le> a \<and> a \<le> b \<and> b < length t \<and> is_char_boundary t a \<and> is_char_boundary t b \<and>
      t ! (a - 2) = dollar \<and> t ! (a - 1) = lbrace \<and> t ! b = rbrace \<and> holes_from t (b + 1) hs)"

lemma holes_from_later: "holes_from t j hs \<Longrightarrow> i \<le> j \<Longrightarrow> holes_from t i hs"
  by (cases hs) auto

definition holes_found :: "u8 list \<Rightarrow> nat \<Rightarrow> (nat \<times> nat) list \<Rightarrow> (nat \<times> nat) list option option \<Rightarrow> bool" where
  "holes_found t i acc r = (\<exists>hs. r = Some (Some (acc @ hs)) \<and> holes_from t i hs)"

lemma holes_loop_found:
  assumes t: "utf8 t"
  shows "i \<le> length t \<Longrightarrow> is_char_boundary t i \<Longrightarrow> holes_found t i acc (holes_loop t quote i acc)"
proof (induction "length t - i" arbitrary: i acc rule: less_induct)
  case less
  have go: "holes_found t i acc (holes_loop t quote j acc)" if "i < j" "j \<le> length t" "is_char_boundary t j" for j
  proof -
    have "length t - j < length t - i" using that by simp
    from less.hyps [OF this that(2,3)] that(1) show ?thesis using holes_from_later [of t j _ i] unfolding holes_found_def by fastforce
  qed
  show ?case
  proof (cases "i < length t")
    case False
    then show ?thesis by (subst holes_loop.simps) (simp add: holes_found_def)
  next
    case True
    note nx = boundary_next [OF t less.prems(2) True] char_len_bounds(1) [of "t ! i"]
    have step: "holes_found t i acc (holes_loop t quote (i + char_len (t ! i)) acc)" by (rule go) (use nx in simp_all)
    have suc: "is_char_boundary t (i + 1)" if "t ! i < 128" using boundary_ascii(2) [OF t True that] by simp
    have esc: "holes_found t i acc (holes_loop t quote (i + 1 + char_len (t ! (i + 1))) acc)" if "t ! i = backslash" "i + 1 < length t"
      by (rule go) (use boundary_next [OF t suc that(2)] that in simp_all)
    have hole: "holes_found t i acc (Option.bind (interpolation_hole_end t (i + 2))
        (\<lambda>r. case r of EndAt j \<Rightarrow> holes_loop t quote j (acc @ [(i + 2, j - 1)]) | Unterminated \<Rightarrow> Some (Some acc) | Panic \<Rightarrow> Some None))"
      if h: "t ! i = dollar" "i + 1 < length t" "t ! (i + 1) = lbrace"
    proof -
      have b: "is_char_boundary t (i + 2)" using boundary_ascii(2) [OF t h(2)] h(3) by simp
      have "scanned t (InHole 1) (i + 2) (interpolation_hole_end t (i + 2))"
        unfolding interpolation_hole_end_def by (rule interp_scanned [OF t]) (use h(2) b in simp_all)
      then consider "interpolation_hole_end t (i + 2) = Some Unterminated"
        | j where "interpolation_hole_end t (i + 2) = Some (EndAt j)" "i + 2 < j" "j \<le> length t" "is_char_boundary t j" "t ! (j - 1) = rbrace"
        unfolding scanned_def by auto
      then show ?thesis
      proof cases
        case (2 j)
        have r: "is_char_boundary t (j - 1)" using boundary_ascii(1) [OF t, of "j - 1"] 2 by simp
        have "length t - j < length t - i" using 2 True by linarith
        then obtain hs where "holes_loop t quote j (acc @ [(i + 2, j - 1)]) = Some (Some ((acc @ [(i + 2, j - 1)]) @ hs))" "holes_from t j hs"
          using less.hyps [of j "acc @ [(i + 2, j - 1)]"] 2(3,4) unfolding holes_found_def by blast
        moreover have "i + 2 \<le> j - 1" "j - 1 < length t" "j - 1 + 1 = j" using 2 by linarith+
        ultimately show ?thesis using 2 r b h unfolding holes_found_def by (intro exI [of _ "(i + 2, j - 1) # hs"]) simp
      qed (simp add: holes_found_def)
    qed
    show ?thesis unfolding holes_loop.simps [of t quote i]
      using True less.prems(2) suc esc hole step go [of "i + 1"] by (auto simp: holes_found_def)
  qed
qed

section \<open>Text bodies\<close>

text \<open>A body with balanced braces, as the documentation of text tiers describes it.\<close>

inductive text_body :: "u8 list \<Rightarrow> bool" where
  Empty: "text_body []"
| Escaped: "body_escape b \<Longrightarrow> text_body w \<Longrightarrow> text_body (backslash # b # w)"
| Backslash: "\<not> body_escape b \<Longrightarrow> text_body (b # w) \<Longrightarrow> text_body (backslash # b # w)"
| Plain: "b \<noteq> backslash \<Longrightarrow> b \<noteq> lbrace \<Longrightarrow> b \<noteq> rbrace \<Longrightarrow> text_body w \<Longrightarrow> text_body (b # w)"
| Braces: "text_body v \<Longrightarrow> text_body w \<Longrightarrow> text_body (lbrace # v @ rbrace # w)"

text \<open>The scanner on the rest of the text.\<close>

fun close_from :: "nat \<Rightarrow> u8 list \<Rightarrow> nat option" where
  "close_from depth [] = None"
| "close_from depth [b] = (if b = rbrace \<and> depth - 1 = 0 then Some 0 else None)"
| "close_from depth (b # c # cs) =
     (if b = backslash \<and> body_escape c then map_option ((+) 2) (close_from depth cs)
      else if b = lbrace then map_option Suc (close_from (depth + 1) (c # cs))
      else if b = rbrace then (if depth - 1 = 0 then Some 0 else map_option Suc (close_from (depth - 1) (c # cs)))
      else map_option Suc (close_from depth (c # cs)))"

lemma map_plus: "map_option ((+) i) (map_option Suc x) = map_option ((+) (i + 1)) x"
  "map_option ((+) i) (map_option ((+) 2) x) = map_option ((+) (i + 2)) x"
  "map_option (\<lambda>a. Suc (i + a)) x = map_option ((+) (Suc i)) x" "map_option (\<lambda>a. Suc (Suc (i + a))) x = map_option ((+) (Suc (Suc i))) x"
  by (cases x; simp)+

lemma brace_loop_close: "brace_loop t depth i = map_option ((+) i) (close_from depth (drop i t))"
proof (induction t depth i rule: brace_loop.induct)
  case (1 t depth i)
  show ?case
  proof (cases "i + 1 < length t")
    case True
    then have i: "i < length t" by simp
    have d: "drop i t = t ! i # t ! Suc i # drop (Suc (Suc i)) t" "drop (Suc i) t = t ! Suc i # drop (Suc (Suc i)) t"
      using True by (simp_all add: Cons_nth_drop_Suc)
    show ?thesis
    proof (cases "t ! i = backslash \<and> body_escape (t ! Suc i)")
      case esc: True
      then show ?thesis unfolding d(1) close_from.simps using 1(1) i True by (subst brace_loop.simps) (simp add: map_plus)
    next
      case False
      show ?thesis unfolding d close_from.simps if_not_P [OF False]
        using i True False 1(2-4) by (subst brace_loop.simps) (auto simp: d map_plus)
    qed
  next
    case False
    show ?thesis
    proof (cases "i < length t")
      case True
      then have d: "drop i t = [t ! i]" "length t = Suc i" using False by (simp_all add: Cons_nth_drop_Suc [symmetric])
      have n: "brace_loop t k (i + 1) = None" for k using d(2) by (subst brace_loop.simps) simp
      then show ?thesis unfolding d(1) using d(2) by (subst brace_loop.simps) simp
    qed (subst brace_loop.simps, simp)
  qed
qed

lemma close_step:
  "close_from d (lbrace # y) = map_option Suc (close_from (d + 1) y)"
  "close_from d (rbrace # y) = (if d - 1 = 0 then Some 0 else map_option Suc (close_from (d - 1) y))"
  "b \<noteq> backslash \<Longrightarrow> b \<noteq> lbrace \<Longrightarrow> b \<noteq> rbrace \<Longrightarrow> close_from d (b # y) = map_option Suc (close_from d y)"
  by (cases y; simp)+

lemma map_sum: "map_option ((+) 0) x = x" "map_option Suc (map_option ((+) n) x) = map_option ((+) (Suc n)) x"
  "map_option ((+) 2) (map_option ((+) n) x) = map_option ((+) (Suc (Suc n))) x"
  by (cases x; simp)+

lemma close_body: "text_body w \<Longrightarrow> 0 < d \<Longrightarrow> close_from d (w @ x) = map_option ((+) (length w)) (close_from d x)"
proof (induction w arbitrary: d x rule: text_body.induct)
  case (Backslash b w)
  then show ?case by (cases "close_from d x") auto
next
  case (Braces v w)
  have "close_from (d + 1) (v @ rbrace # w @ x) = map_option ((+) (length v)) (close_from (d + 1) (rbrace # w @ x))"
    using Braces.IH(1) by simp
  then show ?case using Braces.prems Braces.IH(2) [of d x] by (cases "close_from d x") (auto simp: close_step)
qed (simp_all add: close_step map_sum)

lemma close_found:
  "close_from (Suc d) s = Some c \<Longrightarrow>
   \<exists>w s'. s = w @ rbrace # s' \<and> text_body w \<and>
     (if d = 0 then c = length w else \<exists>c'. close_from d s' = Some c' \<and> c = length w + 1 + c')"
proof (induction "length s" arbitrary: d s c rule: less_induct)
  case less
  have ext: "\<exists>w s'. u @ x = w @ rbrace # s' \<and> text_body w \<and>
      (if d = 0 then c = length w else \<exists>c'. close_from d s' = Some c' \<and> c = length w + 1 + c')"
    if "length x < length s" "close_from (Suc d) x = Some c1" "c = length u + c1" "\<And>w. text_body w \<Longrightarrow> text_body (u @ w)" for u x c1
  proof -
    from less.hyps [OF that(1,2)] obtain w s' where w: "x = w @ rbrace # s'" "text_body w"
      "if d = 0 then c1 = length w else \<exists>c'. close_from d s' = Some c' \<and> c1 = length w + 1 + c'" by blast
    show ?thesis by (rule exI [of _ "u @ w"], rule exI [of _ s']) (use w that(3,4) in \<open>auto split: if_splits\<close>)
  qed
  show ?case
  proof (cases s)
    case (Cons b bs)
    consider "b = rbrace" | "b = lbrace" | "b \<noteq> backslash" "b \<noteq> lbrace" "b \<noteq> rbrace" | "b = backslash" by blast
    then show ?thesis
    proof cases
      case 1
      show ?thesis by (rule exI [of _ "[]"], rule exI [of _ bs])
          (use less.prems 1 Cons in \<open>auto simp: close_step intro: text_body.Empty split: if_splits\<close>)
    next
      case 2
      then obtain c1 where c1: "close_from (Suc (Suc d)) bs = Some c1" "c = Suc c1" using less.prems Cons by (auto simp: close_step)
      from less.hyps [OF _ c1(1)] Cons obtain v s1 c2 where v: "bs = v @ rbrace # s1" "text_body v"
        "close_from (Suc d) s1 = Some c2" "c1 = length v + 1 + c2" by auto
      have "\<exists>w s'. (lbrace # v @ [rbrace]) @ s1 = w @ rbrace # s' \<and> text_body w \<and>
          (if d = 0 then c = length w else \<exists>c'. close_from d s' = Some c' \<and> c = length w + 1 + c')"
        by (rule ext) (use Cons v c1 text_body.Braces [OF v(2)] in auto)
      then show ?thesis using Cons 2 v by simp
    next
      case 3
      then obtain c1 where "close_from (Suc d) bs = Some c1" "c = Suc c1" using less.prems Cons by (auto simp: close_step)
      then show ?thesis using ext [of bs c1 "[b]"] text_body.Plain [OF 3] Cons by simp
    next
      case 4
      then obtain e cs where bs: "bs = e # cs" using less.prems Cons by (cases bs) auto
      show ?thesis
      proof (cases "body_escape e")
        case True
        then obtain c1 where "close_from (Suc d) cs = Some c1" "c = 2 + c1" using less.prems Cons bs 4 by auto
        then show ?thesis using ext [of cs c1 "[b, e]"] text_body.Escaped [OF True] Cons bs 4 by simp
      next
        case False
        then obtain c1 where c1: "close_from (Suc d) bs = Some c1" "c = Suc c1" using less.prems Cons bs 4 by auto
        from less.hyps [OF _ c1(1)] Cons obtain w s' where w: "bs = w @ rbrace # s'" "text_body w"
          "if d = 0 then c1 = length w else \<exists>c'. close_from d s' = Some c' \<and> c1 = length w + 1 + c'" by auto
        have "w \<noteq> []" using w(1) bs False by (auto simp: body_escape_def)
        then obtain w' where "w = e # w'" using w(1) bs by (cases w) auto
        then have "text_body (b # w)" using text_body.Backslash [OF False] w(2) 4 by simp
        then show ?thesis using w c1(2) Cons by (intro exI [of _ "b # w"] exI [of _ s']) (auto split: if_splits)
      qed
    qed
  qed (use less.prems in simp)
qed

lemma matching_brace_body:
  assumes "matching_brace t p = Some c"
  shows "p \<le> c \<and> c < length t \<and> t ! c = rbrace \<and> text_body (take (c - p) (drop p t))"
proof -
  from assms obtain k where k: "close_from 1 (drop p t) = Some k" "c = p + k"
    unfolding matching_brace_def brace_loop_close by auto
  then obtain w s' where w: "drop p t = w @ rbrace # s'" "text_body w" "k = length w" using close_found [of 0 "drop p t" k] by auto
  have "length t - p = length w + 1 + length s'" using arg_cong [OF w(1), of length] by simp
  then have "p + length w < length t" by linarith
  moreover from this have "t ! (p + length w) = rbrace" using nth_drop [of p t "length w"] w(1) by simp
  ultimately show ?thesis
    using k(2) w by simp
qed


text \<open>The escaping of prose that a writer of a text body applies.\<close>

definition escape_text_body :: "u8 list \<Rightarrow> u8 list" where
  "escape_text_body s = concat (map (\<lambda>b. if body_escape b then [backslash, b] else [b]) s)"

lemma escape_body: "text_body (escape_text_body s)"
  by (induction s) (auto simp: escape_text_body_def body_escape_def intro: text_body.intros)

lemma unescape_escape: "unescape_text_body (escape_text_body s) = s"
proof (induction s)
  case (Cons b s)
  have "unescape_text_body (b # y) = b # unescape_text_body y" if "\<not> body_escape b" for y
    using that by (cases y) (auto simp: body_escape_def)
  then show ?case using Cons by (simp add: escape_text_body_def)
qed (simp add: escape_text_body_def)

text \<open>
  Every text can be written as a body. Put any bytes between the braces with each brace and backslash
  escaped: the scanner finds the end exactly behind them, whatever follows, and unescaping gives the bytes
  back.
\<close>

theorem text_body_roundtrip:
  "matching_brace (pre @ escape_text_body s @ rbrace # rest) (length pre) = Some (length pre + length (escape_text_body s)) \<and>
   unescape_text_body (escape_text_body s) = s"
  unfolding matching_brace_def brace_loop_close
  by (simp add: close_body [OF escape_body] close_step unescape_escape)

end
