(* ===== verification/Lex_Laws.thy ===== *)
theory Lex_Laws
  imports Lex_Pass Lex_Scan_Laws
begin

text \<open>
  The lexer as a whole: it always returns, its tokens lie in order in the text, and collecting comments
  does not change the tokens.
\<close>

section \<open>The automaton\<close>

text \<open>
  What a generated automaton promises: a token lies behind the position, is not empty and does not leave
  the text; spans of a \<open>str\<close> are on character boundaries; the two string patterns start with their quote.
\<close>

definition scanner_ok :: "scanner \<Rightarrow> bool" where
  "scanner_ok logos =
     (\<forall>text pos r s e. logos text pos = Some (r, s, e) \<longrightarrow>
        pos \<le> s \<and> s < e \<and> e \<le> length text \<and>
        (utf8 text \<and> is_char_boundary text pos \<longrightarrow> is_char_boundary text s \<and> is_char_boundary text e) \<and>
        (r = Some (Lit StringLit) \<longrightarrow> text ! s = dquote) \<and> (r = Some (Lit TemplateStr) \<longrightarrow> text ! s = backtick))"

lemma scannerD:
  assumes "scanner_ok logos" and "logos text pos = Some (r, s, e)" and "utf8 text" and "is_char_boundary text pos"
  shows "pos \<le> s" "s < e" "e \<le> length text" "is_char_boundary text s" "is_char_boundary text e"
    "r = Some (Lit StringLit) \<Longrightarrow> text ! s = dquote" "r = Some (Lit TemplateStr) \<Longrightarrow> text ! s = backtick"
  using assms unfolding scanner_ok_def by blast+

section \<open>Tokens in order\<close>

definition token_in :: "u8 list \<Rightarrow> nat \<Rightarrow> token \<Rightarrow> bool" where
  "token_in text pos t =
     (tk_start t \<le> tk_end t \<and> tk_end t \<le> pos \<and> is_char_boundary text (tk_start t) \<and> is_char_boundary text (tk_end t))"

definition in_order :: "token list \<Rightarrow> bool" where
  "in_order ts = sorted_wrt (\<lambda>t u. tk_end t \<le> tk_start u) ts"

definition comment_in :: "u8 list \<Rightarrow> comment \<Rightarrow> bool" where
  "comment_in text c = (cm_start c \<le> cm_end c \<and> cm_end c \<le> length text)"

definition lex_inv :: "u8 list \<Rightarrow> nat \<Rightarrow> lexed \<Rightarrow> bool" where
  "lex_inv text pos lx =
     (pos \<le> length text \<and> is_char_boundary text pos \<and> list_all (token_in text pos) (lx_tokens lx) \<and> in_order (lx_tokens lx) \<and>
      list_all (comment_in text) (lx_comments lx))"

lemma token_in_later: "token_in text p t \<Longrightarrow> p \<le> q \<Longrightarrow> token_in text q t"
  by (auto simp: token_in_def)

lemma inv_move: "lex_inv text p lx \<Longrightarrow> p \<le> q \<Longrightarrow> q \<le> length text \<Longrightarrow> is_char_boundary text q \<Longrightarrow> lex_inv text q lx"
  by (auto simp: lex_inv_def list_all_iff intro: token_in_later)

lemma inv_token:
  assumes "lex_inv text p lx" and "p \<le> s" "s \<le> e" "e \<le> length text" "is_char_boundary text s" "is_char_boundary text e"
  shows "lex_inv text e (push_token (mk_token k s e) lx)"
  using assms by (auto simp: lex_inv_def push_token_def mk_token_def token_in_def list_all_iff in_order_def sorted_wrt_append)

lemma inv_comment: "lex_inv text p lx \<Longrightarrow> s \<le> e \<Longrightarrow> e \<le> length text \<Longrightarrow> lex_inv text p (push_comment collect k s e lx)"
  by (auto simp: lex_inv_def push_comment_def comment_in_def)

lemma inv_diagnostic: "lex_inv text p (push_diagnostic d lx) = lex_inv text p lx"
  by (simp add: lex_inv_def push_diagnostic_def)

lemma bump_toI: "p \<le> length text \<Longrightarrow> is_char_boundary text p \<Longrightarrow> bump_to text p = Some p"
  by (simp add: bump_to_def)

text \<open>The comment and text-body scanners end behind a closing byte.\<close>

lemma comment_loop_end: "comment_loop t d i = Some j \<Longrightarrow> i + 2 \<le> j \<and> j \<le> length t \<and> t ! (j - 1) = slash"
proof (induction t d i rule: comment_loop.induct)
  case (1 t d i)
  from 1(4) show ?case using 1(1-3)
    by (subst (asm) comment_loop.simps) (fastforce split: if_splits)
qed

section \<open>One token\<close>

definition hole_in :: "u8 list \<Rightarrow> nat \<times> nat \<Rightarrow> bool" where
  "hole_in text h = (fst h \<le> snd h \<and> snd h < length text \<and> is_char_boundary text (fst h) \<and> is_char_boundary text (snd h))"

lemma holes_from_in: "holes_from t i hs \<Longrightarrow> list_all (hole_in t) hs"
  by (induction t i hs rule: holes_from.induct) (auto simp: hole_in_def)

definition advances :: "u8 list \<Rightarrow> nat \<Rightarrow> (lexed \<times> nat \<times> (nat \<times> nat) list) option option \<Rightarrow> bool" where
  "advances text pos x = (\<exists>lx p hs. x = Some (Some (lx, p, hs)) \<and> pos < p \<and> lex_inv text p lx \<and> list_all (hole_in text) hs)"

text \<open>The state of the loop with the span of the token that has just been read.\<close>

definition token_read :: "u8 list \<Rightarrow> nat \<Rightarrow> lexed \<Rightarrow> nat \<Rightarrow> nat \<Rightarrow> bool" where
  "token_read text pos lx s e =
     (utf8 text \<and> lex_inv text pos lx \<and> pos \<le> s \<and> s < e \<and> e \<le> length text \<and> is_char_boundary text s \<and> is_char_boundary text e)"

lemma token_readD:
  assumes "token_read text pos lx s e"
  shows "utf8 text" "lex_inv text pos lx" "pos \<le> s" "s < e" "e \<le> length text" "is_char_boundary text s" "is_char_boundary text e"
  using assms by (simp_all add: token_read_def)

lemma text_block_advances:
  assumes "token_read text pos lx s e"
  shows "advances text pos (Some (map_option (\<lambda>(lx, p). (lx, p, [])) (open_text_block text s e lx)))"
proof -
  note utf = token_readD(1) [OF assms(1)] and inv = token_readD(2) [OF assms(1)] and le = token_readD(3-5) [OF assms(1)]
    and bd = token_readD(6,7) [OF assms(1)]
  show ?thesis
  proof (cases "matching_brace text e")
  case (Some c)
  note c = matching_brace_body [OF Some]
  then have b: "is_char_boundary text c" "is_char_boundary text (Suc c)" using boundary_ascii [OF utf, of c] by simp_all
  have "lex_inv text e (push_token (mk_token (Pn LBrace) s e) lx)" by (rule inv_token [OF inv]) (use le bd in simp_all)
  then have "lex_inv text c (push_token (mk_token DocText e c) (push_token (mk_token (Pn LBrace) s e) lx))"
    by (rule inv_token) (use c bd b in simp_all)
  then have "lex_inv text (Suc c) (push_token (mk_token (Pn RBrace) c (Suc c)) (push_token (mk_token DocText e c) (push_token (mk_token (Pn LBrace) s e) lx)))"
    by (rule inv_token) (use c b in simp_all)
  then show ?thesis using Some c b le by (simp add: open_text_block_def advances_def bump_toI)
next
  case None
  have "\<exists>n. (case lx_tokens lx of [] \<Rightarrow> Some (lit ''doc'') | ts \<Rightarrow> str_slice text (tk_start (last ts)) (tk_end (last ts))) = Some n"
  proof (cases "lx_tokens lx = []")
    case False
    then have "token_in text pos (last (lx_tokens lx))" using inv by (simp add: lex_inv_def list_all_iff)
    then show ?thesis using inv False by (auto simp: token_in_def str_slice_def lex_inv_def split: list.splits)
  qed simp
  then obtain n where "(case lx_tokens lx of [] \<Rightarrow> Some (lit ''doc'') | ts \<Rightarrow> str_slice text (tk_start (last ts)) (tk_end (last ts))) = Some n" ..
  moreover have "lex_inv text e (push_token (mk_token (Pn LBrace) s e) (push_diagnostic d lx))" for d
    by (rule inv_token) (use inv le bd in \<open>simp_all add: inv_diagnostic\<close>)
  ultimately show ?thesis using None le by (simp add: open_text_block_def advances_def)
  qed
qed

lemma block_comment_advances:
  assumes "token_read text pos lx s e"
  shows "advances text pos (Some (map_option (\<lambda>(lx, p). (lx, p, [])) (open_block_comment collect text s e lx)))"
proof -
  note utf = token_readD(1) [OF assms(1)] and inv = token_readD(2) [OF assms(1)] and le = token_readD(3-5) [OF assms(1)]
    and bd = token_readD(6,7) [OF assms(1)]
  show ?thesis
  proof (cases "block_comment_end text e")
  case (Some c)
  then have c: "e + 2 \<le> c" "c \<le> length text" "text ! (c - 1) = slash" using comment_loop_end unfolding block_comment_end_def by blast+
  then have b: "is_char_boundary text c" using boundary_ascii(2) [OF utf, of "c - 1"] by simp
  have "lex_inv text c (push_comment collect BlockC s c lx)"
    by (intro inv_comment inv_move [OF inv]) (use c b le in simp_all)
  then show ?thesis using Some c b le by (simp add: open_block_comment_def advances_def bump_toI)
next
  case None
  have "lex_inv text (length text) lx" by (rule inv_move [OF inv]) (use le in simp_all)
  then show ?thesis using None le by (simp add: open_block_comment_def advances_def bump_toI inv_diagnostic)
  qed
qed

lemma string_advances:
  assumes "token_read text pos lx s e" and quote: "text ! s < 128"
  shows "advances text pos (lex_string collect text k s e lx)"
proof -
  note utf = token_readD(1) [OF assms(1)] and inv = token_readD(2) [OF assms(1)] and le = token_readD(3-5) [OF assms(1)]
    and bd = token_readD(6,7) [OF assms(1)]
  have s1: "is_char_boundary text (s + 1)" "s < length text" using boundary_ascii(2) [OF utf _ quote] le by simp_all
  have "scanned text (InString (text ! s)) (s + 1) (interpolated_string_end text s (text ! s))"
    unfolding interpolated_string_end_def by (rule interp_scanned [OF utf]) (use s1 quote in simp_all)
  then obtain r where r0: "interpolated_string_end text s (text ! s) = Some r"
    "r = Unterminated \<or> (\<exists>j. r = EndAt j \<and> j \<le> length text \<and> is_char_boundary text j)" by (auto simp: scanned_def)
  define j where "j = (case r of EndAt j \<Rightarrow> max e j | _ \<Rightarrow> e)"
  have r: "(case r of EndAt j \<Rightarrow> if e < j then map_option (Pair j) (bump_to text j) else Some (e, e) | Unterminated \<Rightarrow> Some (e, e) | Panic \<Rightarrow> None) = Some (j, j)"
    "e \<le> j" "j \<le> length text" "is_char_boundary text j"
    using r0(2) le bd by (auto simp: j_def bump_toI max_def)
  obtain hs0 where "holes_loop text (text ! s) (s + 1) [] = Some (Some hs0)" "holes_from text (s + 1) hs0"
    using holes_loop_found [OF utf, of "s + 1" "[]" "text ! s"] s1 by (auto simp: holes_found_def)
  then obtain hs where hs: "interpolation_holes text s (text ! s) = Some (Some hs)" "list_all (hole_in text) hs"
    using holes_from_in [of "text" "s + 1" hs0] by (cases "text ! s = squote") (simp_all add: interpolation_holes_def)
  have "lex_inv text j (push_token (mk_token k s j) lx)" by (rule inv_token [OF inv]) (use le bd r in simp_all)
  then show ?thesis using r0(1) r hs le bd s1 by (auto simp: lex_string_def Let_def advances_def)
qed

lemma plain_advances:
  assumes "token_read text pos lx s e"
  shows "advances text pos (Some (Some (push_token (mk_token k s e) lx, e, [])))"
    "advances text pos (Some (Some (push_comment collect ck s e lx, e, [])))"
    "advances text pos (Some (map_option (\<lambda>d. (push_diagnostic d lx, e, [])) (lex_error text s e)))"
proof -
  note utf = token_readD(1) [OF assms(1)] and inv = token_readD(2) [OF assms(1)] and le = token_readD(3-5) [OF assms(1)]
    and bd = token_readD(6,7) [OF assms(1)]
  show "advances text pos (Some (Some (push_token (mk_token k s e) lx, e, [])))"
    "advances text pos (Some (Some (push_comment collect ck s e lx, e, [])))"
    "advances text pos (Some (map_option (\<lambda>d. (push_diagnostic d lx, e, [])) (lex_error text s e)))"
  using inv_token [OF inv, of s e k] inv_comment [OF inv_move [OF inv, of e], of s e collect ck] inv_move [OF inv, of e] le bd
  by (auto simp: advances_def lex_error_def str_slice_def inv_diagnostic)
qed

lemma lex_token_advances:
  assumes "scanner_ok logos" and "utf8 text" and "lex_inv text pos lx" and "logos text pos = Some (r, s, e)"
  shows "advances text pos (lex_token tiers collect text r s e lx)"
proof -
  have "is_char_boundary text pos" using assms(3) by (simp add: lex_inv_def)
  note sc = scannerD [OF assms(1,4,2) this]
  have "token_read text pos lx s e" using assms(2,3) sc(1-5) by (simp add: token_read_def)
  note ad = string_advances [OF this] plain_advances [OF this] text_block_advances [OF this] block_comment_advances [OF this]
  show ?thesis using ad sc(6,7) unfolding lex_token_def by (auto split: option.splits)
qed

section \<open>The lexer returns\<close>

lemma lex_start_ok:
  assumes "utf8 text"
  shows "\<exists>lx p. lex_start collect text = Some (lx, p) \<and> lex_inv text p lx \<and> lx_tokens lx = [] \<and> lx_diagnostics lx = []"
proof -
  let ?n = "find_newline text"
  have n: "?n \<le> length text" unfolding find_newline_def by (rule length_takeWhile_le)
  have b: "is_char_boundary text ?n"
  proof (cases "?n < length text")
    case True
    then have "text ! ?n = newline" unfolding find_newline_def using nth_length_takeWhile by blast
    then show ?thesis using True boundary_ascii(1) [OF assms True] by (simp add: newline_def)
  next
    case False
    then show ?thesis using n by (simp add: is_char_boundary_def)
  qed
  then show ?thesis using n
    by (auto simp: lex_start_def bump_toI lex_inv_def empty_lexed_def push_comment_def in_order_def comment_in_def)
qed

definition finishes :: "u8 list \<Rightarrow> lexed option option \<Rightarrow> bool" where
  "finishes text r = (\<exists>lx. r = Some (Some lx) \<and> lex_inv text (length text) lx)"

lemma slice_of_hole: "hole_in text (a, b) \<Longrightarrow> str_slice text a b = Some (take (b - a) (drop a text))"
  by (simp add: hole_in_def str_slice_def)

lemma inv_hole_comments:
  assumes "lex_inv text pos lx" and "hole_in text (a, b)" and "lex_inv inner p found" and "length inner = b - a"
  shows "lex_inv text pos (lx\<lparr>lx_comments := lx_comments lx @ map (shift_comment a) (lx_comments found)\<rparr>)"
  using assms by (fastforce simp: lex_inv_def list_all_iff comment_in_def shift_comment_def hole_in_def)

lemma lex_loop_finishes:
  assumes sc: "scanner_ok logos"
  shows "\<lbrakk>utf8 text; lex_inv text pos lx; list_all (hole_in text) holes\<rbrakk> \<Longrightarrow>
    finishes text (lex_loop logos tiers collect text pos lx holes)"
proof (induction "length text" arbitrary: "text" pos lx holes collect rule: less_induct)
  case outer: less
  note inner = outer.hyps
  from outer.prems show ?case
  proof (induction "length text - pos" arbitrary: pos lx holes rule: less_induct)
    case less
    from less.prems show ?case
    proof (induction holes arbitrary: lx)
      case Nil
      show ?case
      proof (cases "logos text pos")
        case None
        have "lex_inv text (length text) lx" by (rule inv_move [OF Nil(2)]) (use Nil(2) in \<open>simp_all add: lex_inv_def\<close>)
        then show ?thesis using None by (subst lex_loop.simps) (simp add: finishes_def)
      next
        case (Some x)
        obtain r s e where x: "x = (r, s, e)" by (cases x)
        from lex_token_advances [OF sc Nil(1,2) Some [unfolded x]] obtain lx' p hs where
          ad: "lex_token tiers collect text r s e lx = Some (Some (lx', p, hs))" "pos < p" "lex_inv text p lx'" "list_all (hole_in text) hs"
          unfolding advances_def by blast
        have "length text - p < length text - pos" using ad(2,3) unfolding lex_inv_def by linarith
        from less.hyps [OF this outer.prems(1) ad(3,4)] show ?thesis using Some x ad(1) by (subst lex_loop.simps) simp
      qed
    next
      case (Cons h hs)
      obtain a b where h: "h = (a, b)" by (cases h)
      let ?inner = "take (b - a) (drop a text)"
      have hole: "hole_in text (a, b)" "list_all (hole_in text) hs" using Cons.prems(3) h by simp_all
      have u: "utf8 ?inner" by (rule utf8_slice) (use Cons.prems(1) hole(1) in \<open>simp_all add: hole_in_def\<close>)
      have len: "length ?inner = b - a" "length ?inner < length text" using hole(1) by (auto simp: hole_in_def)
      obtain st p where st: "lex_start True ?inner = Some (st, p)" "lex_inv ?inner p st" using lex_start_ok [OF u] by blast
      obtain found where found: "lex_loop logos tiers True ?inner p st [] = Some (Some found)" "lex_inv ?inner (length ?inner) found"
        using inner [OF len(2) u st(2), of "[]" True] by (auto simp: finishes_def)
      have "finishes text (lex_loop logos tiers collect text pos
          (lx\<lparr>lx_comments := lx_comments lx @ map (shift_comment a) (lx_comments found)\<rparr>) hs)"
        by (rule Cons.IH [OF Cons.prems(1) inv_hole_comments [OF Cons.prems(2) hole(1) found(2) len(1)] hole(2)])
      then show ?case using slice_of_hole [OF hole(1)] st(1) found(1) h by (subst lex_loop.simps) simp
    qed
  qed
qed

lemma lex_pass_finishes: "scanner_ok logos \<Longrightarrow> utf8 text \<Longrightarrow> finishes text (lex_pass logos tiers collect text)"
  using lex_start_ok [of "text" collect] lex_loop_finishes [of logos "text"] by (auto simp: lex_pass_def)

section \<open>Comments do not matter\<close>

text \<open>The same tokens and diagnostics; the comments may differ.\<close>

definition same_tokens :: "lexed \<Rightarrow> lexed \<Rightarrow> bool" where
  "same_tokens x y = (lx_tokens x = lx_tokens y \<and> lx_diagnostics x = lx_diagnostics y \<and> lx_text_tier_decls x = lx_text_tier_decls y)"

lemma same_push [simp]:
  "same_tokens x y \<Longrightarrow> same_tokens (push_token t x) (push_token t y)"
  "same_tokens x y \<Longrightarrow> same_tokens (push_diagnostic d x) (push_diagnostic d y)"
  "same_tokens x y \<Longrightarrow> same_tokens (push_comment c k a b x) (push_comment c' k' a' b' y)"
  "same_tokens x y \<Longrightarrow> same_tokens (x\<lparr>lx_comments := cs\<rparr>) y"
  by (simp_all add: same_tokens_def push_token_def push_diagnostic_def push_comment_def)

lemma lex_token_same:
  assumes "same_tokens x y"
    and "lex_token tiers True text r s e x = Some (Some (x', p, hs))" and "lex_token tiers False text r s e y = Some (Some (y', q, hs'))"
  shows "same_tokens x' y' \<and> p = q \<and> hs' = []"
proof -
  have t: "lx_tokens x = lx_tokens y" using assms(1) by (simp add: same_tokens_def)
  show ?thesis
    using assms t
    by (auto simp: lex_token_def open_text_block_def open_block_comment_def lex_string_def Let_def bind_eq_Some_conv bump_to_def
        split: option.splits if_splits scan_end.splits list.splits)
qed

definition agree :: "lexed option option \<Rightarrow> lexed option option \<Rightarrow> bool" where
  "agree r r' = (\<exists>x y. r = Some (Some x) \<and> r' = Some (Some y) \<and> same_tokens x y)"

lemma lex_loop_same:
  assumes sc: "scanner_ok logos" and utf: "utf8 text"
  shows "\<lbrakk>lex_inv text pos x; lex_inv text pos y; same_tokens x y; list_all (hole_in text) holes\<rbrakk> \<Longrightarrow>
    agree (lex_loop logos tiers True text pos x holes) (lex_loop logos tiers False text pos y [])"
proof (induction "length text - pos" arbitrary: pos x y holes rule: less_induct)
  case less
  from less.prems show ?case
  proof (induction holes arbitrary: x)
    case Nil
    show ?case
    proof (cases "logos text pos")
      case None
      then show ?thesis using Nil by (subst (1 2) lex_loop.simps) (simp add: agree_def)
    next
      case (Some z)
      obtain r s e where z: "z = (r, s, e)" by (cases z)
      note n = Some [unfolded z]
      obtain x' p hs where X: "lex_token tiers True text r s e x = Some (Some (x', p, hs))" "pos < p" "lex_inv text p x'" "list_all (hole_in text) hs"
        using lex_token_advances [OF sc utf Nil(1) n] unfolding advances_def by blast
      obtain y' q hs' where Y: "lex_token tiers False text r s e y = Some (Some (y', q, hs'))" "lex_inv text q y'"
        using lex_token_advances [OF sc utf Nil(2) n] unfolding advances_def by blast
      have S: "same_tokens x' y'" "p = q" "hs' = []" using lex_token_same [OF Nil(3) X(1) Y(1)] by simp_all
      have "length text - p < length text - pos" using X(2,3) unfolding lex_inv_def by linarith
      from less.hyps [OF this X(3) Y(2) [folded S(2)] S(1) X(4)]
      show ?thesis using n X(1) Y(1) S(2,3) by (subst (1 2) lex_loop.simps) simp
    qed
  next
    case (Cons h hs)
    obtain a b where h: "h = (a, b)" by (cases h)
    let ?inner = "take (b - a) (drop a text)"
    have hole: "hole_in text (a, b)" "list_all (hole_in text) hs" using Cons.prems(4) h by simp_all
    have u: "utf8 ?inner" by (rule utf8_slice) (use utf hole(1) in \<open>simp_all add: hole_in_def\<close>)
    have len: "length ?inner = b - a" using hole(1) by (auto simp: hole_in_def)
    obtain st p where st: "lex_start True ?inner = Some (st, p)" "lex_inv ?inner p st" using lex_start_ok [OF u] by blast
    obtain found where found: "lex_loop logos tiers True ?inner p st [] = Some (Some found)" "lex_inv ?inner (length ?inner) found"
      using lex_loop_finishes [OF sc u st(2), of "[]" tiers True] by (auto simp: finishes_def)
    have "agree (lex_loop logos tiers True text pos (x\<lparr>lx_comments := lx_comments x @ map (shift_comment a) (lx_comments found)\<rparr>) hs)
        (lex_loop logos tiers False text pos y [])"
      by (rule Cons.IH) (use Cons.prems(2,3) hole(2) inv_hole_comments [OF Cons.prems(1) hole(1) found(2) len] in simp_all)
    then show ?case using slice_of_hole [OF hole(1)] st(1) found(1) h by (subst lex_loop.simps) simp
  qed
qed

lemma lex_pass_same:
  assumes "scanner_ok logos" and "utf8 text"
  shows "agree (lex_pass logos tiers True text) (lex_pass logos tiers False text)"
proof -
  obtain x p where x: "lex_start True text = Some (x, p)" "lex_inv text p x" using lex_start_ok [OF assms(2)] by blast
  obtain y q where y: "lex_start False text = Some (y, q)" "lex_inv text q y" using lex_start_ok [OF assms(2)] by blast
  have "q = p \<and> same_tokens x y" using x(1) y(1) by (auto simp: lex_start_def bump_to_def same_tokens_def push_comment_def split: if_splits)
  then show ?thesis using x y lex_loop_same [OF assms, of p x y "[]" tiers] by (simp add: lex_pass_def)
qed

section \<open>Results\<close>

lemma lex_impl_finishes: 
  assumes "scanner_ok logos" and "utf8 text"
  shows "finishes text (lex_impl logos collect tiers text)"
proof -
  have inv: "lex_inv text (length text) (lx\<lparr>lx_text_tier_decls := d\<rparr>) = lex_inv text (length text) lx" for lx d
    by (simp add: lex_inv_def)
  obtain lx where lx: "lex_pass logos tiers collect text = Some (Some lx)" "lex_inv text (length text) lx"
    using lex_pass_finishes [OF assms, of tiers collect] by (auto simp: finishes_def)
  obtain lx' where "lex_pass logos (fold tiers_insert (declared_text_tiers text (lx_tokens lx)) tiers) collect text = Some (Some lx')"
    "lex_inv text (length text) lx'"
    using lex_pass_finishes [OF assms, of "fold tiers_insert (declared_text_tiers text (lx_tokens lx)) tiers" collect] by (auto simp: finishes_def)
  then show ?thesis using lx inv by (simp add: lex_impl_def Let_def finishes_def)
qed


text \<open>
  C11: collecting comments never changes the token stream. For every text in UTF-8 and every automaton that keeps
  its promises, the formatter's run and the compiler's run give the same tokens, the same diagnostics and
  the same declared text tiers.
\<close>

theorem trivia_keeps_tokens:
  assumes "scanner_ok logos" and "utf8 text"
  shows "\<exists>x y. lex_with_trivia_in logos tiers text = Some (Some x) \<and> lex_in logos tiers text = Some (Some y) \<and>
    lx_tokens x = lx_tokens y \<and> lx_diagnostics x = lx_diagnostics y \<and> lx_text_tier_decls x = lx_text_tier_decls y"
proof -
  obtain x y where P: "lex_pass logos tiers True text = Some (Some x)" "lex_pass logos tiers False text = Some (Some y)" "same_tokens x y"
    using lex_pass_same [OF assms, of tiers] by (auto simp: agree_def)
  let ?d = "declared_text_tiers text (lx_tokens y)"
  obtain u v where Q: "lex_pass logos (fold tiers_insert ?d tiers) True text = Some (Some u)"
    "lex_pass logos (fold tiers_insert ?d tiers) False text = Some (Some v)" "same_tokens u v"
    using lex_pass_same [OF assms, of "fold tiers_insert ?d tiers"] by (auto simp: agree_def)
  show ?thesis using P Q
    by (cases "list_ex (\<lambda>n. n \<notin> set tiers) ?d")
      (simp_all add: lex_with_trivia_in_def lex_in_def lex_impl_def Let_def same_tokens_def)
qed

text \<open>An automaton that takes every character for an identifier.\<close>

definition one_char_scanner :: scanner where
  "one_char_scanner text pos =
     (if pos < length text \<and> pos + char_len (text ! pos) \<le> length text
      then Some (Some (Lit Ident), pos, pos + char_len (text ! pos)) else None)"

lemma one_char_scanner_ok: "scanner_ok one_char_scanner"
  using char_len_bounds(1) boundary_next by (auto simp: scanner_ok_def one_char_scanner_def split: if_splits)


theorem trivia_keeps_tokens_witness:
  "\<exists>x y. lex_with_trivia_in one_char_scanner default_tiers (lit ''ab'') = Some (Some x) \<and>
    lex_in one_char_scanner default_tiers (lit ''ab'') = Some (Some y) \<and>
    lx_tokens x = lx_tokens y \<and> lx_diagnostics x = lx_diagnostics y \<and> lx_text_tier_decls x = lx_text_tier_decls y"
  by (rule trivia_keeps_tokens [OF one_char_scanner_ok]) code_simp

section \<open>Statement boundaries\<close>

definition depth_after :: "token list \<Rightarrow> nat \<times> nat list \<Rightarrow> nat \<times> nat list" where
  "depth_after toks state = fold (\<lambda>t. bracket_depth (tk_kind t)) toks state"

lemma boundaries_append:
  "boundaries_loop text state prev (xs @ ys) =
   boundaries_loop text state prev xs @
   boundaries_loop text (depth_after xs state) (if xs = [] then prev else Some (last xs)) ys"
  by (induction xs arbitrary: state prev) (simp_all add: depth_after_def)

text \<open>How many braces are open behind a list of tokens that closes none it has not opened.\<close>

fun open_braces :: "nat \<Rightarrow> token list \<Rightarrow> nat option" where
  "open_braces n [] = Some n"
| "open_braces n (t # ts) =
     (if tk_kind t = Pn LBrace \<or> tk_kind t = Pn DotLBrace then open_braces (n + 1) ts
      else if tk_kind t = Pn RBrace then (case n of 0 \<Rightarrow> None | Suc m \<Rightarrow> open_braces m ts)
      else open_braces n ts)"

lemma boundaries_local:
  "open_braces (length own) toks = Some n \<Longrightarrow>
   \<exists>d' own'. length own' = n \<and>
     (\<forall>base. depth_after toks (d, own @ base) = (d', own' @ base) \<and>
       boundaries_loop text (d, own @ base) prev toks = boundaries_loop text (d, own) prev toks)"
proof (induction toks arbitrary: d own prev)
  case (Cons t ts)
  let ?k = "tk_kind t"
  have step: ?case if "bracket_depth ?k (d, own) = (d1, own1)" "\<And>base. bracket_depth ?k (d, own @ base) = (d1, own1 @ base)"
    "open_braces (length own1) ts = Some n" for d1 own1
    using Cons.IH [OF that(3), of d1 "Some t"] that(1,2) by (simp add: depth_after_def)
  consider "?k = Pn LBrace \<or> ?k = Pn DotLBrace" | "?k = Pn RBrace" | "?k \<noteq> Pn LBrace" "?k \<noteq> Pn DotLBrace" "?k \<noteq> Pn RBrace" by blast
  then show ?case
  proof cases
    case 1
    show ?thesis by (rule step [of 0 "d # own"]) (use 1 Cons.prems in \<open>auto simp: bracket_depth_def\<close>)
  next
    case 2
    then obtain m ds where "own = m # ds" using Cons.prems by (cases own) auto
    then show ?thesis by (intro step [of m ds]) (use 2 Cons.prems in \<open>auto simp: bracket_depth_def\<close>)
  next
    case 3
    show ?thesis by (rule step [of "fst (bracket_depth ?k (d, own))" own]) (use 3 Cons.prems in \<open>auto simp: bracket_depth_def\<close>)
  qed
qed (simp add: depth_after_def)

text \<open>
  C18: newlines end statements the same way at every nesting level. Take a block: an opening brace, any tokens
  whose braces balance, and the closing brace. Wherever it stands, inside calls, lists or other blocks, the
  boundaries within it are those of the same block at top level, and the tokens behind it are treated as
  if the block were a single token.
\<close>

theorem block_boundaries_uniform:
  assumes "tk_kind opn = Pn LBrace \<or> tk_kind opn = Pn DotLBrace" and "tk_kind cls = Pn RBrace" and "open_braces 0 toks = Some 0"
  shows "boundaries_loop text state prev (opn # toks @ cls # rest) =
    boundary_between text (fst state) prev opn @ boundaries_loop text (0, []) (Some opn) (toks @ [cls]) @
    boundaries_loop text state (Some cls) rest"
proof -
  obtain d saved where st: "state = (d, saved)" by (cases state)
  obtain d' where L: "depth_after toks (0, base) = (d', base)"
    "boundaries_loop text (0, base) (Some opn) toks = boundaries_loop text (0, []) (Some opn) toks" for base
    using boundaries_local [of "[]" toks 0 0 "text" "Some opn"] assms(3) by auto
  have o: "bracket_depth (tk_kind opn) state = (0, d # saved)" using assms(1) st by (auto simp: bracket_depth_def)
  have c: "bracket_depth (tk_kind cls) (d', d # saved) = state" using assms(2) st by (simp add: bracket_depth_def)
  have b: "boundary_between text n p cls = []" for n p
    using assms(2) by (cases p) (simp_all add: boundary_between_def)
  show ?thesis using L(1) [of "d # saved"] L(2) [of "d # saved"] o c b by (simp add: boundaries_append)
qed

theorem block_boundaries_uniform_witness:
  "let code = lit ''f({a'' @ [newline] @ lit ''b})''; tok = (\<lambda>k s. mk_token k s (s + 1)) in
   boundaries_loop code (1, []) (Some (tok (Pn LParen) 1))
     (tok (Pn LBrace) 2 # [tok (Lit Ident) 3, tok (Lit Ident) 5] @ tok (Pn RBrace) 6 # [tok (Pn RParen) 7]) =
   boundary_between code 1 (Some (tok (Pn LParen) 1)) (tok (Pn LBrace) 2) @
   boundaries_loop code (0, []) (Some (tok (Pn LBrace) 2)) ([tok (Lit Ident) 3, tok (Lit Ident) 5] @ [tok (Pn RBrace) 6]) @
   boundaries_loop code (1, []) (Some (tok (Pn RBrace) 6)) [tok (Pn RParen) 7]"
  unfolding Let_def
  by (rule block_boundaries_uniform [of "mk_token (Pn LBrace) 2 (2 + 1)", where state = "(1, [])", simplified fst_conv])
    (simp_all add: mk_token_def)

end
