(* ===== verification/Lex_Scenarios.thy ===== *)
theory Lex_Scenarios
  imports Lex_Laws
begin

text \<open>
  The lexer on concrete texts, with an automaton that follows the declared patterns for whitespace,
  identifiers, quoted strings and the punctuation of tier declarations.
\<close>

section \<open>A small automaton\<close>

definition letter :: "u8 \<Rightarrow> bool" where
  "letter b = (97 \<le> b \<and> b \<le> 122 \<or> 65 \<le> b \<and> b \<le> 90 \<or> b = 95)"

text \<open>The closing quote of a string without backslashes.\<close>

definition quote_end :: "u8 \<Rightarrow> nat \<Rightarrow> u8 list \<Rightarrow> nat" where
  "quote_end q p rest = p + 2 + length (takeWhile (\<lambda>b. b \<noteq> q) rest)"

fun punct_of :: "u8 \<Rightarrow> token_kind option" where
  "punct_of b =
     (if b = 64 then Some (Pn At) else if b = 40 then Some (Pn LParen) else if b = 41 then Some (Pn RParen)
      else if b = 44 then Some (Pn Comma) else if b = 58 then Some (Pn Colon)
      else if b = lbrace then Some (Pn LBrace) else if b = rbrace then Some (Pn RBrace) else None)"

definition small_scanner :: scanner where
  "small_scanner text pos =
     (case drop pos text of
        [] \<Rightarrow> None
      | c # rest \<Rightarrow>
          if letter c then Some (Some (Lit Ident), pos, pos + 1 + length (takeWhile letter rest))
          else if c = dquote \<and> dquote \<in> set rest then Some (Some (Lit StringLit), pos, quote_end dquote pos rest)
          else if c = squote \<and> squote \<in> set rest then Some (Some (Lit RawStr), pos, quote_end squote pos rest)
          else Some (punct_of c, pos, pos + 1))"

definition tier_text :: "u8 list" where
  "tier_text = lit ''@tier(a,text:'' @ [dquote] @ lit ''m'' @ [dquote] @ lit '')@a{don'' @ [squote] @ lit ''t}@tier(b,text:'' @ [dquote] @
     lit ''m'' @ [dquote] @ lit '')@b{x}@a{it'' @ [squote] @ lit ''s}''"

section \<open>A declaration that appears in the second pass\<close>

lemma tier_text_lexed:
  "map_option (map_option (\<lambda>lx.
      (lx_text_tier_decls lx, declared_text_tiers tier_text (lx_tokens lx),
       map (\<lambda>t. (tk_start t, tk_end t)) (filter (\<lambda>t. tk_kind t = DocText) (lx_tokens lx)), lx_diagnostics lx)))
     (lex_source small_scanner tier_text) =
   Some (Some ([lit ''a''], [lit ''a'', lit ''b''], [(20, 25), (51, 55)], []))"
  by code_simp


section \<open>Comments in holes\<close>

text \<open>
  A hole is scanned as code with strings but without comments: a brace in a comment ends the hole, a quote
  in a comment opens a string, and \<open>#!\<close> at the start of a hole is taken for the shebang of a file.
\<close>

lemma comment_brace_ends_hole:
  "interpolation_holes (dquote # lit ''${/*}*/x}'' @ [dquote]) 0 dquote = Some (Some [(3, 5)])"
  by code_simp

lemma comment_quote_opens_string:
  "interpolated_string_end (dquote # lit ''${x/*'' @ [squote] @ lit ''*/}'' @ [dquote]) 0 dquote = Some Unterminated"
  by code_simp

lemma hole_shebang:
  "map_option (map_option lx_comments) (lex_with_trivia small_scanner (dquote # lit ''${#!x}'' @ [dquote])) =
   Some (Some [\<lparr>cm_start = 3, cm_end = 6, cm_kind = ShebangC\<rparr>])"
  by code_simp

end
