(* ===== verification/Spec2Isabelle.thy ===== *)
theory Spec2Isabelle
  imports Variance Reactive_Run Source_Span Builtin_Traits Gc_Scenarios Regalloc_Scenarios Fixed_Width_Laws Pretty_Doc_Laws
    Merkle_Release Lex_Scenarios
begin

text \<open>
  A verification of the core of the Noeta toolchain. Noeta is a statically typed language with a compiler
  to a register machine, a reference-counted runtime with cycle collection, a reactive library, a
  formatter and a package manager, written in Rust under \<open>src/crates\<close>. Source text goes through the lexer
  and the parser to the type checker; the checked program is lowered to bytecode, whose registers are then
  allocated, and runs on a heap of reference-counted objects. The formatter lays the same syntax tree out
  again, and the package manager checks that what it downloads is publicly logged.

  \<^bold>\<open>Shared vocabulary.\<close> \<open>Prelude\<close> holds the integer widths, the pieces of the Rust library the code calls, the
  generic list facts and two theorem collections. \<open>Source_Span\<close> is \<open>noeta-span\<close>: spans, sources with their
  line index, source maps and package provenance. Text is always its UTF-8 bytes. \<open>line_col_exact\<close> shows
  that the binary search over line starts gives the 1-based line and the column in characters.

  \<^bold>\<open>Lexer\<close> (\<open>noeta-lexer\<close>). \<open>Token_Kind\<close> has the 110 token kinds in four groups, both name tables and the
  reserved words. \<open>Lex_Scan\<close> has the scanners for text bodies (\<open>matching_brace\<close>), nested comments
  (\<open>block_comment_end\<close>) and interpolated strings (\<open>interpolated_string_end\<close> and \<open>interpolation_hole_end\<close>, one
  function \<open>interp_scan\<close> with a mode). \<open>Lex_Pass\<close> has the lexing loop, the two passes and the statement
  boundaries. The generated automaton is the parameter \<open>logos\<close>; \<open>scanner_ok\<close> says what it promises.
  \<open>Lex_Scan_Laws\<close> and \<open>Lex_Laws\<close> show that the lexer returns on every text without a panic, with its tokens
  in order, that comments do not influence tokens, that a text body ends at its matching brace, and that
  statement boundaries do not depend on the nesting level. \<open>Lex_Scenarios\<close> has three texts on which the code
  does not do what its comments say.

  \<^bold>\<open>Types\<close> (\<open>noeta-types\<close>, \<open>noeta-ast\<close>, \<open>noeta-check\<close>). \<open>Builtin_Ty\<close> decodes the built-in type names,
  \<open>Type_Lattice\<close> is \<open>Type\<close> with its equality, classifications, union constructor, desugaring and rendering,
  \<open>Subtyping\<close> the walk \<open>subtype_at\<close>, whose rules about declared types are the record \<open>nominal_rules\<close>.
  \<open>Subtyping_Laws\<close> shows that the walk decides the documented rules and is transitive on closed types.
  \<open>Builtin_Traits\<close> is the trait registry with operator dispatch. \<open>Variance\<close> computes which type arguments
  are covariant; the loop always returns the least fixpoint, whatever the order of the hash map, and its
  table provides the rules that \<open>Subtyping\<close> consumes.

  \<^bold>\<open>Bytecode and register allocation\<close> (\<open>noeta-bytecode\<close>, \<open>noeta-compiler/src/regalloc.rs\<close>). \<open>Bytecode\<close> has the
  108 instructions, \<open>Regalloc\<close> liveness, interference, coloring and coalescing, \<open>Regalloc_Passes\<close> constant
  hoisting and the release of stale globals. \<open>Regalloc_Ops\<close> shows that the register tables are complete for
  every instruction, \<open>Regalloc_Liveness\<close> that liveness is exact, \<open>Regalloc_Coloring\<close> that the coloring is
  proper, and \<open>Regalloc_Sim\<close> that a coalesced chunk runs in lockstep with the original for every semantics of
  the instructions (a parameter). \<open>Regalloc_Scenarios\<close> has the instances and a miscompiled loop.

  \<^bold>\<open>Integers at a width\<close> (\<open>noeta-ext-abi/src/ring1.rs\<close>, \<open>noeta-value/src/ops.rs\<close>). \<open>Fixed_Width\<close> has the
  conversions, intrinsics and operators on erased 64-bit words; \<open>Fixed_Width_Laws\<close> shows that they compute
  the wrapped mathematical result. A float is not-a-number, an infinity or a rational.

  \<^bold>\<open>Heap and cycle collection\<close> (\<open>noeta-value/src/heap.rs\<close>, \<open>noeta-gc\<close>). \<open>Gc_Heap\<close> has headers, counts, the
  registry, the candidate buffer and the release path, \<open>Gc_Collect\<close> both collectors. \<open>Gc_Count\<close> shows that
  counts stay exact, \<open>Gc_Walk\<close> states once what a collector's walk computes (a locale with four
  interpretations), \<open>Gc_Trial\<close> and \<open>Gc_Trace\<close> that the collectors reclaim exactly the garbage,
  \<open>Gc_Components\<close> that components are closed. \<open>Gc_Scenarios\<close> has the instances and a premature free.

  \<^bold>\<open>Reactive graph\<close> (\<open>noeta-reactive\<close>). \<open>Reactive_Graph\<close> has the node table, edges, owner tree, dirty walk and
  disposal, \<open>Reactive_Run\<close> reading and flushing with the closure runner as a parameter. \<open>Reactive_Invariant\<close>,
  \<open>Reactive_Marking\<close>, \<open>Reactive_Laws\<close>, \<open>Reactive_Steps\<close> and \<open>Reactive_Reach\<close> show the invariant of every
  interleaving, that a write flags exactly the dependents, that disposal is exact, and that no stale memo is
  served.

  \<^bold>\<open>Formatter layout\<close> (\<open>noeta-fmt/src/doc.rs\<close>). \<open>Pretty_Doc\<close> is the document algebra and its renderer;
  \<open>Pretty_Doc_Laws\<close> shows that the output is one of the layouts of the document, that verbatim text is
  reported where it stands, and that a flat group stays within the width.

  \<^bold>\<open>Transparency log\<close> (\<open>noeta-pm/src/transparency.rs\<close>, the release check of \<open>registry.rs\<close>). \<open>Merkle_Log\<close> has the
  proof verifiers, checkpoints, records and hexadecimal fields, with SHA-256, Ed25519 and the registry's
  answers as parameters. \<open>Merkle_Laws\<close> relates the verifiers to the tree of RFC 6962: what they accept is true
  of every log with that root unless the digest collides on the inputs at hand, and honest proofs are
  accepted. \<open>Merkle_Release\<close> composes this to the check of a release.

  \<^bold>\<open>Loops and bounds.\<close> Loops that always end are total functions with a measure. Loops that may not end give
  an option: the liveness sweep, the scanners of the lexer and its main loop are proved to return; the
  search for a power of two returns up to \<open>2 ^ 63\<close> and is proved not to return above. A flush is bounded by
  \<open>MAX_FLUSH_STEPS\<close> as in the code. Recursion of the collectors is a list of pending objects, ended by the
  number of objects. Offsets of the lexer and columns of the renderer are mathematical numbers, which agrees
  with the machine integers for texts below \<open>2 ^ 32\<close> bytes.

  \<^bold>\<open>Not modelled.\<close> The parser, the rest of the checker, lowering and optimisation work on the full syntax tree
  and intermediate representation; the virtual machine and the evaluator need the whole value model; native
  code, the standard library, the language server, the command line and the rest of the package manager are
  glue around third-party crates and the operating system. The contents of heap payloads other than
  references, the serialization of modules and the textual dumps used by tests are left out.
\<close>

end
